(* ===== verification/Prelude.thy ===== *)
theory Prelude
  imports Main "HOL-Library.Word" "HOL-Library.Char_ord" "HOL-Library.List_Lexorder"
begin

text \<open>
  Shared vocabulary of the development: the machine types of the Go sources, results of
  fallible operations, the fact collections the component theories extend, and the generic
  lemmas on sorted association lists that stand behind every ordered container.

  \<^item> A Go \<^verbatim>\<open>uint64\<close> is a \<open>64 word\<close>, a \<^verbatim>\<open>uint8\<close> an \<open>8 word\<close>; \<^verbatim>\<open>int64\<close> quantities
    (durations and timestamps in nanoseconds) are \<open>int\<close> with the range checks written out.
  \<^item> A Go \<^verbatim>\<open>string\<close> and a \<^verbatim>\<open>[]byte\<close> are both \<open>string\<close>: an HOL \<open>char\<close> is one byte. Where the
    code distinguishes a nil slice from an empty one, the model uses \<open>bytes option\<close>.
  \<^item> An operation that can fail returns \<open>error + 'a\<close> with the error on the left.
\<close>

type_synonym u8 = "8 word"
type_synonym u64 = "64 word"
type_synonym bytes = string

text \<open>
  \<^verbatim>\<open>model_defs\<close> collects the definitions of small operations that proofs normally unfold;
  \<^verbatim>\<open>inv_intros\<close> collects the preservation lemmas of the invariants.
\<close>

named_theorems model_defs "definitions that component proofs unfold"
named_theorems inv_intros "preservation lemmas of component invariants"

subsection \<open>Results\<close>

definition is_ok :: "'e + 'a \<Rightarrow> bool" where
  "is_ok r = (case r of Inl _ \<Rightarrow> False | Inr _ \<Rightarrow> True)"

lemma is_ok_simps [simp]: "is_ok (Inr v)" "\<not> is_ok (Inl e)"
  by (simp_all add: is_ok_def)

lemma is_ok_iff: "is_ok r \<longleftrightarrow> (\<exists>v. r = Inr v)"
  by (cases r) auto

text \<open>A call that may panic.\<close>

datatype 'a outcome = Returns 'a | Panics

subsection \<open>Integers\<close>

text \<open>Go's \<^verbatim>\<open>%\<close> on signed integers takes the sign of the dividend.\<close>

definition go_rem :: "int \<Rightarrow> int \<Rightarrow> int" where
  "go_rem a b = sgn a * (\<bar>a\<bar> mod \<bar>b\<bar>)"

definition MaxInt64 :: int where
  "MaxInt64 = 9223372036854775807"

definition MinInt64 :: int where
  "MinInt64 = - 9223372036854775808"

lemma go_rem_nonneg: "0 \<le> a \<Longrightarrow> 0 < b \<Longrightarrow> go_rem a b = a mod b"
  by (cases "a = 0") (simp_all add: go_rem_def sgn_if)

subsection \<open>Atomic cells\<close>

text \<open>\<^verbatim>\<open>CompareAndSwap\<close> of package \<^verbatim>\<open>sync/atomic\<close>: the new contents and whether the swap happened.\<close>

definition CompareAndSwap :: "'a \<Rightarrow> 'a \<Rightarrow> 'a \<Rightarrow> 'a \<times> bool" where
  "CompareAndSwap cell old new = (if cell = old then (new, True) else (cell, False))"

subsection \<open>Strings\<close>

unbundle bit_operations_syntax

text \<open>The functions of package \<^verbatim>\<open>strings\<close> the sources call.\<close>

definition HasPrefix :: "string \<Rightarrow> string \<Rightarrow> bool" where
  "HasPrefix s p \<longleftrightarrow> take (length p) s = p"

definition HasSuffix :: "string \<Rightarrow> string \<Rightarrow> bool" where
  "HasSuffix s p \<longleftrightarrow> length p \<le> length s \<and> drop (length s - length p) s = p"

definition TrimPrefix :: "string \<Rightarrow> string \<Rightarrow> string" where
  "TrimPrefix s p = (if HasPrefix s p then drop (length p) s else s)"

text \<open>Decimal digits, as \<^verbatim>\<open>%d\<close> prints a non-negative number, and the big-endian bytes of a word
  (\<^verbatim>\<open>binary.BigEndian.PutUint64\<close>).\<close>

definition digit :: "nat \<Rightarrow> char" where
  "digit d = char_of (48 + d)"

fun dec :: "nat \<Rightarrow> string" where
  "dec n = (if n < 10 then [digit n] else dec (n div 10) @ [digit (n mod 10)])"

declare dec.simps [simp del]

definition byte_of :: "u64 \<Rightarrow> char" where
  "byte_of w = char_of (unat (w AND 255))"

definition be64 :: "u64 \<Rightarrow> bytes" where
  "be64 w = map (\<lambda>i. byte_of (drop_bit (8 * i) w)) [7, 6, 5, 4, 3, 2, 1, 0]"

lemma HasPrefix_append [simp]: "HasPrefix (p @ s) p"
  by (simp add: HasPrefix_def)

lemma HasPrefix_iff: "HasPrefix s p \<longleftrightarrow> (\<exists>t. s = p @ t)"
  unfolding HasPrefix_def by (metis append_take_drop_id append_eq_conv_conj)

lemma HasPrefix_Nil [simp]: "HasPrefix s []"
  by (simp add: HasPrefix_def)

lemma TrimPrefix_append [simp]: "TrimPrefix (p @ s) p = s"
  by (simp add: TrimPrefix_def)

subsection \<open>Ordered maps\<close>

text \<open>
  The sources keep their tables in skip lists (\<^verbatim>\<open>skipmap.Uint64Map\<close>, \<^verbatim>\<open>skipmap.StringMap\<close>,
  \<^verbatim>\<open>skipset.StringSet\<close>), which are dictionaries whose \<^verbatim>\<open>Range\<close> visits the keys in
  ascending order. Such a container is represented by its contents: the list of its
  bindings in ascending key order (a set by the ascending list of its elements).
\<close>

type_synonym ('k, 'v) omap = "('k \<times> 'v) list"

definition om_wf :: "('k::linorder, 'v) omap \<Rightarrow> bool" where
  "om_wf m \<longleftrightarrow> sorted_wrt (<) (map fst m)"

fun om_store :: "'k::linorder \<Rightarrow> 'v \<Rightarrow> ('k, 'v) omap \<Rightarrow> ('k, 'v) omap" where
  "om_store k v [] = [(k, v)]"
| "om_store k v ((k', v') # m) =
     (if k < k' then (k, v) # (k', v') # m
      else if k = k' then (k, v) # m
      else (k', v') # om_store k v m)"

definition om_delete :: "'k::linorder \<Rightarrow> ('k, 'v) omap \<Rightarrow> ('k, 'v) omap" where
  "om_delete k m = filter (\<lambda>(k', _). k' \<noteq> k) m"

lemma set_keys_om_store [simp]: "fst ` set (om_store k v m) = insert k (fst ` set m)"
  by (induction k v m rule: om_store.induct) (simp_all add: insert_commute)

lemma map_of_om_store [simp]: "map_of (om_store k v m) = (map_of m)(k \<mapsto> v)"
  by (induction m) (auto simp: fun_eq_iff)

lemma map_of_om_delete [simp]: "map_of (om_delete k m) = (map_of m)(k := None)"
  by (induction m) (auto simp: om_delete_def fun_eq_iff)

lemma om_wf_Nil [simp]: "om_wf []"
  by (simp add: om_wf_def)

lemma om_wf_Cons:
  "om_wf ((k, v) # m) \<longleftrightarrow> (\<forall>k' \<in> fst ` set m. k < k') \<and> om_wf m"
  by (auto simp: om_wf_def)

lemma om_wf_store [simp, intro]: "om_wf m \<Longrightarrow> om_wf (om_store k v m)"
  by (induction m) (force simp: om_wf_Cons simp del: map_of_om_store)+

lemma om_wf_filter: "om_wf m \<Longrightarrow> om_wf (filter P m)"
  by (induction m) (auto simp: om_wf_Cons)

lemma om_wf_delete [simp, intro]: "om_wf m \<Longrightarrow> om_wf (om_delete k m)"
  by (simp add: om_delete_def om_wf_filter)

lemma om_wf_distinct: "om_wf m \<Longrightarrow> distinct (map fst m)"
  by (simp add: om_wf_def strict_sorted_iff)

lemma om_wf_map_of: "om_wf m \<Longrightarrow> (k, v) \<in> set m \<longleftrightarrow> map_of m k = Some v"
  using om_wf_distinct map_of_eq_Some_iff by metis

end
