(* ===== verification/Chord_Node_State.thy ===== *)
theory Chord_Node_State
  imports Prelude
begin

unbundle bit_operations_syntax

text \<open>
  The membership state of a node (\<^verbatim>\<open>chord/node_state.go\<close>): a 64-bit word that packs a transition
  counter (upper 60 bits) and the state (lower 4 bits), changed only by compare-and-swap, and
  the history of the states by transition number. The theory gives the operations as they are
  called from one goroutine, and the small steps (load, compare-and-swap, history store) of any
  number of goroutines that call \<^verbatim>\<open>Transition\<close> at the same time.
\<close>

text \<open>\<^verbatim>\<open>State\<close> is a \<^verbatim>\<open>uint64\<close>; a value without a name is kept as such.\<close>

datatype State = Inactive | Joining | Active | Transferring | Leaving | Left | UnnamedState u64

fun state_num :: "State \<Rightarrow> u64" where
  "state_num Inactive = 0"
| "state_num Joining = 1"
| "state_num Active = 2"
| "state_num Transferring = 3"
| "state_num Leaving = 4"
| "state_num Left = 5"
| "state_num (UnnamedState n) = n"

definition state_of :: "u64 \<Rightarrow> State" where
  "state_of n =
     (if n = 0 then Inactive else if n = 1 then Joining else if n = 2 then Active
      else if n = 3 then Transferring else if n = 4 then Leaving else if n = 5 then Left
      else UnnamedState n)"

record nodeState =
  packed :: u64
  history :: "(u64, State) omap"

definition newNodeState :: "State \<Rightarrow> nodeState" where
  "newNodeState initial =
     (let index = 0 in
      \<lparr>packed = (push_bit 4 index OR state_num initial), history = om_store 0 initial []\<rparr>)"

definition Get :: "nodeState \<Rightarrow> State" where
  "Get s = state_of (packed s AND 15)"

text \<open>The words a call of \<^verbatim>\<open>Transition\<close> computes from the value it loaded.\<close>

definition expected_word :: "u64 \<Rightarrow> State \<Rightarrow> u64" where
  "expected_word cur exp = (push_bit 4 (drop_bit 4 cur) OR state_num exp)"

definition next_word :: "u64 \<Rightarrow> State \<Rightarrow> u64" where
  "next_word cur nxt = (push_bit 4 (drop_bit 4 cur + 1) OR state_num nxt)"

definition Transition :: "nodeState \<Rightarrow> State \<Rightarrow> State \<Rightarrow> nodeState \<times> State \<times> bool" where
  "Transition s exp nxt =
     (let cur = packed s;
          prev = expected_word cur exp;
          nextIndex = drop_bit 4 cur + 1
      in if packed s = prev
         then (s\<lparr>packed := next_word cur nxt, history := om_store nextIndex nxt (history s)\<rparr>,
               nxt, True)
         else (s, state_of (cur AND 15), False))"

text \<open>\<^verbatim>\<open>Set\<close> spins until its transition succeeds; \<open>state_set\<close> is its first iteration.\<close>

partial_function (option) Set_spin :: "nodeState \<Rightarrow> State \<Rightarrow> nodeState option" where
  "Set_spin s val =
     (let (s', _, ok) = Transition s (Get s) val in if ok then Some s' else Set_spin s val)"

definition state_set :: "nodeState \<Rightarrow> State \<Rightarrow> nodeState" where
  "state_set s val = fst (Transition s (Get s) val)"

definition History :: "nodeState \<Rightarrow> State list" where
  "History s = map snd (history s)"

subsection \<open>The packed word\<close>

definition named :: "State \<Rightarrow> bool" where
  "named s \<longleftrightarrow> (\<forall>n. s \<noteq> UnnamedState n)"

lemma named_simps [simp]:
  "named Inactive" "named Joining" "named Active" "named Transferring" "named Leaving" "named Left"
  "\<not> named (UnnamedState n)"
  by (simp_all add: named_def)

lemma state_num_less: "named s \<Longrightarrow> state_num s < 16"
  by (cases s) simp_all

lemma state_of_num [simp]: "named s \<Longrightarrow> state_of (state_num s) = s"
  by (cases s) (simp_all add: state_of_def)

lemma state_num_inj: "named s \<Longrightarrow> named t \<Longrightarrow> state_num s = state_num t \<longleftrightarrow> s = t"
  by (metis state_of_num)

lemma and_15: "(w :: u64) AND 15 = take_bit 4 w"
  by (simp add: take_bit_eq_mask mask_eq_exp_minus_1)

lemma take_bit_small: "(n :: u64) < 16 \<Longrightarrow> take_bit 4 n = n"
  by (simp add: take_bit_eq_mod word_less_nat_alt word_unat_eq_iff unat_mod)

lemma drop_bit_small: "(n :: u64) < 16 \<Longrightarrow> drop_bit 4 n = 0"
  by (simp add: drop_bit_eq_div word_less_nat_alt word_unat_eq_iff unat_div)

lemma low_pack [simp]: "n < 16 \<Longrightarrow> (push_bit 4 i OR n) AND 15 = (n :: u64)"
  by (simp add: and_15 take_bit_or take_bit_push_bit take_bit_small)

lemma high_pack [simp]: "n < 16 \<Longrightarrow> drop_bit 4 (push_bit 4 i OR n) = take_bit 60 (i :: u64)"
  by (simp add: drop_bit_or drop_bit_small drop_bit_push_bit) (rule bit_word_eqI, auto simp: bit_simps)

lemma pack_eq: "push_bit 4 (drop_bit 4 w) OR (w AND 15) = (w :: u64)"
  by (rule bit_word_eqI) (auto simp: bit_simps and_15)

lemma state_of_eq: "named s \<Longrightarrow> state_of n = s \<longleftrightarrow> n = state_num s"
  by (cases s) (auto simp: state_of_def split: if_splits)

lemma named_less: "named (state_of (w AND 15)) \<Longrightarrow> state_num (state_of (w AND 15)) = w AND 15"
  using state_of_eq by metis

lemma expected_word_iff:
  assumes "named exp"
  shows "w = expected_word cur exp \<longleftrightarrow> drop_bit 4 w = drop_bit 4 cur \<and> state_of (w AND 15) = exp"
proof
  assume w: "w = expected_word cur exp"
  have "take_bit 60 (drop_bit 4 cur) = drop_bit 4 cur"
    by (rule bit_word_eqI) (auto simp: bit_simps dest: bit_imp_le_length)
  with w assms show "drop_bit 4 w = drop_bit 4 cur \<and> state_of (w AND 15) = exp"
    using high_pack[OF state_num_less[OF assms], of "drop_bit 4 cur"]
    by (simp add: expected_word_def state_num_less del: high_pack)
next
  assume "drop_bit 4 w = drop_bit 4 cur \<and> state_of (w AND 15) = exp"
  with assms have "drop_bit 4 cur = drop_bit 4 w" "w AND 15 = state_num exp"
    by (auto simp: state_of_eq)
  then show "w = expected_word cur exp"
    using pack_eq[of w] by (simp add: expected_word_def)
qed

lemma low_next_word [simp]: "named nxt \<Longrightarrow> state_of (next_word cur nxt AND 15) = nxt"
  by (simp add: next_word_def state_num_less)

lemma high_next_word: "named nxt \<Longrightarrow> drop_bit 4 (next_word cur nxt) = take_bit 60 (drop_bit 4 cur + 1)"
  unfolding next_word_def by (rule high_pack) (rule state_num_less)

subsection \<open>Calls from one goroutine\<close>

lemma Transition_eq:
  assumes "named exp"
  shows "Transition s exp nxt =
    (if Get s = exp
     then (s\<lparr>packed := next_word (packed s) nxt,
             history := om_store (drop_bit 4 (packed s) + 1) nxt (history s)\<rparr>, nxt, True)
     else (s, Get s, False))"
  using assms expected_word_iff[OF assms, of "packed s" "packed s"]
  by (auto simp: Transition_def Let_def Get_def)

lemma Get_Transition:
  assumes "named exp" "named nxt"
  shows "Get (fst (Transition s exp nxt)) = (if Get s = exp then nxt else Get s)"
  using assms by (simp add: Transition_eq Get_def)

lemma Get_newNodeState [simp]: "named i \<Longrightarrow> Get (newNodeState i) = i"
  by (simp add: newNodeState_def Get_def and_15 take_bit_small state_num_less)

lemma Get_state_set [simp]: "named (Get s) \<Longrightarrow> named v \<Longrightarrow> Get (state_set s v) = v"
  by (simp add: state_set_def Get_Transition)

lemma Set_spin_returns: "named (Get s) \<Longrightarrow> Set_spin s v = Some (state_set s v)"
  by (subst Set_spin.simps) (simp add: state_set_def Transition_eq)

subsection \<open>Concurrent callers\<close>

text \<open>
  A goroutine inside \<^verbatim>\<open>Transition\<close> has either loaded the word (with the states it was called
  for) or won the compare-and-swap and still has to store the history entry. The ghost fields
  count the successful swaps, and remember for each goroutine the count at its load.
\<close>

datatype goroutine = Ready | Loaded u64 State State | Recording u64 State

record nst_sys =
  nst_mem :: nodeState
  nst_gor :: "nat \<Rightarrow> goroutine"
  nst_wins :: nat
  nst_seen :: "nat \<Rightarrow> nat"
  nst_log :: "State list"

definition nst_init :: "State \<Rightarrow> nst_sys" where
  "nst_init initial = \<lparr>nst_mem = newNodeState initial, nst_gor = (\<lambda>_. Ready), nst_wins = 0, nst_seen = (\<lambda>_. 0),
     nst_log = [initial]\<rparr>"

inductive nst_step :: "nst_sys \<Rightarrow> nst_sys \<Rightarrow> bool" where
  load: "nst_gor s t = Ready \<Longrightarrow> named exp \<Longrightarrow> named nxt \<Longrightarrow>
     nst_step s (s\<lparr>nst_gor := (nst_gor s)(t := Loaded (packed (nst_mem s)) exp nxt),
                   nst_seen := (nst_seen s)(t := nst_wins s)\<rparr>)"
| cas_win: "nst_gor s t = Loaded cur exp nxt \<Longrightarrow> packed (nst_mem s) = expected_word cur exp \<Longrightarrow>
     nst_step s (s\<lparr>nst_mem := (nst_mem s)\<lparr>packed := next_word cur nxt\<rparr>,
                   nst_gor := (nst_gor s)(t := Recording (drop_bit 4 cur + 1) nxt),
                   nst_wins := Suc (nst_wins s), nst_log := nst_log s @ [nxt]\<rparr>)"
| cas_lose: "nst_gor s t = Loaded cur exp nxt \<Longrightarrow> packed (nst_mem s) \<noteq> expected_word cur exp \<Longrightarrow>
     nst_step s (s\<lparr>nst_gor := (nst_gor s)(t := Ready)\<rparr>)"
| record_history: "nst_gor s t = Recording i nxt \<Longrightarrow>
     nst_step s (s\<lparr>nst_mem := (nst_mem s)\<lparr>history := om_store i nxt (history (nst_mem s))\<rparr>,
                   nst_gor := (nst_gor s)(t := Ready)\<rparr>)"

inductive nst_reachable :: "State \<Rightarrow> nst_sys \<Rightarrow> bool" for initial :: State where
  start: "nst_reachable initial (nst_init initial)"
| step: "nst_reachable initial s \<Longrightarrow> nst_step s s' \<Longrightarrow> nst_reachable initial s'"

definition nst_loaded_ok :: "nst_sys \<Rightarrow> bool" where
  "nst_loaded_ok s \<longleftrightarrow>
     (\<forall>t cur exp nxt. nst_gor s t = Loaded cur exp nxt \<longrightarrow>
        named exp \<and> named nxt \<and> nst_seen s t \<le> nst_wins s \<and> unat (drop_bit 4 cur) = nst_seen s t \<and>
        (nst_seen s t = nst_wins s \<longrightarrow> cur = packed (nst_mem s)))"

definition recording :: "nst_sys \<Rightarrow> (nat \<times> u64 \<times> State) set" where
  "recording s = {(t, i, v). nst_gor s t = Recording i v}"

definition nst_history_ok :: "nst_sys \<Rightarrow> bool" where
  "nst_history_ok s \<longleftrightarrow>
     om_wf (history (nst_mem s)) \<and>
     (\<forall>i. (i \<in> dom (map_of (history (nst_mem s))) \<or> (\<exists>t v. (t, i, v) \<in> recording s)) \<longleftrightarrow>
          unat i \<le> nst_wins s) \<and>
     (\<forall>i v. map_of (history (nst_mem s)) i = Some v \<or> (\<exists>t. (t, i, v) \<in> recording s) \<longrightarrow>
        nst_log s ! unat i = v) \<and>
     (\<forall>t i v. (t, i, v) \<in> recording s \<longrightarrow> i \<notin> dom (map_of (history (nst_mem s))) \<and>
        (\<forall>t' v'. (t', i, v') \<in> recording s \<longrightarrow> t' = t))"

definition nst_inv :: "nst_sys \<Rightarrow> bool" where
  "nst_inv s \<longleftrightarrow> unat (drop_bit 4 (packed (nst_mem s))) = nst_wins s \<and> named (Get (nst_mem s)) \<and>
     length (nst_log s) = Suc (nst_wins s) \<and> last (nst_log s) = Get (nst_mem s) \<and>
     nst_loaded_ok s \<and> nst_history_ok s"

inductive_cases nst_stepE: "nst_step s s'"

lemma nst_inv_init: "named initial \<Longrightarrow> nst_inv (nst_init initial)"
  by (auto simp: nst_inv_def nst_loaded_ok_def nst_history_ok_def nst_init_def newNodeState_def
      recording_def drop_bit_small state_num_less Get_def and_15 take_bit_small om_wf_def unat_eq_0)

lemma nst_step_wins: "nst_step s s' \<Longrightarrow> nst_wins s \<le> nst_wins s'"
  by (auto elim: nst_stepE)

text \<open>Moving a goroutine between states without a pending history entry changes no entry.\<close>

lemma recording_upd:
  assumes "\<And>i v. nst_gor s t \<noteq> Recording i v" "\<And>i v. g \<noteq> Recording i v"
  shows "recording (s\<lparr>nst_gor := (nst_gor s)(t := g)\<rparr>) = recording s"
    "recording (s\<lparr>nst_gor := (nst_gor s)(t := g), nst_seen := f\<rparr>) = recording s"
  by (auto simp: recording_def assms split: if_split_asm)

lemma nst_history_ok_upd:
  assumes "\<And>i v. nst_gor s t \<noteq> Recording i v" "\<And>i v. g \<noteq> Recording i v"
  shows "nst_history_ok (s\<lparr>nst_gor := (nst_gor s)(t := g), nst_seen := f\<rparr>) = nst_history_ok s"
    and "nst_history_ok (s\<lparr>nst_gor := (nst_gor s)(t := g)\<rparr>) = nst_history_ok s"
  unfolding nst_history_ok_def recording_upd[OF assms] by simp_all

lemma nst_inv_load:
  assumes "nst_inv s" "nst_gor s t = Ready" "named exp" "named nxt"
  shows "nst_inv (s\<lparr>nst_gor := (nst_gor s)(t := Loaded (packed (nst_mem s)) exp nxt),
                   nst_seen := (nst_seen s)(t := nst_wins s)\<rparr>)"
proof -
  have "nst_loaded_ok (s\<lparr>nst_gor := (nst_gor s)(t := Loaded (packed (nst_mem s)) exp nxt),
                         nst_seen := (nst_seen s)(t := nst_wins s)\<rparr>)"
    using assms unfolding nst_inv_def nst_loaded_ok_def by simp
  with assms show ?thesis
    unfolding nst_inv_def by (simp add: nst_history_ok_upd del: fun_upd_apply)
qed

lemma nst_inv_cas_lose:
  assumes "nst_inv s" "nst_gor s t = Loaded cur exp nxt"
  shows "nst_inv (s\<lparr>nst_gor := (nst_gor s)(t := Ready)\<rparr>)"
proof -
  have "nst_loaded_ok (s\<lparr>nst_gor := (nst_gor s)(t := Ready)\<rparr>)"
    using assms unfolding nst_inv_def nst_loaded_ok_def by simp
  with assms show ?thesis
    unfolding nst_inv_def by (simp add: nst_history_ok_upd del: fun_upd_apply)
qed

text \<open>A winning swap finds the very word it loaded, in the state it expected.\<close>

lemma nst_win:
  assumes "nst_inv s" "nst_gor s t = Loaded cur exp nxt" "packed (nst_mem s) = expected_word cur exp"
  shows "nst_seen s t = nst_wins s" "cur = packed (nst_mem s)" "Get (nst_mem s) = exp"
proof -
  have l: "named exp" "unat (drop_bit 4 cur) = nst_seen s t" "nst_seen s t = nst_wins s \<longrightarrow> cur = packed (nst_mem s)"
    using assms(1,2) unfolding nst_inv_def nst_loaded_ok_def by blast+
  have d: "drop_bit 4 (packed (nst_mem s)) = drop_bit 4 cur" "Get (nst_mem s) = exp"
    using expected_word_iff[OF l(1), of "packed (nst_mem s)" cur] assms(3) by (simp_all add: Get_def)
  then show "nst_seen s t = nst_wins s" using l(2) assms(1) by (simp add: nst_inv_def)
  with l(3) show "cur = packed (nst_mem s)" by simp
  show "Get (nst_mem s) = exp" by (rule d(2))
qed

lemma nst_historyD:
  assumes "nst_history_ok s"
  shows "om_wf (history (nst_mem s))"
    "\<And>i. (i \<in> dom (map_of (history (nst_mem s))) \<or> (\<exists>t v. (t, i, v) \<in> recording s)) \<longleftrightarrow> unat i \<le> nst_wins s"
    "\<And>i v. map_of (history (nst_mem s)) i = Some v \<or> (\<exists>t. (t, i, v) \<in> recording s) \<Longrightarrow> nst_log s ! unat i = v"
    "\<And>t i v. (t, i, v) \<in> recording s \<Longrightarrow> i \<notin> dom (map_of (history (nst_mem s)))"
    "\<And>t i v t' v'. (t, i, v) \<in> recording s \<Longrightarrow> (t', i, v') \<in> recording s \<Longrightarrow> t' = t \<and> v' = v"
proof -
  note d = assms[unfolded nst_history_ok_def]
  note u = d[THEN conjunct2, THEN conjunct2, THEN conjunct2, rule_format]
  show "om_wf (history (nst_mem s))" by (rule d[THEN conjunct1])
  show "(i \<in> dom (map_of (history (nst_mem s))) \<or> (\<exists>t v. (t, i, v) \<in> recording s)) \<longleftrightarrow> unat i \<le> nst_wins s" for i
    by (rule d[THEN conjunct2, THEN conjunct1, rule_format])
  show "nst_log s ! unat i = v"
    if "map_of (history (nst_mem s)) i = Some v \<or> (\<exists>t. (t, i, v) \<in> recording s)" for i v
    using d[THEN conjunct2, THEN conjunct2, THEN conjunct1] that by blast
  show "i \<notin> dom (map_of (history (nst_mem s)))" if "(t, i, v) \<in> recording s" for t i v
    by (rule u[OF that, THEN conjunct1])
  fix t i v t' v' assume r: "(t, i, v) \<in> recording s" "(t', i, v') \<in> recording s"
  then have "t' = t" by (rule u[THEN conjunct2, rule_format])
  with r show "t' = t \<and> v' = v" by (auto simp: recording_def)
qed

lemma nst_history_win:
  assumes h: "nst_history_ok s" and b: "Suc (nst_wins s) < 2 ^ 60"
    and m: "history (nst_mem s') = history (nst_mem s)" "nst_wins s' = Suc (nst_wins s)" "nst_log s' = nst_log s @ [nxt]" "length (nst_log s) = Suc (nst_wins s)"
    and r: "recording s' = insert (t, of_nat (Suc (nst_wins s)), nxt) (recording s)"
  shows "nst_history_ok s'"
proof -
  note hd = nst_historyD[OF h]
  let ?n = "of_nat (Suc (nst_wins s)) :: u64"
  have new: "unat ?n = Suc (nst_wins s)" using b by (simp add: unsigned_of_nat take_bit_nat_eq_self del: of_nat_Suc)
  then have iff: "unat i \<le> Suc (nst_wins s) \<longleftrightarrow> i = ?n \<or> unat i \<le> nst_wins s" for i :: u64
    by (auto simp: le_Suc_eq word_unat_eq_iff simp del: of_nat_Suc)
  have fresh: "?n \<notin> dom (map_of (history (nst_mem s)))" "(t', ?n, v) \<notin> recording s" for t' v
    using hd(2)[of ?n] unfolding new by auto
  show ?thesis unfolding nst_history_ok_def m(1-3) r iff
  proof (intro conjI allI impI)
    fix i v assume i: "map_of (history (nst_mem s)) i = Some v \<or>
      (\<exists>ta. (ta, i, v) \<in> insert (t, ?n, nxt) (recording s))"
    show "(nst_log s @ [nxt]) ! unat i = v"
    proof (cases "i = ?n")
      case True
      then have "v = nxt" using i fresh by blast
      then show ?thesis using True m(4) new by (simp add: nth_append del: of_nat_Suc)
    next
      case False
      then have "map_of (history (nst_mem s)) i = Some v \<or> (\<exists>ta. (ta, i, v) \<in> recording s)"
        using i by blast
      then have "nst_log s ! unat i = v" "unat i \<le> nst_wins s" using hd(3)[of i v] hd(2)[of i] by blast+
      then show ?thesis using m(4) by (simp add: nth_append)
    qed
  next
    show "(i \<in> dom (map_of (history (nst_mem s))) \<or> (\<exists>ta v. (ta, i, v) \<in> insert (t, ?n, nxt) (recording s)))
      = (i = ?n \<or> unat i \<le> nst_wins s)" for i
      unfolding hd(2)[symmetric] by blast
  next
    fix t' i v' t'' v''
    assume "(t', i, v') \<in> insert (t, ?n, nxt) (recording s)"
      "(t'', i, v'') \<in> insert (t, ?n, nxt) (recording s)"
    then show "t'' = t'" using hd(5) by (auto simp: fresh(2) simp del: of_nat_Suc)
  next
    fix t' i v' assume "(t', i, v') \<in> insert (t, ?n, nxt) (recording s)"
    then show "i \<notin> dom (map_of (history (nst_mem s)))" using hd(4) fresh(1) by blast
  qed (auto simp: hd(1))
qed

lemma nst_history_record:
  assumes h: "nst_history_ok s" and g: "(t, i, v) \<in> recording s"
    and m: "history (nst_mem s') = om_store i v (history (nst_mem s))" "nst_wins s' = nst_wins s"
      "nst_log s' = nst_log s"
    and r: "recording s' = recording s - {(t, i, v)}"
  shows "nst_history_ok s'"
proof -
  note hd = nst_historyD[OF h]
  have rec: "(t', j, v') \<in> recording s' \<longleftrightarrow> j \<noteq> i \<and> (t', j, v') \<in> recording s" for t' j v'
    using g hd(5)[OF g] unfolding r by blast
  show ?thesis unfolding nst_history_ok_def m rec
  proof (intro conjI allI impI)
    show "(j \<in> dom (map_of (om_store i v (history (nst_mem s)))) \<or>
      (\<exists>t v. j \<noteq> i \<and> (t, j, v) \<in> recording s)) = (unat j \<le> nst_wins s)" for j
      unfolding hd(2)[symmetric] using g by (cases "j = i") auto
  next
    fix j v' assume "map_of (om_store i v (history (nst_mem s))) j = Some v' \<or>
      (\<exists>t. j \<noteq> i \<and> (t, j, v') \<in> recording s)"
    then have "map_of (history (nst_mem s)) j = Some v' \<or> (\<exists>t. (t, j, v') \<in> recording s)"
      using g by (cases "j = i") auto
    then show "nst_log s ! unat j = v'" by (rule hd(3))
  next
    fix t' j v' assume "j \<noteq> i \<and> (t', j, v') \<in> recording s"
    then show "j \<notin> dom (map_of (om_store i v (history (nst_mem s))))" using hd(4)[of t' j v'] by simp
  next
    fix t' j v' t'' v''
    assume "j \<noteq> i \<and> (t', j, v') \<in> recording s" "j \<noteq> i \<and> (t'', j, v'') \<in> recording s"
    then show "t'' = t'" using hd(5) by blast
  qed (simp add: hd(1))
qed

lemma nst_inv_cas_win:
  assumes inv: "nst_inv s" and g: "nst_gor s t = Loaded cur exp nxt"
    and w: "packed (nst_mem s) = expected_word cur exp" and b: "Suc (nst_wins s) < 2 ^ 60"
  shows "nst_inv (s\<lparr>nst_mem := (nst_mem s)\<lparr>packed := next_word cur nxt\<rparr>,
                   nst_gor := (nst_gor s)(t := Recording (drop_bit 4 cur + 1) nxt),
                   nst_wins := Suc (nst_wins s), nst_log := nst_log s @ [nxt]\<rparr>)" (is "nst_inv ?s")
proof -
  note win = nst_win[OF inv g w]
  have nm: "named nxt" using inv g unfolding nst_inv_def nst_loaded_ok_def by blast
  have cu: "unat (drop_bit 4 cur) = nst_wins s" using inv win by (simp add: nst_inv_def)
  have dc: "drop_bit 4 cur = of_nat (nst_wins s)" unfolding cu[symmetric] by simp
  have un: "unat (drop_bit 4 cur + 1) = Suc (nst_wins s)"
    using cu b by (subst unat_add_lem[THEN iffD1]) auto
  then have "take_bit 60 (drop_bit 4 cur + 1) = drop_bit 4 cur + 1"
    using b by (simp add: word_unat_eq_iff take_bit_eq_mod unat_mod)
  then have hi: "unat (drop_bit 4 (next_word cur nxt)) = Suc (nst_wins s)"
    using un by (simp add: high_next_word[OF nm])
  have "nst_loaded_ok ?s"
    unfolding nst_loaded_ok_def
  proof (intro allI impI)
    fix t' c e n assume "nst_gor ?s t' = Loaded c e n"
    then have "nst_gor s t' = Loaded c e n" by (simp split: if_split_asm)
    then have "named e \<and> named n \<and> nst_seen s t' \<le> nst_wins s \<and> unat (drop_bit 4 c) = nst_seen s t'"
      using inv unfolding nst_inv_def nst_loaded_ok_def by blast
    then show "named e \<and> named n \<and> nst_seen ?s t' \<le> nst_wins ?s \<and> unat (drop_bit 4 c) = nst_seen ?s t' \<and>
        (nst_seen ?s t' = nst_wins ?s \<longrightarrow> c = packed (nst_mem ?s))"
      by simp
  qed
  moreover have rec: "recording ?s = insert (t, of_nat (Suc (nst_wins s)), nxt) (recording s)"
    unfolding recording_def using g dc by (auto simp: add.commute split: if_split_asm)
  have "nst_history_ok s" "length (nst_log s) = Suc (nst_wins s)" using inv by (simp_all add: nst_inv_def)
  then have "nst_history_ok ?s"
    by (intro nst_history_win[OF _ b _ _ _ _ rec]) simp_all
  ultimately show ?thesis using hi nm inv by (simp add: nst_inv_def Get_def)
qed

lemma nst_inv_record:
  assumes inv: "nst_inv s" and g: "nst_gor s t = Recording i v"
  shows "nst_inv (s\<lparr>nst_mem := (nst_mem s)\<lparr>history := om_store i v (history (nst_mem s))\<rparr>,
                   nst_gor := (nst_gor s)(t := Ready)\<rparr>)" (is "nst_inv ?s")
proof -
  have rec: "recording ?s = recording s - {(t, i, v)}" "(t, i, v) \<in> recording s"
    using g by (auto simp: recording_def split: if_split_asm)
  have "nst_history_ok s" using inv by (simp add: nst_inv_def)
  then have "nst_history_ok ?s"
    by (rule nst_history_record[OF _ rec(2) _ _ _ rec(1)]) simp_all
  moreover have "nst_loaded_ok ?s"
    using inv unfolding nst_inv_def nst_loaded_ok_def by simp
  ultimately show ?thesis using inv by (simp add: nst_inv_def Get_def)
qed

lemma nst_inv_step:
  assumes "nst_step s s'" "nst_inv s" "nst_wins s' < 2 ^ 60"
  shows "nst_inv s'"
  using assms
proof (cases rule: nst_step.cases)
  case (cas_win t cur exp nxt)
  with assms(3) have "Suc (nst_wins s) < 2 ^ 60" by simp
  with cas_win show ?thesis using nst_inv_cas_win[OF assms(2)] by blast
qed (use assms(2) nst_inv_load nst_inv_cas_lose nst_inv_record in blast)+

lemma nst_inv_reachable:
  "nst_reachable initial s \<Longrightarrow> named initial \<Longrightarrow> nst_wins s < 2 ^ 60 \<Longrightarrow> nst_inv s"
proof (induction rule: nst_reachable.induct)
  case start
  then show ?case by (simp add: nst_inv_init)
next
  case (step s s')
  then have "nst_wins s < 2 ^ 60" using nst_step_wins by fastforce
  with step show ?case by (blast intro: nst_inv_step)
qed

lemma set_om_keys: "set (map fst m) = dom (map_of m)"
  by (simp add: dom_map_of_conv_image_fst)

text \<open>The history lists the states in the order of the swaps, except those whose entry is pending.\<close>

definition stored :: "nst_sys \<Rightarrow> nat list" where
  "stored s = filter (\<lambda>k. \<forall>t v. nst_gor s t \<noteq> Recording (of_nat k) v) [0..<Suc (nst_wins s)]"

lemma nst_history_stored:
  assumes inv: "nst_inv s" and b: "nst_wins s < 2 ^ 60"
  shows "History (nst_mem s) = map ((!) (nst_log s)) (stored s)"
proof -
  let ?h = "history (nst_mem s)"
  have h: "nst_history_ok s" using inv by (simp add: nst_inv_def)
  note hd = nst_historyD[OF h]
  have un: "unat (of_nat k :: u64) = k" if "k \<le> nst_wins s" for k
    using that b by (simp add: unsigned_of_nat take_bit_nat_eq_self)
  have st: "k \<in> set (stored s) \<longleftrightarrow> k \<le> nst_wins s \<and> of_nat k \<in> dom (map_of ?h)" for k
  proof (cases "k \<le> nst_wins s")
    case True
    have "of_nat k \<in> dom (map_of ?h) \<or> (\<exists>t v. nst_gor s t = Recording (of_nat k) v)"
      using hd(2)[of "of_nat k"] un[OF True] True by (auto simp: recording_def)
    moreover have "\<not> (of_nat k \<in> dom (map_of ?h) \<and> nst_gor s t = Recording (of_nat k) v)" for t v
      using hd(4)[of t "of_nat k" v] by (auto simp: recording_def)
    ultimately show ?thesis using True by (auto simp: stored_def less_Suc_eq_le simp del: upt_Suc)
  qed (simp add: stored_def less_Suc_eq_le)
  let ?ks = "map of_nat (stored s) :: u64 list"
  have eq: "map fst ?h = ?ks"
  proof (rule sorted_distinct_set_unique)
    show "sorted (map fst ?h)" "distinct (map fst ?h)" using hd(1) by (auto simp: om_wf_def om_wf_distinct strict_sorted_iff)
    have "inj_on (of_nat :: nat \<Rightarrow> u64) (set (stored s))" using un st by (intro inj_onI) metis
    moreover have "distinct (stored s)" by (simp add: stored_def del: upt_Suc)
    ultimately show "distinct ?ks" by (simp add: distinct_map)
    have "sorted (stored s)" by (simp add: stored_def sorted_wrt_filter del: upt_Suc)
    then show "sorted ?ks" unfolding sorted_map
      by (rule sorted_wrt_mono_rel[rotated]) (use un st in \<open>simp add: word_le_nat_alt\<close>)
    show "set (map fst ?h) = set ?ks"
    proof (rule set_eqI)
      fix i
      have "i \<in> set ?ks \<longleftrightarrow> (\<exists>k. k \<le> nst_wins s \<and> of_nat k \<in> dom (map_of ?h) \<and> i = of_nat k)"
        using st by auto
      also have "\<dots> \<longleftrightarrow> i \<in> dom (map_of ?h)" using hd(2)[of i] by (metis of_nat_unat ucast_id)
      finally show "i \<in> set (map fst ?h) \<longleftrightarrow> i \<in> set ?ks" by (simp only: set_om_keys)
    qed
  qed
  have "snd e = nst_log s ! unat (fst e)" if "e \<in> set ?h" for e
    using hd(3)[of "fst e" "snd e"] om_wf_map_of[OF hd(1), of "fst e" "snd e"] that by simp
  then have "map snd ?h = map (\<lambda>e. nst_log s ! unat (fst e)) ?h" by simp
  also have "\<dots> = map (\<lambda>i. nst_log s ! unat i) (map fst ?h)" by simp
  also have "\<dots> = map ((!) (nst_log s)) (stored s)" unfolding eq using un st by simp
  finally show ?thesis by (simp add: History_def)
qed

lemma nst_history_complete:
  assumes "nst_inv s" "\<And>t i v. nst_gor s t \<noteq> Recording i v" "nst_wins s < 2 ^ 60"
  shows "History (nst_mem s) = nst_log s"
proof -
  have "stored s = [0..<length (nst_log s)]" using assms(1,2) by (simp add: stored_def nst_inv_def del: upt_Suc)
  then show ?thesis using nst_history_stored[OF assms(1,3)] by (simp add: map_nth)
qed

subsection \<open>Properties\<close>

text \<open>C16: the compare-and-swap of \<^verbatim>\<open>Transition\<close> is free of the ABA problem. In every
  interleaving of any number of callers with fewer than \<open>2 ^ 60\<close> successful transitions, a caller
  whose swap is about to succeed finds the very word it loaded, no other transition has
  succeeded since its load, and the node is in the state the caller expected.\<close>

theorem Transition_no_ABA:
  assumes "nst_reachable initial s" "named initial" "nst_wins s < 2 ^ 60"
    and "nst_gor s t = Loaded cur exp nxt" "packed (nst_mem s) = expected_word cur exp"
  shows "cur = packed (nst_mem s) \<and> nst_seen s t = nst_wins s \<and> Get (nst_mem s) = exp"
  using nst_win[OF nst_inv_reachable[OF assms(1-3)] assms(4,5)] by blast

theorem Transition_no_ABA_witness:
  "\<exists>s. nst_reachable Inactive s \<and> nst_gor s 0 = Loaded (packed (nst_mem s)) Inactive Joining \<and>
     packed (nst_mem s) = expected_word (packed (nst_mem s)) Inactive \<and>
     nst_seen s 0 = nst_wins s \<and> Get (nst_mem s) = Inactive"
proof -
  let ?i = "nst_init Inactive"
  let ?s = "?i\<lparr>nst_gor := (nst_gor ?i)(0 := Loaded (packed (nst_mem ?i)) Inactive Joining),
               nst_seen := (nst_seen ?i)(0 := nst_wins ?i)\<rparr>"
  have r: "nst_reachable Inactive ?s"
    by (rule nst_reachable.step[OF nst_reachable.start nst_step.load]) (simp_all add: nst_init_def)
  have e: "packed (nst_mem ?s) = expected_word (packed (nst_mem ?s)) Inactive"
    by (simp add: nst_init_def newNodeState_def expected_word_def)
  have w: "nst_wins ?s < 2 ^ 60" "nst_gor ?s 0 = Loaded (packed (nst_mem ?s)) Inactive Joining"
    by (simp_all add: nst_init_def)
  show ?thesis
    using Transition_no_ABA[OF r _ w e] r e w by auto
qed

text \<open>C17: the state history is a faithful log. In every interleaving with fewer than \<open>2 ^ 60\<close>
  successful transitions, \<^verbatim>\<open>History\<close> lists, in the order in which their swaps took effect, the initial
  state and the states of the successful transitions whose winner has stored its entry; a transition
  is missing exactly while its winner is between the swap and \<^verbatim>\<open>history.Store\<close>. The state of the last
  successful transition is what \<^verbatim>\<open>Get\<close> returns. When no winner is between the two, the history is
  complete and its last entry is what \<^verbatim>\<open>Get\<close> returns.\<close>

theorem History_is_log:
  assumes "nst_reachable initial s" "named initial" "nst_wins s < 2 ^ 60"
  shows "History (nst_mem s) = map ((!) (nst_log s)) (stored s) \<and> last (nst_log s) = Get (nst_mem s) \<and>
    ((\<forall>t i v. nst_gor s t \<noteq> Recording i v) \<longrightarrow>
      History (nst_mem s) = nst_log s \<and> last (History (nst_mem s)) = Get (nst_mem s))"
proof -
  have inv: "nst_inv s" by (rule nst_inv_reachable[OF assms])
  then have "last (nst_log s) = Get (nst_mem s)" by (simp add: nst_inv_def)
  then show ?thesis using nst_history_stored[OF inv assms(3)] nst_history_complete[OF inv _ assms(3)] by simp
qed

theorem History_is_log_witness:
  "\<exists>c r. nst_reachable Inactive c \<and> History (nst_mem c) = [Inactive] \<and> Get (nst_mem c) = Joining \<and>
     nst_step c r \<and> nst_wins r = 1 \<and> History (nst_mem r) = [Inactive, Joining] \<and> Get (nst_mem r) = Joining"
proof -
  let ?i = "nst_init Inactive"
  let ?l = "?i\<lparr>nst_gor := (nst_gor ?i)(0 := Loaded (packed (nst_mem ?i)) Inactive Joining),
               nst_seen := (nst_seen ?i)(0 := nst_wins ?i)\<rparr>"
  let ?c = "?l\<lparr>nst_mem := (nst_mem ?l)\<lparr>packed := next_word 0 Joining\<rparr>,
               nst_gor := (nst_gor ?l)(0 := Recording (drop_bit 4 0 + 1) Joining),
               nst_wins := Suc (nst_wins ?l), nst_log := nst_log ?l @ [Joining]\<rparr>"
  let ?r = "?c\<lparr>nst_mem := (nst_mem ?c)\<lparr>history := om_store (drop_bit 4 0 + 1) Joining (history (nst_mem ?c))\<rparr>,
               nst_gor := (nst_gor ?c)(0 := Ready)\<rparr>"
  have l: "nst_reachable Inactive ?l"
    by (rule nst_reachable.step[OF nst_reachable.start nst_step.load]) (simp_all add: nst_init_def)
  have c: "nst_reachable Inactive ?c"
    by (rule nst_reachable.step[OF l nst_step.cas_win[where exp = Inactive]])
      (simp_all add: nst_init_def newNodeState_def expected_word_def)
  have step: "nst_step ?c ?r" by (rule nst_step.record_history) simp
  then have r: "nst_reachable Inactive ?r" by (rule nst_reachable.step[OF c])
  have "stored ?c = [0]" by (auto simp: stored_def nst_init_def)
  then have hc: "History (nst_mem ?c) = [Inactive]" "Get (nst_mem ?c) = Joining"
    using History_is_log[OF c] by (simp_all add: nst_init_def)
  have "stored ?r = [0, 1]" by (auto simp: stored_def nst_init_def)
  then have "History (nst_mem ?r) = [Inactive, Joining]" "Get (nst_mem ?r) = Joining"
    using History_is_log[OF r] by (simp_all add: nst_init_def)
  then show ?thesis
    using c step hc by (intro exI[of _ ?c] exI[of _ ?r]) (simp add: nst_init_def)
qed

end
