(* ===== verification/Chord_Ring.thy ===== *)
theory Chord_Ring
  imports Prelude
begin

text \<open>
  The identifier space of the Chord ring (\<^verbatim>\<open>spec/chord/chord.go\<close>): identifiers are 64-bit words
  below \<^verbatim>\<open>MaxIdentitifer\<close>, arranged on a circle; \<^verbatim>\<open>Between\<close> is the interval test every routing
  decision uses. The lemmas relate it to the clockwise distance on the circle, in which the
  lookup and key-ownership arguments of the other theories are carried out.
\<close>

definition MaxFingerEntries :: nat where
  "MaxFingerEntries = 48"

definition ExtendedSuccessorEntries :: nat where
  "ExtendedSuccessorEntries = 4"

definition MaxIdentitifer :: u64 where
  "MaxIdentitifer = push_bit MaxFingerEntries 1"

text \<open>\<^verbatim>\<open>xxh3.Hash\<close> is a third-party function and stays a parameter.\<close>

definition Hash :: "(bytes \<Rightarrow> u64) \<Rightarrow> bytes \<Rightarrow> u64" where
  "Hash xxh3 b = xxh3 b mod MaxIdentitifer"

definition ModuloSum :: "u64 \<Rightarrow> u64 \<Rightarrow> u64" where
  "ModuloSum x y = (x mod MaxIdentitifer + y mod MaxIdentitifer) mod MaxIdentitifer"

definition Between :: "u64 \<Rightarrow> u64 \<Rightarrow> u64 \<Rightarrow> bool \<Rightarrow> bool" where
  "Between low target high inclusive =
     (if high > low
      then (low < target \<and> target < high) \<or> (inclusive \<and> target = high)
      else low < target \<or> target < high \<or> (inclusive \<and> target = high))"

text \<open>
  The two successor-list builders share their loop: walk the candidates, stop when the list
  is full, skip nil entries and nodes whose key (identifier or address) was seen.
\<close>

fun succ_list_loop :: "('n \<Rightarrow> 'k) \<Rightarrow> nat \<Rightarrow> 'n list \<Rightarrow> 'k list \<Rightarrow> 'n option list \<Rightarrow> 'n list" where
  "succ_list_loop key maxLen succList seen [] = succList"
| "succ_list_loop key maxLen succList seen (s # rest) =
     (if length succList \<ge> maxLen then succList
      else case s of
        None \<Rightarrow> succ_list_loop key maxLen succList seen rest
      | Some n \<Rightarrow>
          if key n \<in> set seen then succ_list_loop key maxLen succList seen rest
          else succ_list_loop key maxLen (succList @ [n]) (key n # seen) rest)"

definition MakeSuccListByID :: "('n \<Rightarrow> u64) \<Rightarrow> 'n \<Rightarrow> 'n option list \<Rightarrow> nat \<Rightarrow> 'n list" where
  "MakeSuccListByID ident immediate successors maxLen =
     succ_list_loop ident maxLen [immediate] [ident immediate] successors"

definition MakeSuccListByAddress :: "('n \<Rightarrow> string) \<Rightarrow> 'n \<Rightarrow> 'n option list \<Rightarrow> nat \<Rightarrow> 'n list" where
  "MakeSuccListByAddress address immediate successors maxLen =
     succ_list_loop address maxLen [immediate] [address immediate] successors"

subsection \<open>The identifier space\<close>

lemma MaxIdentitifer_eq: "MaxIdentitifer = 281474976710656"
  by (simp add: MaxIdentitifer_def MaxFingerEntries_def)

abbreviation ring_size :: nat where
  "ring_size \<equiv> 2 ^ 48"

lemma unat_MaxIdentitifer [simp]: "unat MaxIdentitifer = ring_size"
  by (simp add: MaxIdentitifer_eq)

text \<open>An identifier is valid when it lies on the ring.\<close>

definition on_ring :: "u64 \<Rightarrow> bool" where
  "on_ring i \<longleftrightarrow> unat i < ring_size"

lemma on_ring_iff: "on_ring i \<longleftrightarrow> i < MaxIdentitifer"
  by (simp add: on_ring_def word_less_nat_alt)

lemma unat_mod_MaxIdentitifer: "unat (x mod MaxIdentitifer) = unat x mod ring_size"
  by (simp add: unat_mod)

lemma on_ring_mod: "on_ring (x mod MaxIdentitifer)"
  by (simp add: on_ring_def unat_mod_MaxIdentitifer del: power_numeral)

lemma on_ring_Hash: "on_ring (Hash xxh3 b)"
  by (simp add: Hash_def on_ring_mod)

text \<open>The 64-bit addition in \<^verbatim>\<open>ModuloSum\<close> cannot wrap, so the sum is the one on the circle.\<close>

lemma unat_ModuloSum: "unat (ModuloSum x y) = (unat x + unat y) mod ring_size"
proof -
  let ?a = "unat x mod ring_size" and ?b = "unat y mod ring_size"
  have "?a < ring_size" "?b < ring_size" by (simp_all del: power_numeral)
  then have "?a + ?b < 2 ^ 64" by simp
  then have "unat (x mod MaxIdentitifer + y mod MaxIdentitifer) = ?a + ?b"
    by (simp add: unat_mod_MaxIdentitifer unat_word_ariths del: power_numeral)
  then show ?thesis
    by (simp add: ModuloSum_def unat_mod_MaxIdentitifer mod_add_eq del: power_numeral)
qed

lemma on_ring_ModuloSum: "on_ring (ModuloSum x y)"
  by (simp add: ModuloSum_def on_ring_mod)

subsection \<open>Clockwise distance\<close>

definition cw :: "u64 \<Rightarrow> u64 \<Rightarrow> nat" where
  "cw a b = (unat b + ring_size - unat a) mod ring_size"

text \<open>The length of the arc from \<open>low\<close> to \<open>high\<close>; from a point to itself it is the full circle.\<close>

definition arc :: "u64 \<Rightarrow> u64 \<Rightarrow> nat" where
  "arc a b = (if a = b then ring_size else cw a b)"

lemma cw_less: "cw a b < ring_size"
  by (simp add: cw_def del: power_numeral)

lemma cw_same [simp]: "on_ring a \<Longrightarrow> cw a a = 0"
  by (simp add: cw_def on_ring_def)

lemma cw_cases:
  assumes "on_ring a" "on_ring b"
  shows "cw a b = (if unat a \<le> unat b then unat b - unat a else unat b + ring_size - unat a)"
  using assms by (auto simp: cw_def on_ring_def mod_if)

lemma cw_eq_0:
  assumes "on_ring a" "on_ring b"
  shows "cw a b = 0 \<longleftrightarrow> a = b"
  using assms by (auto simp: cw_cases on_ring_def word_unat_eq_iff split: if_splits)

lemma cw_inj:
  assumes "on_ring a" "on_ring b" "on_ring c" "cw a b = cw a c"
  shows "b = c"
  using assms by (auto simp: cw_cases on_ring_def word_unat_eq_iff split: if_splits)

lemma arc_pos: "on_ring a \<Longrightarrow> on_ring b \<Longrightarrow> 0 < arc a b"
  using cw_eq_0 by (auto simp: arc_def)

lemma arc_le: "arc a b \<le> ring_size"
  using cw_less[of a b] by (simp add: arc_def del: power_numeral)

text \<open>Walking from \<open>a\<close> to \<open>c\<close> through a point \<open>b\<close> that is not farther than \<open>c\<close>.\<close>

lemma cw_split:
  assumes "on_ring a" "on_ring b" "on_ring c" "cw a b \<le> cw a c"
  shows "cw a c = cw a b + cw b c"
  using assms by (auto simp: cw_cases on_ring_def split: if_splits)

lemma cw_back:
  assumes "on_ring a" "on_ring b" "a \<noteq> b"
  shows "cw b a = ring_size - cw a b"
  using assms by (auto simp: cw_cases on_ring_def word_unat_eq_iff split: if_splits)

lemma cw_split_far:
  assumes "on_ring a" "on_ring b" "on_ring c" "cw a c < cw a b"
  shows "cw b c = ring_size - cw a b + cw a c"
  using assms by (auto simp: cw_cases on_ring_def split: if_splits)

lemma cw_add:
  assumes "on_ring a" "on_ring b" "on_ring c" "cw a b + cw b c < ring_size"
  shows "cw a c = cw a b + cw b c"
  using assms by (auto simp: cw_cases on_ring_def split: if_splits)

text \<open>\<^verbatim>\<open>Between\<close> is the open arc from \<open>low\<close> to \<open>high\<close>, with \<open>high\<close> added when inclusive.\<close>

lemma Between_cw:
  assumes "on_ring low" "on_ring target" "on_ring high"
  shows "Between low target high inclusive \<longleftrightarrow>
           (0 < cw low target \<and> cw low target < arc low high) \<or> (inclusive \<and> target = high)"
proof -
  have "(if low < high then low < target \<and> target < high else low < target \<or> target < high)
        \<longleftrightarrow> 0 < cw low target \<and> cw low target < arc low high"
    using assms
    by (auto simp: cw_cases arc_def on_ring_def word_less_nat_alt word_unat_eq_iff split: if_splits)
  then show ?thesis by (auto simp: Between_def)
qed

lemma Between_incl_cw:
  assumes "on_ring low" "on_ring target" "on_ring high"
  shows "Between low target high True \<longleftrightarrow>
           target = high \<or> (0 < cw low target \<and> cw low target \<le> arc low high)"
  using assms cw_less[of low target] cw_inj[of low target high]
  by (auto simp: Between_cw arc_def le_less simp del: power_numeral)

lemma Between_trans:
  assumes "on_ring a" "on_ring b" "on_ring c" "on_ring d"
    and "Between a b d False" "Between b c d False"
  shows "Between a c d False" "cw a c = cw a b + cw b c"
proof -
  have 1: "0 < cw a b" "cw a b < arc a d" and 2: "0 < cw b c" "cw b c < arc b d"
    using assms Between_cw by auto
  have bd: "b \<noteq> d" using 1 assms(2) by (auto simp: arc_def split: if_splits)
  have "arc b d = arc a d - cw a b"
  proof (cases "a = d")
    case True
    then show ?thesis using cw_back[of a b] assms bd by (simp add: arc_def)
  next
    case False
    then show ?thesis using cw_split[of a b d] assms bd 1 by (simp add: arc_def)
  qed
  then have lt: "cw a b + cw b c < arc a d" using 1 2 by linarith
  then show add: "cw a c = cw a b + cw b c"
    using cw_add[of a b c] assms arc_le[of a d] by linarith
  show "Between a c d False" using Between_cw[of a c d False] assms lt add 1 by simp
qed

text \<open>On a point's own arc every other point lies between.\<close>

lemma Between_self: "Between a t a False \<longleftrightarrow> t \<noteq> a"
  by (auto simp: Between_def)

lemma Between_self_incl [simp]: "Between a t a True"
  by (auto simp: Between_def)

lemma Between_incl_iff: "Between l t h True \<longleftrightarrow> Between l t h False \<or> t = h"
  by (auto simp: Between_def)

lemma Between_not_low: "on_ring l \<Longrightarrow> Between l l h False \<Longrightarrow> False"
  by (auto simp: Between_def split: if_splits)

subsection \<open>Successor lists\<close>

lemma succ_list_loop_prefix: "\<exists>ys. succ_list_loop key maxLen xs seen cs = xs @ ys"
proof (induction key maxLen xs seen cs rule: succ_list_loop.induct)
  case (2 key maxLen xs seen s rest)
  then show ?case
    by (cases s) auto
qed simp

lemma succ_list_loop_length:
  "length (succ_list_loop key maxLen xs seen cs) \<le> max (length xs) maxLen"
  by (induction key maxLen xs seen cs rule: succ_list_loop.induct) (auto split: option.splits)

lemma succ_list_loop_distinct:
  "set seen = key ` set xs \<Longrightarrow> distinct (map key xs) \<Longrightarrow>
   distinct (map key (succ_list_loop key maxLen xs seen cs))"
  by (induction key maxLen xs seen cs rule: succ_list_loop.induct) (auto split: option.splits)

lemma succ_list_loop_subset:
  "set (succ_list_loop key maxLen xs seen cs) \<subseteq> set xs \<union> {n. Some n \<in> set cs}"
  by (induction key maxLen xs seen cs rule: succ_list_loop.induct) (auto split: option.splits)

text \<open>When the list is not full, every candidate's key is represented in it.\<close>

lemma succ_list_loop_complete:
  "length (succ_list_loop key maxLen xs seen cs) < maxLen \<Longrightarrow> set seen = key ` set xs \<Longrightarrow>
   Some n \<in> set cs \<Longrightarrow> key n \<in> key ` set (succ_list_loop key maxLen xs seen cs)"
proof (induction key maxLen xs seen cs rule: succ_list_loop.induct)
  case (2 key maxLen xs seen s rest)
  have room: "length xs < maxLen"
    using "2.prems"(1) by (simp split: if_splits)
  show ?case
  proof (cases s)
    case None
    with "2.IH"(1) "2.prems" room show ?thesis by simp
  next
    case (Some m)
    obtain ys zs where
      ys: "succ_list_loop key maxLen xs seen rest = xs @ ys" and
      zs: "succ_list_loop key maxLen (xs @ [m]) (key m # seen) rest = (xs @ [m]) @ zs"
      using succ_list_loop_prefix by meson
    show ?thesis
    proof (cases "key m \<in> set seen")
      case True
      with "2.IH"(2)[OF _ Some] "2.prems" room Some ys show ?thesis by auto
    next
      case False
      with "2.IH"(3)[OF _ Some] "2.prems" room Some zs show ?thesis by auto
    qed
  qed
qed simp

lemma MakeSuccListByID_Nil [simp]: "MakeSuccListByID ident n [] maxLen = [n]"
  by (simp add: MakeSuccListByID_def)

lemma MakeSuccListByID_hd: "\<exists>ys. MakeSuccListByID ident n cs maxLen = n # ys"
  using succ_list_loop_prefix[of ident maxLen "[n]" "[ident n]" cs]
  by (auto simp: MakeSuccListByID_def)

lemma MakeSuccListByID_subset:
  "set (MakeSuccListByID ident n cs maxLen) \<subseteq> insert n {m. Some m \<in> set cs}"
  using succ_list_loop_subset[of ident maxLen "[n]" "[ident n]" cs]
  by (auto simp: MakeSuccListByID_def)

subsection \<open>Properties\<close>

text \<open>C19: the interval test of the ring is the arc it means to be, also where the arc wraps past
  zero: \<open>target\<close> is strictly between \<open>low\<close> and \<open>high\<close> exactly when walking clockwise from \<open>low\<close>
  meets it strictly before \<open>high\<close> (before coming back to \<open>low\<close> when both coincide), and the
  inclusive test adds \<open>high\<close> itself.\<close>

theorem Between_is_arc:
  assumes "on_ring low" "on_ring target" "on_ring high"
  shows "(Between low target high False \<longleftrightarrow> 0 < cw low target \<and> cw low target < arc low high) \<and>
    (Between low target high True \<longleftrightarrow> Between low target high False \<or> target = high)"
  using Between_cw[OF assms] by (auto simp: Between_incl_iff)

theorem Between_is_arc_witness:
  "Between 281474976710655 3 7 False \<and> cw 281474976710655 3 = 4 \<and> arc 281474976710655 7 = 8"
proof -
  have "cw 281474976710655 3 = 4" "arc 281474976710655 7 = 8"
    by (simp_all add: cw_def arc_def)
  then show ?thesis
    using Between_is_arc[of 281474976710655 3 7] by (simp add: on_ring_def)
qed

text \<open>C20: a successor list starts with the immediate successor, never holds two nodes with one
  identifier, never exceeds its maximum length, holds only offered nodes, and leaves an offered
  identifier out only when it is full.\<close>

theorem MakeSuccListByID_correct:
  assumes "0 < maxLen"
  shows "hd (MakeSuccListByID ident immediate cs maxLen) = immediate \<and>
    distinct (map ident (MakeSuccListByID ident immediate cs maxLen)) \<and>
    length (MakeSuccListByID ident immediate cs maxLen) \<le> maxLen \<and>
    set (MakeSuccListByID ident immediate cs maxLen) \<subseteq> insert immediate {n. Some n \<in> set cs} \<and>
    (length (MakeSuccListByID ident immediate cs maxLen) < maxLen \<longrightarrow>
       (\<forall>n. Some n \<in> set cs \<longrightarrow> ident n \<in> ident ` set (MakeSuccListByID ident immediate cs maxLen)))"
proof -
  have "hd (MakeSuccListByID ident immediate cs maxLen) = immediate"
    using MakeSuccListByID_hd[of ident immediate cs maxLen] by auto
  moreover have "length (MakeSuccListByID ident immediate cs maxLen) \<le> maxLen"
    using succ_list_loop_length[of ident maxLen "[immediate]" "[ident immediate]" cs] assms
    by (simp add: MakeSuccListByID_def max_def split: if_splits)
  moreover have "distinct (map ident (MakeSuccListByID ident immediate cs maxLen))"
    unfolding MakeSuccListByID_def by (rule succ_list_loop_distinct) simp_all
  moreover have "ident n \<in> ident ` set (MakeSuccListByID ident immediate cs maxLen)"
    if "length (MakeSuccListByID ident immediate cs maxLen) < maxLen" "Some n \<in> set cs" for n
    using that unfolding MakeSuccListByID_def by (intro succ_list_loop_complete) simp_all
  ultimately show ?thesis using MakeSuccListByID_subset[of ident immediate cs maxLen] by blast
qed

theorem MakeSuccListByID_correct_witness:
  "MakeSuccListByID id 1 [Some 2, None, Some 1, Some 3, Some 4] 3 = [1, 2, 3 :: u64] \<and>
   distinct (map id (MakeSuccListByID id 1 [Some 2, None, Some 1, Some 3, Some 4] 3)) \<and>
   length (MakeSuccListByID id 1 [Some 2, None, Some 1, Some 3, Some (4::u64)] 3) \<le> 3"
  using MakeSuccListByID_correct[of 3 id 1 "[Some 2, None, Some 1, Some 3, Some 4]"]
  by (simp add: MakeSuccListByID_def)

end
