(* ===== verification/Chord_Errors.thy ===== *)
theory Chord_Errors
  imports Prelude
begin

text \<open>
  The error values of the Chord layer (\<^verbatim>\<open>spec/chord/errors.go\<close>) and their passage over the RPC
  boundary (\<^verbatim>\<open>spec/rpc/error.go\<close>). A server wraps an error into a twirp error that carries its
  message; the Go type is lost on the wire, so the caller maps the message back to the error
  value with \<^verbatim>\<open>ErrorMapper\<close>. Routing code compares errors by identity and retries by
  \<^verbatim>\<open>ErrorIsRetryable\<close>, so both must survive the round trip.
\<close>

datatype chord_err =
    ErrJoinInvalidState | ErrJoinTransferFailure | ErrJoinInvalidSuccessor
  | ErrLeaveInvalidState | ErrLeaveTransferFailure
  | ErrKVStaleOwnership | ErrKVPendingTransfer
  | ErrNodeGone | ErrNodeNotStarted | ErrNodeNoSuccessor | ErrNodeNil | ErrDuplicateJoinerID
  | ErrKVSimpleConflict | ErrKVPrefixConflict | ErrKVLeaseConflict | ErrKVLeaseExpired
  | ErrKVLeaseInvalidTTL | ErrKVHashFnChanged

datatype twirp_code =
    FailedPrecondition | Internal | InvalidArgument | Unauthenticated | PermissionDenied
  | Unavailable | Aborted | NotFound | ResourceExhausted | Unimplemented

text \<open>
  A Go error: one of the values above, the context error, any other error by its message
  (\<^verbatim>\<open>fmt.Errorf\<close>, transport errors), an error wrapped by \<^verbatim>\<open>fmt.Errorf\<close> with a prefix and
  \<^verbatim>\<open>%w\<close>, or a twirp error with its code, message and wrapped cause.
\<close>

datatype error =
    Chord chord_err
  | DeadlineExceeded
  | Opaque string
  | Wrapped string error
  | Twirp twirp_code string "error option"

fun chord_msg :: "chord_err \<Rightarrow> string" where
  "chord_msg ErrJoinInvalidState = ''chord/membership: node cannot handle join request at the moment''"
| "chord_msg ErrJoinTransferFailure = ''chord/membership: failed to transfer keys to joiner node''"
| "chord_msg ErrJoinInvalidSuccessor = ''chord/membership: join request was routed to the wrong successor node''"
| "chord_msg ErrLeaveInvalidState = ''chord/membership: node cannot handle leave request at the moment''"
| "chord_msg ErrLeaveTransferFailure = ''chord/membership: failed to transfer keys to successor node''"
| "chord_msg ErrKVStaleOwnership = ''chord/kv: processing node no longer has ownership over requested key''"
| "chord_msg ErrKVPendingTransfer = ''chord/kv: kv transfer inprogress, state may be outdated''"
| "chord_msg ErrNodeGone = ''chord: node is not part of the chord ring''"
| "chord_msg ErrNodeNotStarted = ''chord: node is not running''"
| "chord_msg ErrNodeNoSuccessor = ''chord: node has no successor, possibly invalid chord ring''"
| "chord_msg ErrNodeNil = ''chord: node cannot be nil''"
| "chord_msg ErrDuplicateJoinerID = ''chord/membership: joining node has duplicate ID as its successor''"
| "chord_msg ErrKVSimpleConflict = ''chord/kv: simple key was concurrently modified''"
| "chord_msg ErrKVPrefixConflict = ''chord/kv: child already exists under prefix''"
| "chord_msg ErrKVLeaseConflict = ''chord/kv: lease has not expired or was acquired by a different requester''"
| "chord_msg ErrKVLeaseExpired = ''chord/kv: lease has expired with the given token''"
| "chord_msg ErrKVLeaseInvalidTTL = ''chord/kv: lease ttl must be greater than a second''"
| "chord_msg ErrKVHashFnChanged = ''chord/kv: calculated hash is different from storage''"

definition all_chord_errs :: "chord_err list" where
  "all_chord_errs =
     [ErrJoinInvalidState, ErrJoinTransferFailure, ErrJoinInvalidSuccessor, ErrLeaveInvalidState,
      ErrLeaveTransferFailure, ErrKVStaleOwnership, ErrKVPendingTransfer, ErrNodeGone,
      ErrNodeNotStarted, ErrNodeNoSuccessor, ErrNodeNil, ErrDuplicateJoinerID, ErrKVSimpleConflict,
      ErrKVPrefixConflict, ErrKVLeaseConflict, ErrKVLeaseExpired, ErrKVLeaseInvalidTTL,
      ErrKVHashFnChanged]"

definition retryable_chord_errs :: "chord_err list" where
  "retryable_chord_errs =
     [ErrJoinInvalidState, ErrJoinTransferFailure, ErrJoinInvalidSuccessor, ErrLeaveInvalidState,
      ErrLeaveTransferFailure, ErrKVStaleOwnership, ErrKVPendingTransfer]"

text \<open>\<^verbatim>\<open>errors.Is\<close> walks the chain of wrapped errors.\<close>

fun ErrorIsRetryable :: "error \<Rightarrow> bool" where
  "ErrorIsRetryable (Chord e) = (e \<in> set retryable_chord_errs)"
| "ErrorIsRetryable DeadlineExceeded = True"
| "ErrorIsRetryable (Opaque _) = False"
| "ErrorIsRetryable (Wrapped _ e) = ErrorIsRetryable e"
| "ErrorIsRetryable (Twirp _ _ (Some e)) = ErrorIsRetryable e"
| "ErrorIsRetryable (Twirp _ _ None) = False"

text \<open>The \<^verbatim>\<open>Error()\<close> method of each kind of error; how the twirp library renders its own
  errors stays a parameter.\<close>

fun err_text :: "(twirp_code \<Rightarrow> string \<Rightarrow> string) \<Rightarrow> error \<Rightarrow> string" where
  "err_text twirp_text (Chord e) = chord_msg e"
| "err_text twirp_text DeadlineExceeded = ''context deadline exceeded''"
| "err_text twirp_text (Opaque s) = s"
| "err_text twirp_text (Wrapped p e) = p @ err_text twirp_text e"
| "err_text twirp_text (Twirp c m _) = twirp_text c m"

definition errorStrMap :: "string \<Rightarrow> chord_err option" where
  "errorStrMap s = find (\<lambda>e. chord_msg e = s) all_chord_errs"

text \<open>The message of a twirp error is compared, and the rendered text of any other error.\<close>

definition ErrorMapper :: "(twirp_code \<Rightarrow> string \<Rightarrow> string) \<Rightarrow> error \<Rightarrow> error" where
  "ErrorMapper twirp_text err =
     (let srcErr = (case err of Twirp _ msg _ \<Rightarrow> msg | _ \<Rightarrow> err_text twirp_text err)
      in case errorStrMap srcErr of Some e \<Rightarrow> Chord e | None \<Rightarrow> err)"

definition WrapError :: "(twirp_code \<Rightarrow> string \<Rightarrow> string) \<Rightarrow> error \<Rightarrow> error" where
  "WrapError twirp_text err =
     Twirp (if ErrorIsRetryable err then FailedPrecondition else Internal)
       (err_text twirp_text err) (Some err)"

text \<open>The metadata \<^verbatim>\<open>cause\<close> and \<^verbatim>\<open>kv\<close> that both wrappers attach is only read by the loggers.\<close>

definition WrapErrorKV :: "(twirp_code \<Rightarrow> string \<Rightarrow> string) \<Rightarrow> bytes \<Rightarrow> error \<Rightarrow> error" where
  "WrapErrorKV twirp_text key err =
     Twirp (if ErrorIsRetryable err then FailedPrecondition else Internal)
       (err_text twirp_text err) (Some err)"

text \<open>
  What the RPC client receives of an error the server returned is decided by the twirp library,
  a parameter. The code relies on three documented facts: a twirp error keeps its code and its
  message, the Go error it wraps does not cross the network, and a Chord error that is not wrapped is
  sent as an internal error with its text.
\<close>

definition twirp_transport :: "(error \<Rightarrow> error) \<Rightarrow> bool" where
  "twirp_transport wire \<longleftrightarrow>
     (\<forall>c m w. wire (Twirp c m w) = Twirp c m None) \<and>
     (\<forall>e. wire (Chord e) = Twirp Internal (chord_msg e) None)"

lemma set_all_chord_errs: "e \<in> set all_chord_errs"
  by (cases e) (simp_all add: all_chord_errs_def)

lemma chord_msg_distinct: "distinct (map chord_msg all_chord_errs)"
  by (simp add: all_chord_errs_def)

lemma chord_msg_inj: "chord_msg a = chord_msg b \<longleftrightarrow> a = b"
  using chord_msg_distinct set_all_chord_errs unfolding distinct_map inj_on_def by blast

lemma find_eq_self: "x \<in> set xs \<Longrightarrow> find (\<lambda>y. y = x) xs = Some x"
  by (induction xs) auto

lemma errorStrMap_chord_msg [simp]: "errorStrMap (chord_msg e) = Some e"
proof -
  have "find (\<lambda>x. chord_msg x = chord_msg e) all_chord_errs = find (\<lambda>x. x = e) all_chord_errs"
    by (simp add: chord_msg_inj)
  also have "\<dots> = Some e"
    by (rule find_eq_self) (rule set_all_chord_errs)
  finally show ?thesis by (simp add: errorStrMap_def)
qed

lemma ErrorMapper_wire:
  "twirp_transport wire \<Longrightarrow> ErrorMapper tt' (wire (WrapError tt (Chord e))) = Chord e"
  by (simp add: ErrorMapper_def WrapError_def twirp_transport_def)

lemma ErrorMapper_wire_KV:
  "twirp_transport wire \<Longrightarrow> ErrorMapper tt' (wire (WrapErrorKV tt k (Chord e))) = Chord e"
  by (simp add: ErrorMapper_def WrapErrorKV_def twirp_transport_def)

lemma ErrorMapper_wire_plain: "twirp_transport wire \<Longrightarrow> ErrorMapper tt' (wire (Chord e)) = Chord e"
  by (simp add: ErrorMapper_def twirp_transport_def)

lemma ErrorMapper_Chord [simp]: "ErrorMapper tt' (Chord e) = Chord e"
  by (simp add: ErrorMapper_def)

subsection \<open>Properties\<close>

text \<open>C21: the sentinel errors survive a remote call. Whatever Chord error a handler returns,
  wrapping it for the wire (\<^verbatim>\<open>WrapError\<close>) and mapping what the client receives
  (\<^verbatim>\<open>ErrorMapper\<close>) gives back the same sentinel, so the caller's retry decision is the
  one the server would take.\<close>

theorem ErrorMapper_roundtrip:
  assumes "twirp_transport wire"
  shows "ErrorMapper twirp_text' (wire (WrapError twirp_text (Chord e))) = Chord e \<and>
    ErrorIsRetryable (ErrorMapper twirp_text' (wire (WrapError twirp_text (Chord e)))) =
      ErrorIsRetryable (Chord e)"
  using ErrorMapper_wire[OF assms] by simp

theorem ErrorMapper_roundtrip_witness:
  "\<exists>wire. twirp_transport wire \<and>
     ErrorMapper (\<lambda>c m. m) (wire (WrapError (\<lambda>c m. m) (Chord ErrKVStaleOwnership))) = Chord ErrKVStaleOwnership"
proof -
  let ?w = "\<lambda>e. case e of Twirp c m _ \<Rightarrow> Twirp c m None
      | _ \<Rightarrow> Twirp Internal (err_text (\<lambda>code msg. msg) e) None"
  have "twirp_transport ?w" by (auto simp: twirp_transport_def split: error.split)
  with ErrorMapper_roundtrip[OF this, of "\<lambda>c m. m" "\<lambda>c m. m" ErrKVStaleOwnership] show ?thesis by blast
qed

text \<open>C31: a deadline is the one retryable error that does not survive: the node that hits it
  may retry, and the client that receives it over the wire, after \<^verbatim>\<open>ErrorMapper\<close>, may not.\<close>

theorem deadline_not_retryable_remotely:
  assumes "twirp_transport wire"
  shows "ErrorIsRetryable DeadlineExceeded \<and>
    \<not> ErrorIsRetryable (ErrorMapper twirp_text' (wire (WrapError twirp_text DeadlineExceeded)))"
proof -
  have "errorStrMap ''context deadline exceeded'' = None"
    by (simp add: errorStrMap_def all_chord_errs_def)
  with assms show ?thesis by (simp add: ErrorMapper_def WrapError_def twirp_transport_def)
qed

theorem deadline_not_retryable_remotely_witness:
  "\<exists>wire. twirp_transport wire \<and>
     \<not> ErrorIsRetryable (ErrorMapper (\<lambda>c m. m) (wire (WrapError (\<lambda>c m. m) DeadlineExceeded)))"
proof -
  let ?w = "\<lambda>e. case e of Twirp c m _ \<Rightarrow> Twirp c m None
      | _ \<Rightarrow> Twirp Internal (err_text (\<lambda>code msg. msg) e) None"
  have "twirp_transport ?w" by (auto simp: twirp_transport_def split: error.split)
  with deadline_not_retryable_remotely[OF this, of "\<lambda>c m. m" "\<lambda>c m. m"] show ?thesis by blast
qed

end
