(* ===== verification/KV_Spec.thy ===== *)
theory KV_Spec
  imports Chord_Ring Chord_Errors
begin

text \<open>
  The key-value interface of a Chord node (\<^verbatim>\<open>spec/chord/kv.go\<close>) and the token arithmetic the
  providers share (\<^verbatim>\<open>kv/internal/lease/token.go\<close>). \<^verbatim>\<open>KVProvider\<close> is a record of
  operations over a store type, so that the code of a node takes its provider as an argument
  the way the Go code holds an interface value; the locale \<open>kv_provider\<close> states what a
  provider promises over an abstract store that maps every key to an entry.
\<close>

record KVTransfer =
  SimpleValue :: "bytes option"
  PrefixChildren :: "bytes list"
  LeaseToken :: u64

datatype KeyComposite_Type = KC_SIMPLE | KC_PREFIX | KC_LEASE

type_synonym KeyComposite = "KeyComposite_Type \<times> bytes"

subsection \<open>Lease tokens\<close>

definition Second :: int where
  "Second = 1000000000"

definition durationGuard :: "int \<Rightarrow> int option" where
  "durationGuard t =
     (let td = t - go_rem t Second in if td < Second then None else Some td)"

definition Next :: "int \<Rightarrow> int \<Rightarrow> u64 \<Rightarrow> error + u64" where
  "Next nanos ttl previous =
     (if nanos < 0 \<or> ttl < Second \<or> ttl > MaxInt64 - nanos then Inl (Chord ErrKVLeaseInvalidTTL)
      else if uint previous \<ge> MaxInt64 then Inl (Chord ErrKVLeaseExpired)
      else Inr (max (word_of_int (nanos + ttl)) (previous + 1)))"

subsection \<open>The interface\<close>

type_synonym ('s, 'a) stepped = "'s \<times> (error + 'a)"

record 'kv KVProvider =
  op_Put :: "'kv \<Rightarrow> bytes \<Rightarrow> bytes option \<Rightarrow> ('kv, unit) stepped"
  op_Get :: "'kv \<Rightarrow> bytes \<Rightarrow> error + bytes option"
  op_Delete :: "'kv \<Rightarrow> bytes \<Rightarrow> ('kv, unit) stepped"
  op_PrefixAppend :: "'kv \<Rightarrow> bytes \<Rightarrow> bytes \<Rightarrow> ('kv, unit) stepped"
  op_PrefixList :: "'kv \<Rightarrow> bytes \<Rightarrow> error + bytes list"
  op_PrefixContains :: "'kv \<Rightarrow> bytes \<Rightarrow> bytes \<Rightarrow> error + bool"
  op_PrefixRemove :: "'kv \<Rightarrow> bytes \<Rightarrow> bytes \<Rightarrow> ('kv, unit) stepped"
  op_Acquire :: "'kv \<Rightarrow> int \<Rightarrow> bytes \<Rightarrow> int \<Rightarrow> ('kv, u64) stepped"
  op_Renew :: "'kv \<Rightarrow> int \<Rightarrow> bytes \<Rightarrow> int \<Rightarrow> u64 \<Rightarrow> ('kv, u64) stepped"
  op_Release :: "'kv \<Rightarrow> bytes \<Rightarrow> u64 \<Rightarrow> ('kv, unit) stepped"
  op_Import :: "'kv \<Rightarrow> bytes list \<Rightarrow> KVTransfer option list \<Rightarrow> ('kv, unit) stepped"
  op_ListKeys :: "'kv \<Rightarrow> bytes \<Rightarrow> error + KeyComposite list"
  op_Export :: "'kv \<Rightarrow> bytes list \<Rightarrow> error + KVTransfer list"
  op_RangeKeys :: "'kv \<Rightarrow> u64 \<Rightarrow> u64 \<Rightarrow> error + bytes list"
  op_RemoveKeys :: "'kv \<Rightarrow> bytes list \<Rightarrow> ('kv, unit) stepped"

subsection \<open>The abstract store\<close>

text \<open>
  A key carries three independent pieces: a plain value, a set of children and a lease token
  (zero when free). A key is live when one of them is present.
\<close>

record entry =
  e_simple :: "bytes option"
  e_children :: "bytes set"
  e_lease :: u64

type_synonym store = "bytes \<Rightarrow> entry"

definition no_entry :: entry where
  "no_entry = \<lparr>e_simple = None, e_children = {}, e_lease = 0\<rparr>"

definition live :: "entry \<Rightarrow> bool" where
  "live e \<longleftrightarrow> e_simple e \<noteq> None \<or> e_children e \<noteq> {} \<or> e_lease e \<noteq> 0"

definition transfer_entry :: "KVTransfer \<Rightarrow> entry" where
  "transfer_entry t =
     \<lparr>e_simple = SimpleValue t, e_children = set (PrefixChildren t), e_lease = LeaseToken t\<rparr>"

text \<open>Tokens are positive \<^verbatim>\<open>UnixNano\<close> times: they fit a signed 64-bit integer.\<close>

definition token_ok :: "u64 \<Rightarrow> bool" where
  "token_ok t \<longleftrightarrow> uint t \<le> MaxInt64"

definition spec_Acquire :: "int \<Rightarrow> int \<Rightarrow> u64 \<Rightarrow> u64 \<times> (error + u64)" where
  "spec_Acquire now ttl cur =
     (case durationGuard ttl of
        None \<Rightarrow> (cur, Inl (Chord ErrKVLeaseInvalidTTL))
      | Some td \<Rightarrow>
          (case Next now td 0 of
             Inl e \<Rightarrow> (cur, Inl e)
           | Inr nx \<Rightarrow> if now < uint cur then (cur, Inl (Chord ErrKVLeaseConflict)) else (nx, Inr nx)))"

definition spec_Renew :: "int \<Rightarrow> int \<Rightarrow> u64 \<Rightarrow> u64 \<Rightarrow> u64 \<times> (error + u64)" where
  "spec_Renew now ttl prev cur =
     (case durationGuard ttl of
        None \<Rightarrow> (cur, Inl (Chord ErrKVLeaseInvalidTTL))
      | Some td \<Rightarrow>
          (case Next now td prev of
             Inl e \<Rightarrow> (cur, Inl e)
           | Inr nx \<Rightarrow>
               if cur = prev \<and> now < uint cur then (nx, Inr nx)
               else (cur, Inl (Chord ErrKVLeaseExpired))))"

definition spec_Release :: "u64 \<Rightarrow> u64 \<Rightarrow> u64 \<times> (error + unit)" where
  "spec_Release token cur = (if cur = token then (0, Inr ()) else (cur, Inl (Chord ErrKVLeaseExpired)))"

definition set_simple :: "store \<Rightarrow> bytes \<Rightarrow> bytes option \<Rightarrow> store" where
  "set_simple st k v = st(k := (st k)\<lparr>e_simple := v\<rparr>)"

definition set_children :: "store \<Rightarrow> bytes \<Rightarrow> bytes set \<Rightarrow> store" where
  "set_children st k c = st(k := (st k)\<lparr>e_children := c\<rparr>)"

definition set_lease :: "store \<Rightarrow> bytes \<Rightarrow> u64 \<Rightarrow> store" where
  "set_lease st k t = st(k := (st k)\<lparr>e_lease := t\<rparr>)"

fun import_entries :: "store \<Rightarrow> bytes list \<Rightarrow> KVTransfer list \<Rightarrow> store" where
  "import_entries st (k # ks) (t # ts) = import_entries (st(k := transfer_entry t)) ks ts"
| "import_entries st _ _ = st"

definition remove_entries :: "store \<Rightarrow> bytes list \<Rightarrow> store" where
  "remove_entries st ks = (\<lambda>k. if k \<in> set ks then no_entry else st k)"

definition entry_composites :: "bytes \<Rightarrow> entry \<Rightarrow> KeyComposite set" where
  "entry_composites k e =
     (if e_simple e \<noteq> None then {(KC_SIMPLE, k)} else {}) \<union>
     (if e_children e \<noteq> {} then {(KC_PREFIX, k)} else {}) \<union>
     (if e_lease e \<noteq> 0 then {(KC_LEASE, k)} else {})"

text \<open>
  A client of a store, as a sequence of interface calls and what it observes of each. The
  order in which a provider lists children or keys is not part of its contract.
\<close>

datatype kv_cmd =
    CPut bytes "bytes option" | CGet bytes | CDelete bytes
  | CPrefixAppend bytes bytes | CPrefixList bytes | CPrefixContains bytes bytes | CPrefixRemove bytes bytes
  | CAcquire int bytes int | CRenew int bytes int u64 | CRelease bytes u64
  | CListKeys bytes | CExport "bytes list" | CRangeKeys u64 u64 | CRemoveKeys "bytes list"
  | CImport "bytes list" "KVTransfer list"

datatype kv_obs =
    ODone | OError error | OValue "bytes option" | OKeys "bytes set" | OBool bool | OToken u64
  | OComposites "KeyComposite set" | OEntries "entry list"

definition obs :: "('a \<Rightarrow> kv_obs) \<Rightarrow> error + 'a \<Rightarrow> kv_obs" where
  "obs f r = (case r of Inl e \<Rightarrow> OError e | Inr v \<Rightarrow> f v)"

lemma obs_simps [simp]: "obs f (Inl e) = OError e" "obs f (Inr v) = f v"
  by (simp_all add: obs_def)

fun exec_cmd :: "'kv KVProvider \<Rightarrow> 'kv \<Rightarrow> kv_cmd \<Rightarrow> 'kv \<times> kv_obs" where
  "exec_cmd kv s (CPut k v) = (let (s', r) = op_Put kv s k v in (s', obs (\<lambda>_. ODone) r))"
| "exec_cmd kv s (CGet k) = (s, obs OValue (op_Get kv s k))"
| "exec_cmd kv s (CDelete k) = (let (s', r) = op_Delete kv s k in (s', obs (\<lambda>_. ODone) r))"
| "exec_cmd kv s (CPrefixAppend k c) =
     (let (s', r) = op_PrefixAppend kv s k c in (s', obs (\<lambda>_. ODone) r))"
| "exec_cmd kv s (CPrefixList k) = (s, obs (OKeys \<circ> set) (op_PrefixList kv s k))"
| "exec_cmd kv s (CPrefixContains k c) = (s, obs OBool (op_PrefixContains kv s k c))"
| "exec_cmd kv s (CPrefixRemove k c) =
     (let (s', r) = op_PrefixRemove kv s k c in (s', obs (\<lambda>_. ODone) r))"
| "exec_cmd kv s (CAcquire now k ttl) =
     (let (s', r) = op_Acquire kv s now k ttl in (s', obs OToken r))"
| "exec_cmd kv s (CRenew now k ttl prev) =
     (let (s', r) = op_Renew kv s now k ttl prev in (s', obs OToken r))"
| "exec_cmd kv s (CRelease k token) =
     (let (s', r) = op_Release kv s k token in (s', obs (\<lambda>_. ODone) r))"
| "exec_cmd kv s (CListKeys p) = (s, obs (OComposites \<circ> set) (op_ListKeys kv s p))"
| "exec_cmd kv s (CExport ks) = (s, obs (OEntries \<circ> map transfer_entry) (op_Export kv s ks))"
| "exec_cmd kv s (CRangeKeys low high) = (s, obs (OKeys \<circ> set) (op_RangeKeys kv s low high))"
| "exec_cmd kv s (CRemoveKeys ks) =
     (let (s', r) = op_RemoveKeys kv s ks in (s', obs (\<lambda>_. ODone) r))"
| "exec_cmd kv s (CImport ks ts) =
     (let (s', r) = op_Import kv s ks (map Some ts) in (s', obs (\<lambda>_. ODone) r))"

fun spec_cmd :: "(bytes \<Rightarrow> u64) \<Rightarrow> store \<Rightarrow> kv_cmd \<Rightarrow> store \<times> kv_obs" where
  "spec_cmd hash st (CPut k v) = (set_simple st k v, ODone)"
| "spec_cmd hash st (CGet k) = (st, OValue (e_simple (st k)))"
| "spec_cmd hash st (CDelete k) = (set_simple st k None, ODone)"
| "spec_cmd hash st (CPrefixAppend k c) =
     (set_children st k (insert c (e_children (st k))),
      if c \<in> e_children (st k) then OError (Chord ErrKVPrefixConflict) else ODone)"
| "spec_cmd hash st (CPrefixList k) = (st, OKeys (e_children (st k)))"
| "spec_cmd hash st (CPrefixContains k c) = (st, OBool (c \<in> e_children (st k)))"
| "spec_cmd hash st (CPrefixRemove k c) = (set_children st k (e_children (st k) - {c}), ODone)"
| "spec_cmd hash st (CAcquire now k ttl) =
     (let (t, r) = spec_Acquire now ttl (e_lease (st k)) in (set_lease st k t, obs OToken r))"
| "spec_cmd hash st (CRenew now k ttl prev) =
     (let (t, r) = spec_Renew now ttl prev (e_lease (st k)) in (set_lease st k t, obs OToken r))"
| "spec_cmd hash st (CRelease k token) =
     (let (t, r) = spec_Release token (e_lease (st k)) in (set_lease st k t, obs (\<lambda>_. ODone) r))"
| "spec_cmd hash st (CListKeys p) =
     (st, OComposites (\<Union>k \<in> {k. HasPrefix k p}. entry_composites k (st k)))"
| "spec_cmd hash st (CExport ks) = (st, OEntries (map st ks))"
| "spec_cmd hash st (CRangeKeys low high) =
     (st, OKeys {k. live (st k) \<and> Between low (hash k) high True})"
| "spec_cmd hash st (CRemoveKeys ks) = (remove_entries st ks, ODone)"
| "spec_cmd hash st (CImport ks ts) = (import_entries st ks ts, ODone)"

fun cmd_ok :: "store \<Rightarrow> kv_cmd \<Rightarrow> bool" where
  "cmd_ok st (CPut k v) \<longleftrightarrow> v \<noteq> None"
| "cmd_ok st (CRelease k token) \<longleftrightarrow> token \<noteq> 0"
| "cmd_ok st (CRangeKeys low high) \<longleftrightarrow> on_ring low \<and> on_ring high"
| "cmd_ok st (CImport ks ts) \<longleftrightarrow> length ks = length ts \<and> distinct ks \<and>
     list_all (\<lambda>t. live (transfer_entry t) \<and> token_ok (LeaseToken t)) ts \<and>
     list_all (\<lambda>k. st k = no_entry) ks"
| "cmd_ok st _ \<longleftrightarrow> True"

fun run_cmds :: "'kv KVProvider \<Rightarrow> 'kv \<Rightarrow> kv_cmd list \<Rightarrow> 'kv \<times> kv_obs list" where
  "run_cmds kv s [] = (s, [])"
| "run_cmds kv s (c # cs) =
     (let (s', ob) = exec_cmd kv s c; (s'', os) = run_cmds kv s' cs in (s'', ob # os))"

fun spec_cmds :: "(bytes \<Rightarrow> u64) \<Rightarrow> store \<Rightarrow> kv_cmd list \<Rightarrow> store \<times> kv_obs list" where
  "spec_cmds hash st [] = (st, [])"
| "spec_cmds hash st (c # cs) =
     (let (st', ob) = spec_cmd hash st c; (st'', os) = spec_cmds hash st' cs in (st'', ob # os))"

fun cmds_ok :: "(bytes \<Rightarrow> u64) \<Rightarrow> store \<Rightarrow> kv_cmd list \<Rightarrow> bool" where
  "cmds_ok hash st [] \<longleftrightarrow> True"
| "cmds_ok hash st (c # cs) \<longleftrightarrow> cmd_ok st c \<and> cmds_ok hash (fst (spec_cmd hash st c)) cs"

subsection \<open>Facts on tokens\<close>

lemma durationGuard_SomeD: "durationGuard t = Some td \<Longrightarrow> Second \<le> td \<and> td \<le> t"
  by (cases "0 \<le> t")
    (auto simp: durationGuard_def Second_def Let_def go_rem_nonneg go_rem_def sgn_if split: if_splits)

lemma uint_small: "0 \<le> i \<Longrightarrow> i \<le> MaxInt64 \<Longrightarrow> uint (word_of_int i :: u64) = i"
  by (simp add: uint_word_of_int MaxInt64_def)

lemma uint_Suc_small: "uint (p :: u64) < MaxInt64 \<Longrightarrow> uint (p + 1) = uint p + 1"
  by (simp add: uint_word_ariths MaxInt64_def)

lemma NextD:
  assumes "Next nanos ttl prev = Inr t"
  shows "token_ok t" "nanos < uint t" "uint prev < uint t" "nanos + ttl \<le> uint t" "0 \<le> nanos"
proof -
  have c: "0 \<le> nanos" "Second \<le> ttl" "nanos + ttl \<le> MaxInt64" "uint prev < MaxInt64"
    and t: "t = max (word_of_int (nanos + ttl)) (prev + 1)"
    using assms by (auto simp: Next_def split: if_splits)
  have "uint (word_of_int (nanos + ttl) :: u64) = nanos + ttl"
    using c by (intro uint_small) (auto simp: Second_def)
  then have "uint t = max (nanos + ttl) (uint prev + 1)"
    using uint_Suc_small[OF c(4)] unfolding t by (simp add: max_def word_le_def)
  with c show "token_ok t" "nanos < uint t" "uint prev < uint t" "nanos + ttl \<le> uint t" "0 \<le> nanos"
    by (auto simp: token_ok_def Second_def)
qed

lemma token_ok_0 [simp]: "token_ok 0"
  by (simp add: token_ok_def MaxInt64_def)

lemma NextD_nonzero: "Next nanos ttl prev = Inr t \<Longrightarrow> t \<noteq> 0"
  using NextD(2,5)[of nanos ttl prev t] by auto

lemma token_ok_Acquire: "token_ok cur \<Longrightarrow> token_ok (fst (spec_Acquire now ttl cur))"
  by (auto simp: spec_Acquire_def NextD(1) split: option.splits sum.splits)

lemma token_ok_Renew: "token_ok cur \<Longrightarrow> token_ok (fst (spec_Renew now ttl prev cur))"
  by (auto simp: spec_Renew_def NextD(1) split: option.splits sum.splits)

lemma token_ok_Release: "token_ok cur \<Longrightarrow> token_ok (fst (spec_Release token cur))"
  by (simp add: spec_Release_def)

lemma entry_eq_iff: "(e :: entry) = f \<longleftrightarrow>
    e_simple e = e_simple f \<and> e_children e = e_children f \<and> e_lease e = e_lease f"
  by (cases e, cases f) auto

lemma live_iff: "live e \<longleftrightarrow> e \<noteq> no_entry"
  by (auto simp: live_def no_entry_def entry_eq_iff)

lemma no_entry_simps [simp]:
  "e_simple no_entry = None" "e_children no_entry = {}" "e_lease no_entry = 0" "\<not> live no_entry"
  by (simp_all add: no_entry_def live_def)

lemma set_lease_free: "e_lease (st k) = 0 \<Longrightarrow> set_lease st k 0 = st"
  by (auto simp: set_lease_def entry_eq_iff fun_eq_iff)

lemma import_entries_apply:
  "length ks = length ts \<Longrightarrow> distinct ks \<Longrightarrow>
   import_entries st ks ts k = (case map_of (zip ks ts) k of None \<Rightarrow> st k | Some t \<Rightarrow> transfer_entry t)"
proof (induction st ks ts rule: import_entries.induct)
  case (1 st k' ks t ts)
  then have "map_of (zip ks ts) k' = None" by (simp add: map_of_zip_is_None)
  moreover have "import_entries (st(k' := transfer_entry t)) ks ts k =
      (case map_of (zip ks ts) k of None \<Rightarrow> (st(k' := transfer_entry t)) k | Some u \<Rightarrow> transfer_entry u)"
    by (rule "1.IH") (use "1.prems" in simp_all)
  ultimately show ?case by (cases "k = k'"; cases "map_of (zip ks ts) k") simp_all
qed auto

text \<open>
  What a provider may do on a call: what the abstract store does, and two liberties in which the
  providers differ. A put of nil may store the empty value, and a release with token zero, which is
  never issued, may fail although the lease is free.
\<close>

definition kv_allows :: "(bytes \<Rightarrow> u64) \<Rightarrow> store \<Rightarrow> kv_cmd \<Rightarrow> store \<Rightarrow> kv_obs \<Rightarrow> bool" where
  "kv_allows hash st c st' ob \<longleftrightarrow> spec_cmd hash st c = (st', ob) \<or>
     (\<exists>k. c = CPut k None \<and> st' = set_simple st k (Some []) \<and> ob = ODone) \<or>
     (\<exists>k. c = CRelease k 0 \<and> st' = st \<and> ob = OError (Chord ErrKVLeaseExpired))"

fun liberal :: "kv_cmd \<Rightarrow> bool" where
  "liberal (CPut k v) \<longleftrightarrow> v = None"
| "liberal (CRelease k token) \<longleftrightarrow> token = 0"
| "liberal c \<longleftrightarrow> False"

lemma kv_allows_exact: "\<not> liberal c \<Longrightarrow> kv_allows hash st c st' ob \<longleftrightarrow> spec_cmd hash st c = (st', ob)"
  by (auto simp: kv_allows_def)

text \<open>
  The contract. \<^verbatim>\<open>Import\<close> is only constrained as the membership protocol uses it: the imported
  keys are live in the transfer and not yet present at the receiver.
\<close>

locale kv_provider =
  fixes kv :: "'kv KVProvider"
    and hash :: "bytes \<Rightarrow> u64"
    and abs :: "'kv \<Rightarrow> store"
    and inv :: "'kv \<Rightarrow> bool"
  assumes Put_ok: "inv s \<Longrightarrow> op_Put kv s k (Some v) = (s', r) \<Longrightarrow>
      inv s' \<and> r = Inr () \<and> abs s' = set_simple (abs s) k (Some v)"
    and Put_nil_ok: "inv s \<Longrightarrow> op_Put kv s k None = (s', r) \<Longrightarrow> inv s' \<and> r = Inr () \<and>
      (abs s' = set_simple (abs s) k None \<or> abs s' = set_simple (abs s) k (Some []))"
    and Get_ok: "inv s \<Longrightarrow> op_Get kv s k = Inr (e_simple (abs s k))"
    and Delete_ok: "inv s \<Longrightarrow> op_Delete kv s k = (s', r) \<Longrightarrow>
      inv s' \<and> r = Inr () \<and> abs s' = set_simple (abs s) k None"
    and PrefixAppend_ok: "inv s \<Longrightarrow> op_PrefixAppend kv s k c = (s', r) \<Longrightarrow>
      inv s' \<and> abs s' = set_children (abs s) k (insert c (e_children (abs s k))) \<and>
      r = (if c \<in> e_children (abs s k) then Inl (Chord ErrKVPrefixConflict) else Inr ())"
    and PrefixList_ok: "inv s \<Longrightarrow>
      \<exists>cs. op_PrefixList kv s k = Inr cs \<and> distinct cs \<and> set cs = e_children (abs s k)"
    and PrefixContains_ok: "inv s \<Longrightarrow>
      op_PrefixContains kv s k c = Inr (c \<in> e_children (abs s k))"
    and PrefixRemove_ok: "inv s \<Longrightarrow> op_PrefixRemove kv s k c = (s', r) \<Longrightarrow>
      inv s' \<and> r = Inr () \<and> abs s' = set_children (abs s) k (e_children (abs s k) - {c})"
    and Acquire_ok: "inv s \<Longrightarrow> op_Acquire kv s now k ttl = (s', q) \<Longrightarrow>
      inv s' \<and> abs s' = set_lease (abs s) k (fst (spec_Acquire now ttl (e_lease (abs s k)))) \<and>
      q = snd (spec_Acquire now ttl (e_lease (abs s k)))"
    and Renew_ok: "inv s \<Longrightarrow> op_Renew kv s now k ttl prev = (s', q) \<Longrightarrow>
      inv s' \<and> abs s' = set_lease (abs s) k (fst (spec_Renew now ttl prev (e_lease (abs s k)))) \<and>
      q = snd (spec_Renew now ttl prev (e_lease (abs s k)))"
    and Release_ok: "inv s \<Longrightarrow> token \<noteq> 0 \<Longrightarrow> op_Release kv s k token = (s', r) \<Longrightarrow>
      inv s' \<and> abs s' = set_lease (abs s) k (fst (spec_Release token (e_lease (abs s k)))) \<and>
      r = snd (spec_Release token (e_lease (abs s k)))"
    and Release_zero_ok: "inv s \<Longrightarrow> op_Release kv s k 0 = (s', r) \<Longrightarrow> inv s' \<and> abs s' = abs s \<and>
      (r = Inl (Chord ErrKVLeaseExpired) \<or> e_lease (abs s k) = 0 \<and> r = Inr ())"
    and Import_ok: "inv s \<Longrightarrow> length ks = length ts \<Longrightarrow> distinct ks \<Longrightarrow>
      (\<And>t. t \<in> set ts \<Longrightarrow> live (transfer_entry t) \<and> token_ok (LeaseToken t)) \<Longrightarrow>
      (\<And>k. k \<in> set ks \<Longrightarrow> abs s k = no_entry) \<Longrightarrow>
      op_Import kv s ks (map Some ts) = (s', r) \<Longrightarrow>
      inv s' \<and> r = Inr () \<and> abs s' = import_entries (abs s) ks ts"
    and ListKeys_ok: "inv s \<Longrightarrow>
      \<exists>cs. op_ListKeys kv s p = Inr cs \<and> distinct cs \<and>
        set cs = (\<Union>k \<in> {k. HasPrefix k p}. entry_composites k (abs s k))"
    and Export_ok: "inv s \<Longrightarrow>
      \<exists>ts. op_Export kv s ks = Inr ts \<and> map transfer_entry ts = map (abs s) ks"
    and RangeKeys_ok: "inv s \<Longrightarrow> on_ring low \<Longrightarrow> on_ring high \<Longrightarrow>
      \<exists>ks. op_RangeKeys kv s low high = Inr ks \<and> distinct ks \<and>
        set ks = {k. live (abs s k) \<and> Between low (hash k) high True}"
    and RemoveKeys_ok: "inv s \<Longrightarrow> op_RemoveKeys kv s ks = (s', r) \<Longrightarrow>
      inv s' \<and> r = Inr () \<and> abs s' = remove_entries (abs s) ks"
    and tokens_ok: "inv s \<Longrightarrow> token_ok (e_lease (abs s k))"
begin

lemma exec_cmd_refines:
  assumes "inv s" "cmd_ok (abs s) c"
  shows "inv (fst (exec_cmd kv s c)) \<and>
    spec_cmd hash (abs s) c = (abs (fst (exec_cmd kv s c)), snd (exec_cmd kv s c))"
proof (cases c)
  case (CPut k v)
  with assms obtain u where "v = Some u" by auto
  with CPut assms Put_ok[of s k u] show ?thesis by (cases "op_Put kv s k v") auto
next
  case (CGet k)
  with assms Get_ok[of s k] show ?thesis by simp
next
  case (CDelete k)
  with assms Delete_ok[of s k] show ?thesis by (cases "op_Delete kv s k") auto
next
  case (CPrefixAppend k c)
  with assms PrefixAppend_ok[of s k c] show ?thesis by (cases "op_PrefixAppend kv s k c") auto
next
  case (CPrefixList k)
  with assms PrefixList_ok[of s k] show ?thesis by auto
next
  case (CPrefixContains k c)
  with assms PrefixContains_ok[of s k c] show ?thesis by simp
next
  case (CPrefixRemove k c)
  with assms PrefixRemove_ok[of s k c] show ?thesis by (cases "op_PrefixRemove kv s k c") auto
next
  case (CAcquire now k ttl)
  with assms Acquire_ok[of s now k ttl] show ?thesis
    by (cases "op_Acquire kv s now k ttl") (auto simp: case_prod_beta)
next
  case (CRenew now k ttl prev)
  with assms Renew_ok[of s now k ttl prev] show ?thesis
    by (cases "op_Renew kv s now k ttl prev") (auto simp: case_prod_beta)
next
  case (CRelease k token)
  with assms Release_ok[of s token k] show ?thesis
    by (cases "op_Release kv s k token") (auto simp: case_prod_beta)
next
  case (CListKeys p)
  with assms ListKeys_ok[of s p] show ?thesis by auto
next
  case (CExport ks)
  with assms Export_ok[of s ks] show ?thesis by auto
next
  case (CRangeKeys low high)
  with assms RangeKeys_ok[of s low high] show ?thesis by auto
next
  case (CRemoveKeys ks)
  with assms RemoveKeys_ok[of s ks] show ?thesis by (cases "op_RemoveKeys kv s ks") auto
next
  case (CImport ks ts)
  with assms Import_ok[of s ks ts] show ?thesis
    by (cases "op_Import kv s ks (map Some ts)") (auto simp: list_all_iff)
qed

lemma exec_cmd_allowed:
  assumes "inv s" "cmd_ok (abs s) c \<or> liberal c"
  shows "inv (fst (exec_cmd kv s c)) \<and>
    kv_allows hash (abs s) c (abs (fst (exec_cmd kv s c))) (snd (exec_cmd kv s c))"
proof (cases "liberal c")
  case True
  from True consider k where "c = CPut k None" | k where "c = CRelease k 0"
    by (cases c) auto
  then show ?thesis
  proof cases
    case (1 k)
    then show ?thesis using assms(1) Put_nil_ok[of s k]
      by (cases "op_Put kv s k None") (auto simp: kv_allows_def)
  next
    case (2 k)
    then show ?thesis using assms(1) Release_zero_ok[of s k]
      by (cases "op_Release kv s k 0") (auto simp: kv_allows_def spec_Release_def set_lease_free)
  qed
next
  case False
  then have "cmd_ok (abs s) c" using assms(2) by blast
  then show ?thesis using exec_cmd_refines[OF assms(1)] by (simp add: kv_allows_exact[OF False])
qed

lemma run_cmds_refines:
  "inv s \<Longrightarrow> cmds_ok hash (abs s) cs \<Longrightarrow>
   inv (fst (run_cmds kv s cs)) \<and>
   spec_cmds hash (abs s) cs = (abs (fst (run_cmds kv s cs)), snd (run_cmds kv s cs))"
proof (induction cs arbitrary: s)
  case (Cons c cs)
  note step = exec_cmd_refines[OF Cons.prems(1), of c]
  with Cons.prems have "inv (fst (exec_cmd kv s c))"
    "cmds_ok hash (abs (fst (exec_cmd kv s c))) cs"
    by auto
  from Cons.IH[OF this] step Cons.prems show ?case by (auto simp: case_prod_beta)
qed simp

end

text \<open>Two providers that start from the same contents cannot be told apart by any client.\<close>

locale kv_provider_pair =
  a: kv_provider kva hash absa inva + b: kv_provider kvb hash absb invb
  for kva :: "'a KVProvider" and kvb :: "'b KVProvider" and hash absa inva absb invb
begin

lemma same_observations:
  assumes "inva s" "invb t" "absa s = absb t" "cmds_ok hash (absa s) cs"
  shows "snd (run_cmds kva s cs) = snd (run_cmds kvb t cs)"
  using a.run_cmds_refines[OF assms(1,4)] b.run_cmds_refines[of t cs] assms by simp

end

end
