(* ===== verification/Chord_Node.thy ===== *)
theory Chord_Node
  imports Chord_Node_State KV_Spec
begin

text \<open>
  A Chord node, its lookups and the calls between nodes (\<^verbatim>\<open>chord/local.go\<close>,
  \<^verbatim>\<open>chord/local_chord.go\<close>, \<^verbatim>\<open>chord/remote.go\<close>, \<^verbatim>\<open>chord/server_rpc.go\<close>). A reference to a node
  (\<^verbatim>\<open>chord.VNode\<close>) is its identifier; the network maps identifiers to the nodes that answer. An
  operation of a node is a function on the network, because it calls other nodes. A node calls
  itself directly and another node through \<^verbatim>\<open>RemoteNode\<close>, whose request the other node's
  \<^verbatim>\<open>Server\<close> answers. Calls are atomic: the locks of the code, which keep other calls out, do not
  appear.
\<close>

text \<open>
  What lies outside the sources: the hash function, what the RPC library does to an error, the
  error of a call that gets no answer, and how many nodes a lookup can visit before the deadline
  every remote call carries.
\<close>

record chord_env =
  env_xxh3 :: "bytes \<Rightarrow> u64"
  env_wire :: "error \<Rightarrow> error"
  env_twirp_text :: "twirp_code \<Rightarrow> string \<Rightarrow> string"
  env_unreachable :: error
  env_hops :: nat

record 'kv LocalNode =
  ln_ID :: u64
  ln_predecessor :: "u64 option"
  ln_surrogate :: "u64 option"
  ln_successors :: "u64 list"
  ln_succListHash :: u64
  ln_kv :: 'kv
  ln_kvStaleCount :: u64
  ln_lastStabilized :: int
  ln_state :: nodeState
  ln_fingers :: "nat \<Rightarrow> u64 option"

record 'kv chord_net =
  net_nodes :: "u64 \<Rightarrow> 'kv LocalNode option"
  net_now :: int

definition set_node :: "'kv chord_net \<Rightarrow> u64 \<Rightarrow> 'kv LocalNode \<Rightarrow> 'kv chord_net" where
  "set_node net n ln = net\<lparr>net_nodes := (net_nodes net)(n \<mapsto> ln)\<rparr>"

definition NewLocalNode :: "u64 \<Rightarrow> 'kv \<Rightarrow> 'kv LocalNode" where
  "NewLocalNode ident kv =
     \<lparr>ln_ID = ident, ln_predecessor = None, ln_surrogate = None, ln_successors = [],
      ln_succListHash = ident, ln_kv = kv, ln_kvStaleCount = 0, ln_lastStabilized = 0,
      ln_state = newNodeState Inactive, ln_fingers = (\<lambda>_. None)\<rparr>"

definition checkNodeState :: "'kv LocalNode \<Rightarrow> bool \<Rightarrow> error option" where
  "checkNodeState ln leavingIsError =
     (case Get (ln_state ln) of
        Inactive \<Rightarrow> Some (Chord ErrNodeNotStarted)
      | Leaving \<Rightarrow> if \<not> leavingIsError then None else Some (Chord ErrNodeGone)
      | Left \<Rightarrow> Some (Chord ErrNodeGone)
      | _ \<Rightarrow> None)"

definition guarded :: "'kv LocalNode \<Rightarrow> bool \<Rightarrow> 'a \<Rightarrow> error + 'a" where
  "guarded ln leavingIsError v =
     (case checkNodeState ln leavingIsError of Some err \<Rightarrow> Inl err | None \<Rightarrow> Inr v)"

subsection \<open>Remote calls\<close>

text \<open>A handler wraps its error, the client maps what arrives, and a node that is not there gives
  the transport's error.\<close>

definition wrapped :: "chord_env \<Rightarrow> error + 'a \<Rightarrow> error + 'a" where
  "wrapped env r = (case r of Inl e \<Rightarrow> Inl (WrapError (env_twirp_text env) e) | Inr v \<Rightarrow> Inr v)"

definition mapped :: "chord_env \<Rightarrow> error + 'a \<Rightarrow> error + 'a" where
  "mapped env r = (case r of Inl e \<Rightarrow> Inl (ErrorMapper (env_twirp_text env) (env_wire env e)) | Inr v \<Rightarrow> Inr v)"

definition no_answer :: "chord_env \<Rightarrow> error" where
  "no_answer env = ErrorMapper (env_twirp_text env) (env_unreachable env)"

definition ask :: "chord_env \<Rightarrow> 'kv chord_net \<Rightarrow> u64 \<Rightarrow> ('kv LocalNode \<Rightarrow> error + 'a) \<Rightarrow> error + 'a" where
  "ask env net n handler =
     (case net_nodes net n of None \<Rightarrow> Inl (no_answer env) | Some ln \<Rightarrow> mapped env (handler ln))"

definition tell :: "chord_env \<Rightarrow> 'kv chord_net \<Rightarrow> u64 \<Rightarrow>
    ('kv chord_net \<Rightarrow> 'kv chord_net \<times> (error + 'a)) \<Rightarrow> 'kv chord_net \<times> (error + 'a)" where
  "tell env net n handler =
     (case net_nodes net n of
        None \<Rightarrow> (net, Inl (no_answer env))
      | Some ln \<Rightarrow> let (net', r) = handler net in (net', mapped env r))"

definition local_call :: "chord_env \<Rightarrow> 'kv chord_net \<Rightarrow> u64 \<Rightarrow> ('kv LocalNode \<Rightarrow> error + 'a) \<Rightarrow> error + 'a" where
  "local_call env net n method =
     (case net_nodes net n of None \<Rightarrow> Inl (no_answer env) | Some ln \<Rightarrow> method ln)"

subsection \<open>Reading a node\<close>

definition LocalNode_Ping :: "'kv LocalNode \<Rightarrow> error + unit" where
  "LocalNode_Ping ln = guarded ln True ()"

definition Server_Ping :: "chord_env \<Rightarrow> 'kv LocalNode \<Rightarrow> error + unit" where
  "Server_Ping env ln = wrapped env (LocalNode_Ping ln)"

definition RemoteNode_Ping :: "chord_env \<Rightarrow> 'kv chord_net \<Rightarrow> u64 \<Rightarrow> error + unit" where
  "RemoteNode_Ping env net n = ask env net n (Server_Ping env)"

definition Ping :: "chord_env \<Rightarrow> 'kv chord_net \<Rightarrow> u64 \<Rightarrow> u64 \<Rightarrow> error + unit" where
  "Ping env net caller n =
     (if n = caller then local_call env net n LocalNode_Ping else RemoteNode_Ping env net n)"

definition getSuccessor :: "'kv LocalNode \<Rightarrow> u64 option" where
  "getSuccessor ln = (case ln_successors ln of [] \<Rightarrow> None | s # _ \<Rightarrow> Some s)"

definition LocalNode_GetSuccessors :: "'kv LocalNode \<Rightarrow> error + u64 list" where
  "LocalNode_GetSuccessors ln = guarded ln False (ln_successors ln)"

definition Server_GetSuccessors :: "chord_env \<Rightarrow> 'kv LocalNode \<Rightarrow> error + u64 list" where
  "Server_GetSuccessors env ln = wrapped env (LocalNode_GetSuccessors ln)"

definition RemoteNode_GetSuccessors :: "chord_env \<Rightarrow> 'kv chord_net \<Rightarrow> u64 \<Rightarrow> error + u64 list" where
  "RemoteNode_GetSuccessors env net n = ask env net n (Server_GetSuccessors env)"

definition GetSuccessors :: "chord_env \<Rightarrow> 'kv chord_net \<Rightarrow> u64 \<Rightarrow> u64 \<Rightarrow> error + u64 list" where
  "GetSuccessors env net caller n =
     (if n = caller then local_call env net n LocalNode_GetSuccessors
      else RemoteNode_GetSuccessors env net n)"

definition LocalNode_GetPredecessor :: "'kv LocalNode \<Rightarrow> error + u64 option" where
  "LocalNode_GetPredecessor ln = guarded ln False (ln_predecessor ln)"

text \<open>The server of \<^verbatim>\<open>GetPredecessor\<close> returns the error unwrapped.\<close>

definition Server_GetPredecessor :: "'kv LocalNode \<Rightarrow> error + u64 option" where
  "Server_GetPredecessor ln = LocalNode_GetPredecessor ln"

definition RemoteNode_GetPredecessor :: "chord_env \<Rightarrow> 'kv chord_net \<Rightarrow> u64 \<Rightarrow> error + u64 option" where
  "RemoteNode_GetPredecessor env net n = ask env net n Server_GetPredecessor"

definition GetPredecessor :: "chord_env \<Rightarrow> 'kv chord_net \<Rightarrow> u64 \<Rightarrow> u64 \<Rightarrow> error + u64 option" where
  "GetPredecessor env net caller n =
     (if n = caller then local_call env net n LocalNode_GetPredecessor
      else RemoteNode_GetPredecessor env net n)"

subsection \<open>Notification\<close>

definition LocalNode_Notify :: "chord_env \<Rightarrow> u64 \<Rightarrow> u64 \<Rightarrow> 'kv chord_net \<Rightarrow> 'kv chord_net \<times> (error + unit)" where
  "LocalNode_Notify env n predecessor net =
     (case net_nodes net n of
        None \<Rightarrow> (net, Inl (no_answer env))
      | Some ln \<Rightarrow>
          (case checkNodeState ln False of
             Some err \<Rightarrow> (net, Inl err)
           | None \<Rightarrow>
               let candidate =
                     (case ln_predecessor ln of
                        None \<Rightarrow> Some predecessor
                      | Some p \<Rightarrow>
                          if p = predecessor then None
                          else if is_ok (Ping env net n p)
                          then (if Between p predecessor (ln_ID ln) False then Some predecessor else None)
                          else Some predecessor)
               in (case candidate of
                     None \<Rightarrow> (net, Inr ())
                   | Some c \<Rightarrow>
                       (set_node net n
                          (ln\<lparr>ln_surrogate := (if c = ln_ID ln then None else Some c),
                              ln_predecessor := Some c\<rparr>), Inr ()))))"

definition Server_Notify :: "chord_env \<Rightarrow> u64 \<Rightarrow> u64 \<Rightarrow> 'kv chord_net \<Rightarrow> 'kv chord_net \<times> (error + unit)" where
  "Server_Notify env n predecessor net =
     (let (net', r) = LocalNode_Notify env n predecessor net in (net', wrapped env r))"

definition RemoteNode_Notify :: "chord_env \<Rightarrow> 'kv chord_net \<Rightarrow> u64 \<Rightarrow> u64 \<Rightarrow> 'kv chord_net \<times> (error + unit)" where
  "RemoteNode_Notify env net n predecessor = tell env net n (Server_Notify env n predecessor)"

definition Notify :: "chord_env \<Rightarrow> 'kv chord_net \<Rightarrow> u64 \<Rightarrow> u64 \<Rightarrow> u64 \<Rightarrow> 'kv chord_net \<times> (error + unit)" where
  "Notify env net caller n predecessor =
     (if n = caller then LocalNode_Notify env n predecessor net
      else RemoteNode_Notify env net n predecessor)"

subsection \<open>Lookup\<close>

text \<open>The fingers are viewed from the farthest (\<^verbatim>\<open>MaxFingerEntries\<close>) to the nearest.\<close>

definition closestPrecedingNode :: "'kv LocalNode \<Rightarrow> u64 \<Rightarrow> u64" where
  "closestPrecedingNode ln key =
     (case find (\<lambda>k. case ln_fingers ln k of
                       None \<Rightarrow> False
                     | Some f \<Rightarrow> Between (ln_ID ln) f key False) (rev [1..<Suc MaxFingerEntries]) of
        Some k \<Rightarrow> (case ln_fingers ln k of Some f \<Rightarrow> f | None \<Rightarrow> ln_ID ln)
      | None \<Rightarrow> ln_ID ln)"

definition lookup_reply :: "chord_env \<Rightarrow> 'kv chord_net \<Rightarrow> u64 \<Rightarrow> u64 \<Rightarrow> error + u64 \<Rightarrow> error + u64" where
  "lookup_reply env net caller n r =
     (if n = caller then r else ask env net n (\<lambda>_. wrapped env r))"

fun FindSuccessor :: "chord_env \<Rightarrow> 'kv chord_net \<Rightarrow> nat \<Rightarrow> u64 \<Rightarrow> u64 \<Rightarrow> error + u64" where
  "FindSuccessor env net 0 n key = Inl (no_answer env)"
| "FindSuccessor env net (Suc hops) n key =
     (case net_nodes net n of
        None \<Rightarrow> Inl (no_answer env)
      | Some ln \<Rightarrow>
          (case checkNodeState ln False of
             Some err \<Rightarrow> Inl err
           | None \<Rightarrow>
               if (case ln_predecessor ln of None \<Rightarrow> False | Some p \<Rightarrow> Between p key (ln_ID ln) True)
               then Inr n
               else
                 (case getSuccessor ln of
                    None \<Rightarrow> Inl (Chord ErrNodeNoSuccessor)
                  | Some succ \<Rightarrow>
                      if Between (ln_ID ln) key succ True then Inr succ
                      else
                        let closest = closestPrecedingNode ln key;
                            closest = (if closest = n then succ else closest)
                        in lookup_reply env net n closest (FindSuccessor env net hops closest key))))"

definition Server_FindSuccessor :: "chord_env \<Rightarrow> 'kv chord_net \<Rightarrow> nat \<Rightarrow> u64 \<Rightarrow> u64 \<Rightarrow> error + u64" where
  "Server_FindSuccessor env net hops n key = wrapped env (FindSuccessor env net hops n key)"

definition RemoteNode_FindSuccessor :: "chord_env \<Rightarrow> 'kv chord_net \<Rightarrow> nat \<Rightarrow> u64 \<Rightarrow> u64 \<Rightarrow> error + u64" where
  "RemoteNode_FindSuccessor env net hops n key =
     ask env net n (\<lambda>_. Server_FindSuccessor env net hops n key)"

lemma lookup_reply_remote:
  "n \<noteq> caller \<Longrightarrow> lookup_reply env net caller n (FindSuccessor env net hops n key) =
     RemoteNode_FindSuccessor env net hops n key"
  by (simp add: lookup_reply_def RemoteNode_FindSuccessor_def Server_FindSuccessor_def)

subsection \<open>Facts on calls\<close>

lemma wrapped_simps [simp]:
  "wrapped env (Inr v) = Inr v" "wrapped env (Inl e) = Inl (WrapError (env_twirp_text env) e)"
  by (simp_all add: wrapped_def)

lemma mapped_simps [simp]:
  "mapped env (Inr v) = Inr v" "mapped env (Inl e) = Inl (ErrorMapper (env_twirp_text env) (env_wire env e))"
  by (simp_all add: mapped_def)

lemma is_ok_wrapped [simp]: "is_ok (wrapped env r) = is_ok r"
  by (cases r) simp_all

lemma is_ok_mapped [simp]: "is_ok (mapped env r) = is_ok r"
  by (cases r) simp_all

lemma mapped_Inr_iff [simp]: "mapped env r = Inr v \<longleftrightarrow> r = Inr v"
  by (cases r) simp_all

lemma wrapped_Inr_iff [simp]: "wrapped env r = Inr v \<longleftrightarrow> r = Inr v"
  by (cases r) simp_all

lemma net_nodes_set_node [simp]: "net_nodes (set_node net n ln) = (net_nodes net)(n \<mapsto> ln)"
  by (simp add: set_node_def)

lemma net_now_set_node [simp]: "net_now (set_node net n ln) = net_now net"
  by (simp add: set_node_def)

lemma lookup_reply_Inr [simp]:
  "net_nodes net n = Some ln \<Longrightarrow> lookup_reply env net caller n (Inr v) = Inr v"
  by (simp add: lookup_reply_def ask_def)

lemma lookup_reply_eq_Inr:
  "lookup_reply env net caller n r = Inr v \<Longrightarrow> r = Inr v"
  by (auto simp: lookup_reply_def ask_def split: if_splits option.splits)

lemma Ping_ok: "is_ok (Ping env net caller n) \<longleftrightarrow>
    (\<exists>ln. net_nodes net n = Some ln \<and> checkNodeState ln True = None)"
  by (auto simp: Ping_def local_call_def RemoteNode_Ping_def ask_def Server_Ping_def LocalNode_Ping_def
      guarded_def split: option.splits)

lemma GetSuccessors_Inr: "GetSuccessors env net caller n = Inr l \<longleftrightarrow>
    (\<exists>ln. net_nodes net n = Some ln \<and> checkNodeState ln False = None \<and> ln_successors ln = l)"
  by (auto simp: GetSuccessors_def local_call_def RemoteNode_GetSuccessors_def ask_def
      Server_GetSuccessors_def LocalNode_GetSuccessors_def guarded_def split: option.splits)

lemma GetPredecessor_Inr: "GetPredecessor env net caller n = Inr p \<longleftrightarrow>
    (\<exists>ln. net_nodes net n = Some ln \<and> checkNodeState ln False = None \<and> ln_predecessor ln = p)"
  by (auto simp: GetPredecessor_def local_call_def RemoteNode_GetPredecessor_def ask_def
      Server_GetPredecessor_def LocalNode_GetPredecessor_def guarded_def split: option.splits)

end
