(* ===== verification/Chord_Lookup.thy ===== *)
theory Chord_Lookup
  imports Chord_Node
begin

text \<open>
  Correctness of \<^verbatim>\<open>FindSuccessor\<close>. In a ring whose members answer and know their immediate
  neighbours, a lookup from any member returns the owner of the key, whatever live members
  the finger tables point to; with exact finger tables it visits at most one member per bit of
  the identifier space.
\<close>

text \<open>The owner of a key is the first member met clockwise from the key.\<close>

definition is_owner :: "u64 set \<Rightarrow> u64 \<Rightarrow> u64 \<Rightarrow> bool" where
  "is_owner R key s \<longleftrightarrow> s \<in> R \<and> (\<forall>r \<in> R. cw key s \<le> cw key r)"

definition adjacent :: "u64 set \<Rightarrow> u64 \<Rightarrow> u64 \<Rightarrow> bool" where
  "adjacent R a b \<longleftrightarrow> a \<in> R \<and> b \<in> R \<and> (\<forall>r \<in> R. \<not> Between a r b False)"

definition member_ok :: "u64 set \<Rightarrow> u64 \<Rightarrow> 'kv LocalNode \<Rightarrow> bool" where
  "member_ok R n ln \<longleftrightarrow> ln_ID ln = n \<and> checkNodeState ln False = None \<and>
     (case getSuccessor ln of None \<Rightarrow> False | Some s \<Rightarrow> adjacent R n s) \<and>
     (case ln_predecessor ln of None \<Rightarrow> True | Some p \<Rightarrow> adjacent R p n)"

definition ring_ok :: "u64 set \<Rightarrow> 'kv chord_net \<Rightarrow> bool" where
  "ring_ok R net \<longleftrightarrow> finite R \<and> (\<forall>n \<in> R. on_ring n) \<and>
     (\<forall>n \<in> R. case net_nodes net n of None \<Rightarrow> False | Some ln \<Rightarrow> member_ok R n ln)"

text \<open>A node that answers no call of the lookup: it is not there, has not started or has left.\<close>

definition gone :: "'kv chord_net \<Rightarrow> u64 \<Rightarrow> bool" where
  "gone net f \<longleftrightarrow> (case net_nodes net f of None \<Rightarrow> True | Some ln \<Rightarrow> checkNodeState ln False \<noteq> None)"

text \<open>A ring in which some nodes are gone and their neighbours have not noticed: the pointers of the
  nodes that answer are right for the ring that still counts the others.\<close>

definition ring_known :: "u64 set \<Rightarrow> 'kv chord_net \<Rightarrow> bool" where
  "ring_known R net \<longleftrightarrow> (\<forall>n \<in> R. on_ring n) \<and>
     (\<forall>n \<in> R. gone net n \<or> (case net_nodes net n of None \<Rightarrow> False | Some ln \<Rightarrow> member_ok R n ln))"

definition fingers_within :: "(u64 \<Rightarrow> bool) \<Rightarrow> 'kv LocalNode \<Rightarrow> bool" where
  "fingers_within P ln \<longleftrightarrow>
     (\<forall>k \<in> {1..MaxFingerEntries}. case ln_fingers ln k of None \<Rightarrow> True | Some f \<Rightarrow> P f)"

text \<open>Every finger names a member, or at least, of the nodes that answer, a member or a node that is gone.\<close>

definition fingers_live :: "u64 set \<Rightarrow> 'kv chord_net \<Rightarrow> bool" where
  "fingers_live R net \<longleftrightarrow>
     (\<forall>n \<in> R. case net_nodes net n of None \<Rightarrow> False | Some ln \<Rightarrow> fingers_within (\<lambda>f. f \<in> R) ln)"

definition fingers_known :: "u64 set \<Rightarrow> 'kv chord_net \<Rightarrow> bool" where
  "fingers_known R net \<longleftrightarrow>
     (\<forall>n \<in> R. \<forall>ln. net_nodes net n = Some ln \<longrightarrow> gone net n \<or> fingers_within (\<lambda>f. f \<in> R \<or> gone net f) ln)"

definition fingers_exact :: "u64 set \<Rightarrow> 'kv chord_net \<Rightarrow> bool" where
  "fingers_exact R net \<longleftrightarrow>
     (\<forall>n \<in> R. case net_nodes net n of
        None \<Rightarrow> False
      | Some ln \<Rightarrow> \<forall>k \<in> {1..MaxFingerEntries}.
          (case ln_fingers ln k of
             None \<Rightarrow> False
           | Some f \<Rightarrow> is_owner R (ModuloSum n (push_bit (k - 1) 1)) f))"

subsection \<open>Owners\<close>

lemma is_owner_unique:
  "is_owner R key s \<Longrightarrow> is_owner R key t \<Longrightarrow> (\<And>r. r \<in> R \<Longrightarrow> on_ring r) \<Longrightarrow> on_ring key \<Longrightarrow> s = t"
  using cw_inj[of key s t] by (auto simp: is_owner_def intro: le_antisym)

lemma adjacent_far:
  assumes "adjacent R a b" "r \<in> R" "\<And>r. r \<in> R \<Longrightarrow> on_ring r"
  shows "cw a r = 0 \<or> arc a b \<le> cw a r"
  using assms Between_cw[of a r b False] by (auto simp: adjacent_def)

text \<open>Between two adjacent members every key belongs to the second.\<close>

lemma adjacent_owner:
  assumes adj: "adjacent R a b" and ring: "\<And>r. r \<in> R \<Longrightarrow> on_ring r" and key: "on_ring key"
    and btw: "Between a key b True"
  shows "is_owner R key b"
  unfolding is_owner_def
proof (intro conjI ballI)
  show b: "b \<in> R" using adj by (simp add: adjacent_def)
  have a: "a \<in> R" using adj by (simp add: adjacent_def)
  fix r assume r: "r \<in> R"
  show "cw key b \<le> cw key r"
  proof (cases "key = b")
    case True
    then show ?thesis using key by simp
  next
    case False
    then have k: "0 < cw a key" "cw a key < arc a b"
      using btw Between_cw[of a key b True] ring[OF a] ring[OF b] key by auto
    have b': "cw key b = arc a b - cw a key"
    proof (cases "a = b")
      case True
      then have "key \<noteq> a" using False by auto
      then show ?thesis using cw_back[of a key] ring[OF a] key True by (simp add: arc_def)
    next
      case ab: False
      then show ?thesis using cw_split[of a key b] k ring[OF a] ring[OF b] key by (simp add: arc_def)
    qed
    show ?thesis
      using adjacent_far[OF adj r ring]
    proof
      assume "cw a r = 0"
      then have "r = a" using cw_eq_0 ring[OF a] ring[OF r] by blast
      moreover have "cw key a = ring_size - cw a key"
        using cw_back[of a key] ring[OF a] key k(1) cw_same[of a] by (metis less_irrefl)
      ultimately show ?thesis using b' arc_le[of a b] by (simp add: diff_le_mono del: power_numeral)
    next
      assume "arc a b \<le> cw a r"
      then have "cw a r = cw a key + cw key r"
        using cw_split[of a key r] k ring[OF a] ring[OF r] key by linarith
      then show ?thesis using b' \<open>arc a b \<le> cw a r\<close> by linarith
    qed
  qed
qed

subsection \<open>One hop\<close>

lemma find_down:
  "find P (rev [1..<Suc m]) = Some k \<longleftrightarrow> 1 \<le> k \<and> k \<le> m \<and> P k \<and> (\<forall>j. k < j \<and> j \<le> m \<longrightarrow> \<not> P j)"
  by (induction m) (auto simp: le_Suc_eq)

lemma find_fingers:
  "closestPrecedingNode ln key = ln_ID ln \<or>
   (\<exists>k \<in> {1..MaxFingerEntries}. ln_fingers ln k = Some (closestPrecedingNode ln key) \<and>
      Between (ln_ID ln) (closestPrecedingNode ln key) key False)"
proof (cases "find (\<lambda>k. case ln_fingers ln k of None \<Rightarrow> False
    | Some f \<Rightarrow> Between (ln_ID ln) f key False) (rev [1..<Suc MaxFingerEntries])")
  case None
  then show ?thesis by (simp add: closestPrecedingNode_def)
next
  case (Some k)
  then have "1 \<le> k \<and> k \<le> MaxFingerEntries"
    "case ln_fingers ln k of None \<Rightarrow> False | Some f \<Rightarrow> Between (ln_ID ln) f key False"
    unfolding find_down by blast+
  then show ?thesis using Some
    by (auto simp: closestPrecedingNode_def split: option.splits simp del: upt_Suc)
qed

definition next_hop :: "'kv LocalNode \<Rightarrow> u64 \<Rightarrow> u64 \<Rightarrow> u64" where
  "next_hop ln succ key =
     (if closestPrecedingNode ln key = ln_ID ln then succ else closestPrecedingNode ln key)"

lemma FindSuccessor_member:
  assumes on: "\<forall>r \<in> R. on_ring r" and n: "n \<in> R" and key: "on_ring key"
    and ln: "net_nodes net n = Some ln" "member_ok R n ln"
  obtains (found) s where "is_owner R key s" "\<And>hops. FindSuccessor env net (Suc hops) n key = Inr s"
  | (hop) s where "adjacent R n s"
      "next_hop ln s key = s \<or> (\<exists>k \<in> {1..MaxFingerEntries}. ln_fingers ln k = Some (next_hop ln s key))"
      "Between n (next_hop ln s key) key False" "\<not> Between n key s True"
      "\<And>hops. FindSuccessor env net (Suc hops) n key =
         lookup_reply env net n (next_hop ln s key) (FindSuccessor env net hops (next_hop ln s key) key)"
proof -
  have ring: "\<And>r. r \<in> R \<Longrightarrow> on_ring r" using on by blast
  obtain s where s: "getSuccessor ln = Some s" "adjacent R n s"
    using ln(2) by (auto simp: member_ok_def split: option.splits)
  have id: "ln_ID ln = n" "checkNodeState ln False = None" using ln(2) by (simp_all add: member_ok_def)
  consider (pre) p where "ln_predecessor ln = Some p" "Between p key n True"
    | (succ) "\<not> (case ln_predecessor ln of None \<Rightarrow> False | Some p \<Rightarrow> Between p key (ln_ID ln) True)"
        "Between n key s True"
    | (far) "\<not> (case ln_predecessor ln of None \<Rightarrow> False | Some p \<Rightarrow> Between p key (ln_ID ln) True)"
        "\<not> Between n key s True"
    using id by (cases "ln_predecessor ln") auto
  then show thesis
  proof cases
    case pre
    then have "adjacent R p n" using ln(2) by (simp add: member_ok_def)
    then have "is_owner R key n" using adjacent_owner ring key pre(2) by blast
    moreover have "FindSuccessor env net (Suc hops) n key = Inr n" for hops
      using ln id pre by simp
    ultimately show thesis by (rule found)
  next
    case succ
    then have "is_owner R key s" using adjacent_owner[OF s(2) ring key] by blast
    moreover have "FindSuccessor env net (Suc hops) n key = Inr s" for hops
      using ln id s succ by simp
    ultimately show thesis by (rule found)
  next
    case far
    have sR: "s \<in> R" using s(2) by (simp add: adjacent_def)
    have h: "(next_hop ln s key = s \<or>
        (\<exists>k \<in> {1..MaxFingerEntries}. ln_fingers ln k = Some (next_hop ln s key))) \<and>
      Between n (next_hop ln s key) key False"
    proof (cases "closestPrecedingNode ln key = ln_ID ln")
      case True
      have "Between n s key False"
        using far(2) Between_cw[of n key s True] Between_cw[of n s key False] cw_less[of n s]
          ring[OF n] ring[OF sR] key cw_eq_0[of n s] cw_eq_0[of n key] cw_inj[of n key s]
        by (auto simp: arc_def split: if_splits)
      with True sR show ?thesis by (simp add: next_hop_def)
    next
      case False
      then show ?thesis using find_fingers[of ln key] ln(2) id
        by (auto simp: next_hop_def member_ok_def split: option.splits)
    qed
    have "FindSuccessor env net (Suc hops) n key =
        lookup_reply env net n (next_hop ln s key) (FindSuccessor env net hops (next_hop ln s key) key)" for hops
      using ln id s far by (simp add: next_hop_def Let_def)
    with hop[OF s(2)] h far(2) show thesis by blast
  qed
qed

lemma FindSuccessor_step:
  assumes ok: "ring_ok R net" and n: "n \<in> R" and key: "on_ring key"
  obtains (found) s where "is_owner R key s" "\<And>hops. FindSuccessor env net (Suc hops) n key = Inr s"
  | (hop) ln s where "net_nodes net n = Some ln" "adjacent R n s"
      "next_hop ln s key = s \<or> (\<exists>k \<in> {1..MaxFingerEntries}. ln_fingers ln k = Some (next_hop ln s key))"
      "Between n (next_hop ln s key) key False" "\<not> Between n key s True"
      "\<And>hops. FindSuccessor env net (Suc hops) n key =
         lookup_reply env net n (next_hop ln s key) (FindSuccessor env net hops (next_hop ln s key) key)"
proof -
  obtain ln where ln: "net_nodes net n = Some ln" "member_ok R n ln"
    using ok n by (auto simp: ring_ok_def split: option.splits)
  have ring: "\<forall>r \<in> R. on_ring r" using ok by (simp add: ring_ok_def)
  from ring n key ln show thesis
  proof (cases rule: FindSuccessor_member[where env = env])
    case (found s)
    then show thesis by (rule that(1))
  next
    case (hop s)
    then show thesis by (rule that(2)[OF ln(1)])
  qed
qed

subsection \<open>Lookups arrive\<close>

text \<open>The members strictly between a node and the key shrink with every hop.\<close>

definition ahead :: "u64 set \<Rightarrow> u64 \<Rightarrow> u64 \<Rightarrow> u64 set" where
  "ahead R n key = {r \<in> R. Between n r key False}"

lemma ahead_hop:
  assumes "\<And>r. r \<in> R \<Longrightarrow> on_ring r" "on_ring key" "n \<in> R" "h \<in> ahead R n key"
  shows "ahead R h key \<subset> ahead R n key"
    "r \<in> ahead R h key \<Longrightarrow> cw n r = cw n h + cw h r"
proof -
  have "ahead R h key \<subseteq> ahead R n key"
    using assms Between_trans(1)[of n h _ key] by (auto simp: ahead_def)
  moreover have "h \<notin> ahead R h key"
    using assms Between_not_low[of h key] by (auto simp: ahead_def)
  ultimately show "ahead R h key \<subset> ahead R n key" using assms(4) by blast
  show "r \<in> ahead R h key \<Longrightarrow> cw n r = cw n h + cw h r"
    using assms Between_trans(2)[of n h r key] by (auto simp: ahead_def)
qed

lemma live_hop:
  assumes "fingers_live R net" "n \<in> R" "net_nodes net n = Some ln" "adjacent R n s"
    and "h = s \<or> (\<exists>k \<in> {1..MaxFingerEntries}. ln_fingers ln k = Some h)"
  shows "h \<in> R"
  using assms by (fastforce simp: fingers_live_def fingers_within_def adjacent_def split: option.splits)

lemma lookup_terminates:
  assumes ok: "ring_ok R net" and live: "fingers_live R net" and key: "on_ring key"
  shows "n \<in> R \<Longrightarrow> card (ahead R n key) < hops \<Longrightarrow>
    \<exists>s. FindSuccessor env net hops n key = Inr s \<and> is_owner R key s"
proof (induction hops arbitrary: n)
  case (Suc hops)
  have ring: "\<And>r. r \<in> R \<Longrightarrow> on_ring r" and fin: "finite R" using ok by (simp_all add: ring_ok_def)
  from ok Suc.prems(1) key show ?case
  proof (cases rule: FindSuccessor_step[where env = env])
    case (found s)
    then show ?thesis by blast
  next
    case (hop ln s)
    let ?h = "next_hop ln s key"
    have hR: "?h \<in> R" using live_hop[OF live Suc.prems(1) hop(1-3)] .
    then have "?h \<in> ahead R n key" using hop by (simp add: ahead_def)
    then have "ahead R ?h key \<subset> ahead R n key" using ahead_hop(1)[OF ring key Suc.prems(1)] by blast
    then have "card (ahead R ?h key) < card (ahead R n key)"
      by (rule psubset_card_mono[rotated]) (simp add: ahead_def fin)
    then have "\<exists>s. FindSuccessor env net hops ?h key = Inr s \<and> is_owner R key s"
      using Suc.IH[OF hR] Suc.prems(2) by simp
    moreover obtain ln' where "net_nodes net ?h = Some ln'"
      using ok hR by (auto simp: ring_ok_def split: option.splits)
    ultimately show ?thesis using hop(6) lookup_reply_Inr by metis
  qed
qed simp

text \<open>A lookup that runs into a departed node fails; one that returns is right.\<close>

lemma FindSuccessor_gone: "gone net f \<Longrightarrow> \<exists>e. FindSuccessor env net hops f key = Inl e"
  by (cases hops) (auto simp: gone_def split: option.splits)

lemma lookup_safe:
  assumes ok: "ring_known R net" and known: "fingers_known R net" and key: "on_ring key"
  shows "n \<in> R \<Longrightarrow> FindSuccessor env net hops n key = Inr s \<Longrightarrow> is_owner R key s"
proof (induction hops arbitrary: n)
  case (Suc hops)
  have ring: "\<forall>r \<in> R. on_ring r" using ok by (simp add: ring_known_def)
  have "\<not> gone net n" using FindSuccessor_gone[of net n env "Suc hops" key] Suc.prems(2) by auto
  then obtain ln where ln: "net_nodes net n = Some ln" "member_ok R n ln"
    using ok Suc.prems(1) by (fastforce simp: ring_known_def split: option.splits)
  from ring Suc.prems(1) key ln show ?case
  proof (cases rule: FindSuccessor_member[where env = env])
    case (found s')
    then show ?thesis using found(2)[of hops] Suc.prems(2) by (simp del: FindSuccessor.simps)
  next
    case (hop s')
    let ?h = "next_hop ln s' key"
    have r: "FindSuccessor env net hops ?h key = Inr s"
      using Suc.prems(2) hop(5)[of hops] lookup_reply_eq_Inr by metis
    then have "\<not> gone net ?h" using FindSuccessor_gone[of net ?h env hops key] by auto
    moreover have "fingers_within (\<lambda>f. f \<in> R \<or> gone net f) ln"
      using known Suc.prems(1) ln(1) \<open>\<not> gone net n\<close> by (auto simp: fingers_known_def)
    ultimately have "?h \<in> R" using hop(1,2) by (fastforce simp: fingers_within_def adjacent_def split: option.splits)
    then show ?thesis using Suc.IH r by blast
  qed
qed simp

lemma ring_ok_known: "ring_ok R net \<Longrightarrow> ring_known R net"
  by (auto simp: ring_ok_def ring_known_def)

lemma is_owner_subset: "is_owner R key s \<Longrightarrow> L \<subseteq> R \<Longrightarrow> s \<in> L \<Longrightarrow> is_owner L key s"
  by (auto simp: is_owner_def)

lemma card_ahead: "finite R \<Longrightarrow> n \<in> R \<Longrightarrow> on_ring n \<Longrightarrow> card (ahead R n key) < card R"
  by (rule psubset_card_mono) (auto simp: ahead_def dest: Between_not_low)

subsection \<open>Exact fingers\<close>

lemma two_pow_less: "i < 48 \<Longrightarrow> (2 :: nat) ^ i < ring_size"
  by (rule power_strict_increasing) simp_all

lemma unat_bit:
  assumes "i < 48"
  shows "unat (push_bit i 1 :: u64) = 2 ^ i"
proof -
  have "(2 :: nat) ^ i < 2 ^ 64" using two_pow_less[OF assms] by simp
  then show ?thesis using assms unfolding unsigned_push_bit_eq by (simp add: push_bit_eq_mult take_bit_nat_eq_self)
qed

lemma cw_ModuloSum:
  assumes "on_ring n" "i < 48"
  shows "cw n (ModuloSum n (push_bit i 1)) = 2 ^ i"
proof -
  let ?u = "unat n"
  have u: "?u < ring_size" using assms by (simp add: on_ring_def)
  have b: "(2 :: nat) ^ i < ring_size" by (rule two_pow_less[OF assms(2)])
  have "cw n (ModuloSum n (push_bit i 1)) = ((?u + 2 ^ i) mod ring_size + ring_size - ?u) mod ring_size"
    unfolding cw_def unat_ModuloSum unat_bit[OF assms(2)] ..
  also have "\<dots> = 2 ^ i"
  proof (cases "?u + 2 ^ i < ring_size")
    case True
    then have "(?u + 2 ^ i) mod ring_size + ring_size - ?u = 2 ^ i + ring_size" by simp
    then show ?thesis using b by simp
  next
    case False
    then have "(?u + 2 ^ i) mod ring_size = ?u + 2 ^ i - ring_size"
      using u b by (subst le_mod_geq) auto
    then have "(?u + 2 ^ i) mod ring_size + ring_size - ?u = 2 ^ i" using False u by simp
    then show ?thesis using b by simp
  qed
  finally show ?thesis .
qed

text \<open>The finger at distance \<open>2 ^ i\<close> is at least that far, unless it is the node itself.\<close>

lemma finger_far:
  assumes ring: "\<And>r. r \<in> R \<Longrightarrow> on_ring r" and n: "n \<in> R" and i: "i < 48"
    and f: "is_owner R (ModuloSum n (push_bit i 1)) f" "f \<noteq> n"
  shows "2 ^ i \<le> cw n f" "cw n f = 2 ^ i + cw (ModuloSum n (push_bit i 1)) f"
proof -
  let ?m = "ModuloSum n (push_bit i 1)"
  have m: "on_ring ?m" "cw n ?m = 2 ^ i" using cw_ModuloSum[OF ring[OF n] i] on_ring_ModuloSum by auto
  have fR: "f \<in> R" "cw ?m f \<le> cw ?m n" using f(1) n by (auto simp: is_owner_def)
  have "?m \<noteq> n" using m(2) ring[OF n] by auto
  then have "cw ?m n = ring_size - 2 ^ i" using cw_back[of n ?m] m ring[OF n] by simp
  moreover have "cw ?m f \<noteq> cw ?m n" using cw_inj[of ?m f n] f(2) ring[OF n] ring[OF fR(1)] m(1) by blast
  ultimately have "cw n ?m + cw ?m f < ring_size" using fR(2) m(2) by linarith
  then show "cw n f = 2 ^ i + cw ?m f"
    using cw_add[of n ?m f] ring[OF n] ring[OF fR(1)] m by simp
  then show "2 ^ i \<le> cw n f" by simp
qed

lemma log_bound: "0 < (d :: nat) \<Longrightarrow> d < 2 ^ j \<Longrightarrow> \<exists>i < j. 2 ^ i \<le> d \<and> d < 2 ^ Suc i"
proof (induction j)
  case (Suc j)
  then show ?case by (cases "d < 2 ^ j") (auto intro: less_SucI)
qed simp

lemma find_down_ge:
  assumes "P j" "1 \<le> j" "j \<le> m"
  shows "\<exists>k. find P (rev [1..<Suc m]) = Some k \<and> j \<le> k \<and> k \<le> m \<and> P k"
proof (cases "find P (rev [1..<Suc m])")
  case None
  then have "\<not> P j" using assms(2,3) by (auto simp: find_None_iff simp del: upt_Suc)
  with assms(1) show ?thesis by simp
next
  case (Some k)
  then have "1 \<le> k \<and> k \<le> m \<and> P k \<and> (\<forall>i. k < i \<and> i \<le> m \<longrightarrow> \<not> P i)" unfolding find_down .
  with assms Some show ?thesis by (meson not_le)
qed

text \<open>A finger's target at or before a member that precedes the key makes the finger precede it.\<close>

lemma exact_finger_between:
  assumes ring: "\<And>r. r \<in> R \<Longrightarrow> on_ring r" and key: "on_ring key" and n: "n \<in> R" and i: "i < 48"
    and f: "is_owner R (ModuloSum n (push_bit i 1)) f"
    and r: "r \<in> ahead R n key" "2 ^ i \<le> cw n r"
  shows "Between n f key False"
proof -
  let ?m = "ModuloSum n (push_bit i 1)"
  have m: "on_ring ?m" "cw n ?m = 2 ^ i" using cw_ModuloSum[OF ring[OF n] i] on_ring_ModuloSum by auto
  have rR: "r \<in> R" and rk: "0 < cw n r" "cw n r < arc n key"
    using r(1) Between_cw[of n r key False] ring n key by (auto simp: ahead_def)
  have fR: "f \<in> R" "cw ?m f \<le> cw ?m r" using f rR by (auto simp: is_owner_def)
  have "cw n r = 2 ^ i + cw ?m r" using cw_split[of n ?m r] m ring[OF n] ring[OF rR] r(2) by simp
  then have "cw n ?m + cw ?m f \<le> cw n r" using m(2) fR(2) by simp
  moreover from this have "cw n f = cw n ?m + cw ?m f"
    using cw_add[of n ?m f] m(1) ring[OF n] ring[OF fR(1)] cw_less[of n r] by linarith
  ultimately have "0 < cw n f" "cw n f < arc n key" using m(2) rk(2) by simp_all
  then show ?thesis using Between_cw[of n f key False] ring[OF n] ring[OF fR(1)] key by simp
qed

text \<open>
  One hop with exact fingers: when all members before the key are within \<open>2 ^ Suc j\<close>, after
  the hop they are within \<open>2 ^ j\<close>.
\<close>

lemma exact_hop:
  assumes ring: "\<And>r. r \<in> R \<Longrightarrow> on_ring r" and key: "on_ring key"
    and exact: "fingers_exact R net" and n: "n \<in> R" and ln: "net_nodes net n = Some ln" "ln_ID ln = n"
    and h: "next_hop ln s key \<in> ahead R n key"
    and bound: "\<And>r. r \<in> ahead R n key \<Longrightarrow> cw n r < 2 ^ Suc j" and j: "j < 48"
    and r: "r \<in> ahead R (next_hop ln s key) key"
  shows "cw (next_hop ln s key) r < 2 ^ j"
proof -
  let ?h = "next_hop ln s key"
  have rn: "r \<in> ahead R n key" and add: "cw n r = cw n ?h + cw ?h r"
    using ahead_hop[OF ring key n h] r by auto
  have pos: "0 < cw n r" using rn Between_cw[of n r key False] ring n key by (auto simp: ahead_def)
  obtain i where i: "i < Suc j" "2 ^ i \<le> cw n r" "cw n r < 2 ^ Suc i"
    using log_bound[OF pos bound[OF rn]] by blast
  have i48: "i < 48" using i(1) j by simp
  let ?P = "\<lambda>k. case ln_fingers ln k of None \<Rightarrow> False | Some f \<Rightarrow> Between (ln_ID ln) f key False"
  have fing: "\<exists>f. ln_fingers ln k = Some f \<and> is_owner R (ModuloSum n (push_bit (k - 1) 1)) f"
    if "1 \<le> k" "k \<le> MaxFingerEntries" for k
    using exact n ln that by (fastforce simp: fingers_exact_def split: option.splits)
  obtain f where f: "ln_fingers ln (Suc i) = Some f" "is_owner R (ModuloSum n (push_bit i 1)) f"
    using fing[of "Suc i"] i48 by (auto simp: MaxFingerEntries_def)
  have Pi: "?P (Suc i)"
    using exact_finger_between[OF ring key n i48 f(2) rn i(2)] f(1) ln(2) by simp
  obtain k where k: "find ?P (rev [1..<Suc MaxFingerEntries]) = Some k" "Suc i \<le> k" "k \<le> MaxFingerEntries" "?P k"
    using find_down_ge[of ?P "Suc i" MaxFingerEntries] Pi i48 by (auto simp: MaxFingerEntries_def)
  obtain g where g: "ln_fingers ln k = Some g" "is_owner R (ModuloSum n (push_bit (k - 1) 1)) g"
    using fing[of k] k by auto
  have btw: "Between n g key False" using k(4) g(1) ln(2) by simp
  then have gn: "g \<noteq> n" using Between_not_low[OF ring[OF n]] by blast
  have "?h = g" using k(1) g(1) gn ln(2) by (simp add: next_hop_def closestPrecedingNode_def)
  moreover have "2 ^ (k - 1) \<le> cw n g"
    using finger_far(1)[OF ring n _ g(2) gn] k(3) by (simp add: MaxFingerEntries_def)
  moreover have "(2 :: nat) ^ i \<le> 2 ^ (k - 1)" using k(2) by (intro power_increasing) simp_all
  ultimately have "2 ^ i \<le> cw n ?h" by (metis order_trans)
  then have "cw ?h r < 2 ^ i" using add i(3) by simp
  also have "(2 :: nat) ^ i \<le> 2 ^ j" using i(1) by (intro power_increasing) simp_all
  finally show ?thesis .
qed

lemma fingers_exact_live: "fingers_exact R net \<Longrightarrow> fingers_live R net"
  by (fastforce simp: fingers_exact_def fingers_live_def fingers_within_def is_owner_def split: option.splits)

lemma lookup_logarithmic:
  assumes ok: "ring_ok R net" and exact: "fingers_exact R net" and key: "on_ring key"
  shows "j \<le> 48 \<Longrightarrow> n \<in> R \<Longrightarrow> (\<And>r. r \<in> ahead R n key \<Longrightarrow> cw n r < 2 ^ j) \<Longrightarrow>
    \<exists>s. FindSuccessor env net (Suc j) n key = Inr s \<and> is_owner R key s"
proof (induction j arbitrary: n)
  case 0
  have ring: "\<And>r. r \<in> R \<Longrightarrow> on_ring r" using ok by (simp add: ring_ok_def)
  have "r \<notin> ahead R n key" for r
  proof
    assume r: "r \<in> ahead R n key"
    then have "0 < cw n r" using Between_cw[of n r key False] ring "0.prems"(2) key by (simp add: ahead_def)
    with "0.prems"(3)[OF r] show False by simp
  qed
  then have "ahead R n key = {}" by blast
  then show ?case using lookup_terminates[OF ok fingers_exact_live[OF exact] key "0.prems"(2), of "Suc 0"] by simp
next
  case (Suc j)
  have ring: "\<And>r. r \<in> R \<Longrightarrow> on_ring r" using ok by (simp add: ring_ok_def)
  from ok Suc.prems(2) key show ?case
  proof (cases rule: FindSuccessor_step[where env = env])
    case (found s)
    then show ?thesis by blast
  next
    case (hop ln s)
    let ?h = "next_hop ln s key"
    have id: "ln_ID ln = n" using ok Suc.prems(2) hop(1) by (auto simp: ring_ok_def member_ok_def)
    have hR: "?h \<in> R" using live_hop[OF fingers_exact_live[OF exact] Suc.prems(2) hop(1-3)] .
    then have h: "?h \<in> ahead R n key" using hop by (simp add: ahead_def)
    have "cw ?h r < 2 ^ j" if "r \<in> ahead R ?h key" for r
      by (rule exact_hop[OF ring key exact Suc.prems(2) hop(1) id h Suc.prems(3) _ that])
        (use Suc.prems(1) in auto)
    then have "\<exists>s. FindSuccessor env net (Suc j) ?h key = Inr s \<and> is_owner R key s"
      using Suc.IH[OF _ hR] Suc.prems(1) by simp
    moreover obtain ln' where "net_nodes net ?h = Some ln'"
      using ok hR by (auto simp: ring_ok_def split: option.splits)
    ultimately show ?thesis using hop(6) lookup_reply_Inr by metis
  qed
qed

subsection \<open>Properties\<close>

text \<open>C6: lookups are correct and terminate. In a ring whose members answer, know their true
  successor and know their true predecessor or none, a lookup started at any member with a budget
  of as many hops as there are members returns the owner of the key, the first member clockwise
  from it, even when finger tables are stale or empty, as long as they name members.\<close>

theorem FindSuccessor_correct:
  assumes "ring_ok R net" "fingers_live R net" "n \<in> R" "on_ring key" "card R \<le> hops"
  shows "\<exists>s. FindSuccessor env net hops n key = Inr s \<and> is_owner R key s"
proof -
  have "card (ahead R n key) < card R"
    using assms(1,3) by (intro card_ahead) (simp_all add: ring_ok_def)
  then show ?thesis using lookup_terminates[OF assms(1,2,4,3), of hops] assms(5) by simp
qed

definition example_node :: "u64 \<Rightarrow> u64 \<Rightarrow> (nat \<Rightarrow> u64 option) \<Rightarrow> unit LocalNode" where
  "example_node n other fingers =
     (NewLocalNode n ())\<lparr>ln_state := newNodeState Active, ln_successors := [other],
        ln_predecessor := Some other, ln_fingers := fingers\<rparr>"

definition example_ring :: "unit chord_net" where
  "example_ring = \<lparr>net_nodes = [0 \<mapsto> example_node 0 0x800000000000 (\<lambda>k. Some 0x800000000000),
      0x800000000000 \<mapsto> example_node 0x800000000000 0 (\<lambda>k. Some 0)], net_now = 0\<rparr>"

definition example_stale :: "unit chord_net" where
  "example_stale = \<lparr>net_nodes = [0 \<mapsto> example_node 0 0x800000000000 (\<lambda>k. Some 7),
      0x800000000000 \<mapsto> example_node 0x800000000000 0 (\<lambda>k. Some 7)], net_now = 0\<rparr>"

definition example_env :: chord_env where
  "example_env = \<lparr>env_xxh3 = (\<lambda>_. 0), env_wire = (\<lambda>e. e), env_twirp_text = (\<lambda>_ m. m),
     env_unreachable = Opaque ''timeout'', env_hops = 8\<rparr>"

lemma example_ring_ok: "ring_ok {0, 0x800000000000} example_ring"
  by (simp add: ring_ok_def example_ring_def example_node_def member_ok_def on_ring_def adjacent_def
      getSuccessor_def checkNodeState_def NewLocalNode_def Between_def)

lemma opposite_owner:
  assumes "on_ring n" "on_ring s" "cw n s = 2 ^ 47" "i < 48"
  shows "is_owner {n, s} (ModuloSum n (push_bit i 1)) s"
proof -
  let ?m = "ModuloSum n (push_bit i 1)"
  have m: "on_ring ?m" "cw n ?m = 2 ^ i" using cw_ModuloSum[OF assms(1,4)] on_ring_ModuloSum by auto
  have "(2 :: nat) ^ i \<le> 2 ^ 47" using assms(4) by (intro power_increasing) simp_all
  then have "cw ?m s = 2 ^ 47 - 2 ^ i" using cw_split[of n ?m s] m assms by simp
  moreover have "?m \<noteq> n" using m(2) assms(1) by auto
  then have "cw ?m n = ring_size - 2 ^ i" using cw_back[of n ?m] m assms(1) by simp
  ultimately show ?thesis by (simp add: is_owner_def)
qed

lemma example_ring_exact: "fingers_exact {0, 0x800000000000} example_ring"
  using opposite_owner[of 0 "0x800000000000"] opposite_owner[of "0x800000000000" 0]
  by (simp add: fingers_exact_def example_ring_def example_node_def MaxFingerEntries_def on_ring_def
      cw_def insert_commute) force

theorem FindSuccessor_correct_witness:
  "\<exists>s. FindSuccessor example_env example_ring 2 0 20 = Inr s \<and> is_owner {0, 0x800000000000} 20 s"
  by (rule FindSuccessor_correct[OF example_ring_ok fingers_exact_live[OF example_ring_exact]]) (simp_all add: on_ring_def)


definition example_left :: "unit chord_net" where
  "example_left = \<lparr>net_nodes = [0 \<mapsto> example_node 0 0x800000000000 (\<lambda>k. Some 7)], net_now = 0\<rparr>"


text \<open>C7: lookups are logarithmic. With exact finger tables a lookup in a correct ring of any
  size needs at most one hop per bit of the 48-bit identifier space, plus the first node.\<close>

theorem FindSuccessor_logarithmic:
  assumes "ring_ok R net" "fingers_exact R net" "n \<in> R" "on_ring key"
  shows "\<exists>s. FindSuccessor env net (MaxFingerEntries + 1) n key = Inr s \<and> is_owner R key s"
proof -
  have "cw n r < 2 ^ 48" for r by (rule cw_less)
  then show ?thesis
    using lookup_logarithmic[OF assms(1,2,4), of 48 n] assms(3) by (simp add: MaxFingerEntries_def)
qed

theorem FindSuccessor_logarithmic_witness:
  "\<exists>s. FindSuccessor example_env example_ring (MaxFingerEntries + 1) 0 20 = Inr s \<and> is_owner {0, 0x800000000000} 20 s"
  by (rule FindSuccessor_logarithmic[OF example_ring_ok example_ring_exact]) (simp_all add: on_ring_def)

end
