(* ===== verification/Chord_Geometry.thy ===== *)
theory Chord_Geometry
  imports Chord_Lookup
begin

text \<open>
  The geometry of a ring of members: how neighbours, owners and intervals change when a member is
  added between two neighbours or removed. All interval tests become comparisons of arc lengths
  seen from one point, so that the facts below are linear arithmetic.
\<close>

lemma Between_arc:
  assumes "on_ring a" "on_ring t" "on_ring b"
  shows "Between a t b False \<longleftrightarrow> arc a t < arc a b" "Between a t b True \<longleftrightarrow> arc a t \<le> arc a b"
proof -
  note c = cw_less[of a b] cw_less[of a t] cw_eq_0[of a t] cw_inj[of a t b]
  show "Between a t b False \<longleftrightarrow> arc a t < arc a b"
    using Between_cw[OF assms, of False] c assms by (auto simp: arc_def split: if_splits)
  show "Between a t b True \<longleftrightarrow> arc a t \<le> arc a b"
    using Between_cw[OF assms, of True] c assms by (auto simp: arc_def split: if_splits)
qed

lemma arc_shift:
  assumes "on_ring a" "on_ring b" "on_ring c"
  shows "arc b c = (if arc a b < arc a c then arc a c - arc a b else arc a c + ring_size - arc a b)"
  using assms by (auto simp: arc_def cw_cases on_ring_def word_unat_eq_iff split: if_splits)

lemma arc_inj: "on_ring a \<Longrightarrow> on_ring b \<Longrightarrow> on_ring c \<Longrightarrow> arc a b = arc a c \<longleftrightarrow> b = c"
  using cw_inj[of a b c] cw_less[of a b] cw_less[of a c] by (auto simp: arc_def split: if_splits)

lemma is_owner_arc:
  assumes "\<And>r. r \<in> R \<Longrightarrow> on_ring r" "on_ring key" "x \<in> R"
  shows "is_owner R key x \<longleftrightarrow> x = key \<or> (key \<notin> R \<and> (\<forall>r \<in> R. arc key x \<le> arc key r))"
proof -
  have "cw key x = 0 \<longleftrightarrow> x = key" using cw_eq_0[of key x] assms by auto
  then show ?thesis
    using assms cw_eq_0[of key] by (auto simp: is_owner_def arc_def)
qed

lemma adjacent_arc:
  assumes "\<And>r. r \<in> R \<Longrightarrow> on_ring r"
  shows "adjacent R a b \<longleftrightarrow> a \<in> R \<and> b \<in> R \<and> (\<forall>r \<in> R. arc a b \<le> arc a r)"
  using assms Between_arc(1)[of a _ b] by (auto simp: adjacent_def not_less)

lemma adjacent_succ_unique:
  assumes "\<And>r. r \<in> R \<Longrightarrow> on_ring r" "adjacent R a b" "adjacent R a c"
  shows "b = c"
  using assms arc_inj[of a b c] by (auto simp: adjacent_arc intro: le_antisym)

text \<open>A member's predecessor decides what it owns.\<close>

lemma owner_iff:
  assumes ring: "\<And>r. r \<in> R \<Longrightarrow> on_ring r" and key: "on_ring key" and adj: "adjacent R p x"
  shows "is_owner R key x \<longleftrightarrow> Between p key x True"
proof
  assume "Between p key x True"
  then show "is_owner R key x" using adjacent_owner[OF adj ring key] by blast
next
  assume own: "is_owner R key x"
  have pR: "p \<in> R" "x \<in> R" using adj by (auto simp: adjacent_def)
  note on = ring[OF pR(1)] ring[OF pR(2)]
  show "Between p key x True"
  proof (rule ccontr)
    assume "\<not> Between p key x True"
    then have lt: "arc p x < arc p key" using Between_arc(2)[OF on(1) key on(2)] by simp
    then have "key \<noteq> x" by auto
    then have "cw key x \<le> cw key p" "key \<noteq> x" using own pR by (auto simp: is_owner_def)
    moreover have "arc key x = arc p x + ring_size - arc p key" using arc_shift[OF on(1) key on(2)] lt by simp
    moreover have "arc key p = ring_size - arc p key \<or> key = p"
      using arc_shift[OF on(1) key on(1)] arc_le[of p key] cw_less[of p key]
      by (auto simp: arc_def split: if_splits)
    ultimately show False using lt arc_pos[OF on] arc_le[of p key] cw_eq_0[OF key on(2)] cw_eq_0[OF key on(1)]
      by (auto simp: arc_def split: if_splits)
  qed
qed

lemma adjacent_pred_unique:
  assumes ring: "\<And>r. r \<in> R \<Longrightarrow> on_ring r" and "adjacent R a c" "adjacent R b c"
  shows "a = b"
proof -
  have R: "a \<in> R" "b \<in> R" "c \<in> R" using assms by (auto simp: adjacent_def)
  then have on: "on_ring a" "on_ring b" "on_ring c" using ring by auto
  have "arc a c \<le> arc a b" "arc b c \<le> arc b a" using assms R by (auto simp: adjacent_arc)
  then show ?thesis
    using arc_shift[OF on(1,2,3)] arc_shift[OF on(1,2,1)] arc_pos[OF on(1,3)] arc_le[of a b] arc_le[of a c]
      arc_inj[OF on(1,2,1)] arc_inj[OF on(1,2,3)] arc_inj[OF on(2,3,1)]
    by (auto simp: arc_def split: if_splits)
qed

subsection \<open>A new member\<close>

definition new_member :: "u64 set \<Rightarrow> u64 \<Rightarrow> u64 \<Rightarrow> u64 \<Rightarrow> bool" where
  "new_member R p j s \<longleftrightarrow>
     (\<forall>r \<in> R. on_ring r) \<and> on_ring j \<and> j \<notin> R \<and> adjacent R p s \<and> is_owner R j s"

lemma new_memberD:
  assumes "new_member R p j s"
  shows "r \<in> R \<Longrightarrow> on_ring r" "r \<in> insert j R \<Longrightarrow> on_ring r" "on_ring j" "on_ring p" "on_ring s" "j \<notin> R"
    "adjacent R p s" "is_owner R j s" "p \<in> R" "s \<in> R" "j \<noteq> p" "j \<noteq> s"
  using assms by (auto simp: new_member_def adjacent_def)

lemma new_member_between: "new_member R p j s \<Longrightarrow> Between p j s False"
  using owner_iff[of R j p s] new_memberD[of R p j s] Between_incl_iff by blast

lemma new_member_arc: "new_member R p j s \<Longrightarrow> arc p j < arc p s"
  using new_member_between[of R p j s] Between_arc(1)[of p j s] new_memberD[of R p j s] by blast

lemma new_member_pred:
  assumes "new_member R p j s"
  shows "adjacent (insert j R) p j"
proof -
  note D = new_memberD[OF assms]
  have "\<forall>r \<in> R. arc p s \<le> arc p r" using D(7) adjacent_arc[OF D(1)] by blast
  then show ?thesis using new_member_arc[OF assms] D(9)
    by (subst adjacent_arc[OF D(2)]) auto
qed

lemma new_member_succ:
  assumes "new_member R p j s"
  shows "adjacent (insert j R) j s"
proof -
  note D = new_memberD[OF assms]
  have "arc j s \<le> arc j r" if "r \<in> insert j R" for r
  proof (cases "r = j")
    case True
    then show ?thesis using arc_le[of j s] by (simp add: arc_def)
  next
    case False
    then have "arc p s \<le> arc p r" "on_ring r" using that D(1,7) adjacent_arc[OF D(1)] by auto
    then show ?thesis
      using arc_shift[OF D(4,3,5)] arc_shift[OF D(4,3), of r] new_member_arc[OF assms] by simp
  qed
  then show ?thesis using D(10) by (subst adjacent_arc[OF D(2)]) auto
qed

lemma new_member_other:
  assumes "new_member R p j s" "adjacent R a b" "a \<noteq> p"
  shows "adjacent (insert j R) a b"
proof -
  note D = new_memberD[OF assms(1)]
  have "\<not> Between a j b False"
  proof
    assume "Between a j b False"
    then have "is_owner R j b" using owner_iff[OF D(1,3) assms(2)] Between_incl_iff by blast
    then have "b = s" using is_owner_unique[OF _ D(8)] D(1,3) by blast
    then show False using adjacent_pred_unique[OF D(1) assms(2)] D(7) assms(3) by blast
  qed
  then show ?thesis using assms(2) by (auto simp: adjacent_def)
qed

lemma new_member_owns:
  "new_member R p j s \<Longrightarrow> on_ring k \<Longrightarrow> is_owner (insert j R) k j \<longleftrightarrow> Between p k j True"
  using owner_iff[of "insert j R" k p j] new_memberD(2)[of R p j s] new_member_pred[of R p j s] by blast

lemma new_member_split:
  assumes "new_member R p j s" "on_ring k"
  shows "is_owner (insert j R) k s \<longleftrightarrow> is_owner R k s \<and> \<not> Between p k j True"
    and "Between p k j True \<Longrightarrow> is_owner R k s"
proof -
  note D = new_memberD[OF assms(1)]
  have "is_owner (insert j R) k s \<longleftrightarrow> arc j k \<le> arc j s"
    using owner_iff[OF D(2) assms(2) new_member_succ[OF assms(1)]] Between_arc(2)[OF D(3) assms(2) D(5)] by simp
  moreover have "is_owner R k s \<longleftrightarrow> arc p k \<le> arc p s"
    using owner_iff[OF D(1) assms(2) D(7)] Between_arc(2)[OF D(4) assms(2) D(5)] by simp
  moreover have "Between p k j True \<longleftrightarrow> arc p k \<le> arc p j" using Between_arc(2)[OF D(4) assms(2) D(3)] .
  ultimately show "is_owner (insert j R) k s \<longleftrightarrow> is_owner R k s \<and> \<not> Between p k j True"
    "Between p k j True \<Longrightarrow> is_owner R k s"
    using arc_shift[OF D(4,3,5)] arc_shift[OF D(4,3) assms(2)] new_member_arc[OF assms(1)]
      arc_le[of p s] arc_pos[OF D(4) assms(2)]
    by (auto split: if_splits)
qed

lemma new_member_owner_other:
  assumes "new_member R p j s" "on_ring k" "adjacent R a x" "x \<noteq> s"
  shows "is_owner (insert j R) k x \<longleftrightarrow> is_owner R k x"
proof -
  note D = new_memberD[OF assms(1)]
  have "a \<noteq> p" using adjacent_succ_unique[OF D(1) assms(3)] D(7) assms(4) by blast
  then show ?thesis
    using owner_iff[OF D(1) assms(2,3)] owner_iff[OF D(2) assms(2) new_member_other[OF assms(1,3)]] by simp
qed

subsection \<open>A member less\<close>

definition old_member :: "u64 set \<Rightarrow> u64 \<Rightarrow> u64 \<Rightarrow> u64 \<Rightarrow> bool" where
  "old_member R p n s \<longleftrightarrow> (\<forall>r \<in> R. on_ring r) \<and> adjacent R p n \<and> adjacent R n s \<and> p \<noteq> n"

lemma old_memberD:
  assumes "old_member R p n s"
  shows "r \<in> R \<Longrightarrow> on_ring r" "r \<in> R - {n} \<Longrightarrow> on_ring r" "on_ring p" "on_ring n" "on_ring s"
    "adjacent R p n" "adjacent R n s" "p \<noteq> n" "p \<in> R" "n \<in> R" "s \<in> R" "s \<noteq> n"
proof -
  show D: "adjacent R p n" "adjacent R n s" "p \<noteq> n" "\<And>r. r \<in> R \<Longrightarrow> on_ring r"
    using assms by (auto simp: old_member_def)
  then show "p \<in> R" "n \<in> R" "s \<in> R" "on_ring p" "on_ring n" "on_ring s" "r \<in> R - {n} \<Longrightarrow> on_ring r"
    by (auto simp: adjacent_def)
  show "s \<noteq> n"
  proof
    assume "s = n"
    then have "arc n n \<le> arc n p" using D \<open>p \<in> R\<close> adjacent_arc[OF D(4)] by blast
    then show False using D(3) cw_less[of n p] by (simp add: arc_def)
  qed
qed

lemma old_member_arc:
  assumes "old_member R p n s"
  shows "arc p n < arc p s"
proof -
  note D = old_memberD[OF assms]
  have "arc p n \<le> arc p s" using D(6,11) adjacent_arc[OF D(1)] by blast
  then show ?thesis using arc_inj[OF D(3-5)] D(12) by (metis le_neq_implies_less)
qed

lemma old_member_between: "old_member R p n s \<Longrightarrow> Between p n s False"
  using Between_arc(1)[of p n s] old_member_arc[of R p n s] old_memberD[of R p n s] by blast

lemma old_member_closed:
  assumes "old_member R p n s"
  shows "adjacent (R - {n}) p s"
proof -
  note D = old_memberD[OF assms]
  have "arc p s \<le> arc p r" if r: "r \<in> R" "r \<noteq> n" for r
  proof -
    have "arc p n \<le> arc p r" "arc n s \<le> arc n r" using r D(6,7) adjacent_arc[OF D(1)] by blast+
    then show ?thesis
      using arc_shift[OF D(3-5)] arc_shift[OF D(3,4) D(1)[OF r(1)]] old_member_arc[OF assms]
        arc_inj[OF D(3,4) D(1)[OF r(1)]] r(2) by (auto split: if_splits)
  qed
  then show ?thesis using D(8,9,11,12) by (subst adjacent_arc[OF D(2)]) auto
qed

lemma adjacent_kept: "adjacent R a b \<Longrightarrow> a \<noteq> n \<Longrightarrow> b \<noteq> n \<Longrightarrow> adjacent (R - {n}) a b"
  by (auto simp: adjacent_def)

lemma old_member_split:
  assumes "old_member R p n s" "on_ring k"
  shows "is_owner (R - {n}) k s \<longleftrightarrow> is_owner R k s \<or> is_owner R k n"
proof -
  note D = old_memberD[OF assms(1)]
  have "is_owner (R - {n}) k s \<longleftrightarrow> arc p k \<le> arc p s"
    using owner_iff[OF D(2) assms(2) old_member_closed[OF assms(1)]] Between_arc(2)[OF D(3) assms(2) D(5)]
    by simp
  moreover have "is_owner R k s \<longleftrightarrow> arc n k \<le> arc n s"
    using owner_iff[OF D(1) assms(2) D(7)] Between_arc(2)[OF D(4) assms(2) D(5)] by simp
  moreover have "is_owner R k n \<longleftrightarrow> arc p k \<le> arc p n"
    using owner_iff[OF D(1) assms(2) D(6)] Between_arc(2)[OF D(3) assms(2) D(4)] by simp
  ultimately show ?thesis
    using arc_shift[OF D(3-5)] arc_shift[OF D(3,4) assms(2)] old_member_arc[OF assms(1)]
      arc_le[of p s] arc_pos[OF D(3) assms(2)]
    by (auto split: if_splits)
qed

lemma old_member_owner_other:
  assumes "old_member R p n s" "on_ring k" "adjacent R a x" "x \<noteq> s" "x \<noteq> n"
  shows "is_owner (R - {n}) k x \<longleftrightarrow> is_owner R k x"
proof -
  note D = old_memberD[OF assms(1)]
  have "a \<noteq> n" using adjacent_succ_unique[OF D(1) assms(3)] D(7) assms(4) by blast
  then show ?thesis
    using owner_iff[OF D(1) assms(2,3)] owner_iff[OF D(2) assms(2) adjacent_kept[OF assms(3)]] assms(5)
    by simp
qed

end
