(* ===== verification/Chord_KV.thy ===== *)
theory Chord_KV
  imports Chord_Lookup
begin

text \<open>
  Key-value requests on the ring (\<^verbatim>\<open>chord/local_kv.go\<close>, the key-value half of
  \<^verbatim>\<open>chord/remote.go\<close> and \<^verbatim>\<open>chord/server_rpc.go\<close>) and the transfer of keys between neighbours
  (\<^verbatim>\<open>chord/local_chord.go\<close>). A request is a \<open>kv_cmd\<close> and its result a \<open>kv_obs\<close>; the provider
  of the nodes is the argument \<open>P\<close>. \<^verbatim>\<open>kvMiddleware\<close> looks the owner up and calls its own
  provider, or forwards the request, which the other node handles the same way.
\<close>

datatype RequestTarget = UNKNOWN | KV_DIRECT_TARGET | KV_REPLICATION

fun cmd_key :: "kv_cmd \<Rightarrow> bytes" where
  "cmd_key (CPut k v) = k"
| "cmd_key (CGet k) = k"
| "cmd_key (CDelete k) = k"
| "cmd_key (CPrefixAppend k c) = k"
| "cmd_key (CPrefixList k) = k"
| "cmd_key (CPrefixContains k c) = k"
| "cmd_key (CPrefixRemove k c) = k"
| "cmd_key (CAcquire now k ttl) = k"
| "cmd_key (CRenew now k ttl prev) = k"
| "cmd_key (CRelease k token) = k"
| "cmd_key _ = []"

text \<open>
  What a request and a result are after the wire. The \<^verbatim>\<open>value\<close> of \<^verbatim>\<open>SimpleRequest\<close> and
  \<^verbatim>\<open>SimpleResponse\<close> is a plain \<^verbatim>\<open>bytes\<close> field, which is only sent when it is not empty: an
  empty value arrives as nil.
\<close>

definition wire_bytes :: "bytes option \<Rightarrow> bytes option" where
  "wire_bytes v = (if v = Some [] then None else v)"

fun RemoteNode_request :: "kv_cmd \<Rightarrow> kv_cmd" where
  "RemoteNode_request (CPut k v) = CPut k (wire_bytes v)"
| "RemoteNode_request cmd = cmd"

fun Server_response :: "chord_env \<Rightarrow> bytes \<Rightarrow> kv_obs \<Rightarrow> kv_obs" where
  "Server_response env key (OError e) = OError (WrapErrorKV (env_twirp_text env) key e)"
| "Server_response env key (OValue v) = OValue (wire_bytes v)"
| "Server_response env key ob = ob"

fun RemoteNode_response :: "chord_env \<Rightarrow> kv_obs \<Rightarrow> kv_obs" where
  "RemoteNode_response env (OError e) = OError (ErrorMapper (env_twirp_text env) (env_wire env e))"
| "RemoteNode_response env ob = ob"

definition count_stale :: "'kv chord_net \<Rightarrow> u64 \<Rightarrow> 'kv LocalNode \<Rightarrow> 'kv chord_net" where
  "count_stale net n ln = set_node net n (ln\<lparr>ln_kvStaleCount := ln_kvStaleCount ln + 1\<rparr>)"

definition local_kv :: "'kv KVProvider \<Rightarrow> 'kv chord_net \<Rightarrow> u64 \<Rightarrow> 'kv LocalNode \<Rightarrow> kv_cmd \<Rightarrow> 'kv chord_net \<times> kv_obs" where
  "local_kv P net n ln cmd =
     (let (kv', ob) = exec_cmd P (ln_kv ln) cmd in (set_node net n (ln\<lparr>ln_kv := kv'\<rparr>), ob))"

definition forward_kv :: "chord_env \<Rightarrow> 'kv chord_net \<Rightarrow> u64 \<Rightarrow> u64 \<Rightarrow> kv_cmd \<Rightarrow>
    (kv_cmd \<Rightarrow> 'kv chord_net \<times> kv_obs) \<Rightarrow> 'kv chord_net \<times> kv_obs" where
  "forward_kv env net n m cmd method =
     (if m = n then method cmd
      else case net_nodes net m of
        None \<Rightarrow> (net, OError (no_answer env))
      | Some _ \<Rightarrow>
          let (net', ob) = method (RemoteNode_request cmd)
          in (net', RemoteNode_response env (Server_response env (cmd_key cmd) ob)))"

text \<open>\<open>fuel\<close> bounds the chain of forwarded requests; a request that is still being forwarded then
  gets no answer before its deadline.\<close>

fun kvMiddleware :: "chord_env \<Rightarrow> 'kv KVProvider \<Rightarrow> RequestTarget \<Rightarrow> nat \<Rightarrow> u64 \<Rightarrow> kv_cmd \<Rightarrow> 'kv chord_net \<Rightarrow>
    'kv chord_net \<times> kv_obs" where
  "kvMiddleware env P target 0 n cmd net = (net, OError (no_answer env))"
| "kvMiddleware env P target (Suc fuel) n cmd net =
     (case net_nodes net n of
        None \<Rightarrow> (net, OError (no_answer env))
      | Some ln \<Rightarrow>
          let ident = Hash (env_xxh3 env) (cmd_key cmd)
          in if target = KV_REPLICATION then local_kv P net n ln cmd
             else (case FindSuccessor env net (env_hops env) n ident of
                 Inl e \<Rightarrow>
                   (net, OError (if e = Chord ErrNodeGone then Chord ErrKVStaleOwnership else e))
               | Inr succ \<Rightarrow>
                   if succ \<noteq> ln_ID ln
                   then forward_kv env net n succ cmd (\<lambda>c. kvMiddleware env P target fuel succ c net)
                   else if Get (ln_state ln) \<noteq> Active
                   then (count_stale net n ln, OError (Chord ErrKVStaleOwnership))
                   else
                     let own =
                           (if (case ln_predecessor ln of
                                  None \<Rightarrow> False | Some p \<Rightarrow> \<not> Between p ident (ln_ID ln) True)
                            then (count_stale net n ln, OError (Chord ErrKVStaleOwnership))
                            else local_kv P net n ln cmd)
                     in (case ln_surrogate ln of
                           None \<Rightarrow> own
                         | Some su \<Rightarrow>
                             if Between (ln_ID ln) ident su True
                             then forward_kv env (count_stale net n ln) n su cmd
                                    (\<lambda>c. kvMiddleware env P target fuel su c (count_stale net n ln))
                             else own)))"

text \<open>The methods of the node.\<close>

definition LocalNode_Put where
  "LocalNode_Put env P target n key v = kvMiddleware env P target (env_hops env) n (CPut key v)"

definition LocalNode_Get where
  "LocalNode_Get env P target n key = kvMiddleware env P target (env_hops env) n (CGet key)"

definition LocalNode_Delete where
  "LocalNode_Delete env P target n key = kvMiddleware env P target (env_hops env) n (CDelete key)"

definition LocalNode_PrefixAppend where
  "LocalNode_PrefixAppend env P target n prefix child =
     kvMiddleware env P target (env_hops env) n (CPrefixAppend prefix child)"

definition LocalNode_PrefixList where
  "LocalNode_PrefixList env P target n prefix =
     kvMiddleware env P target (env_hops env) n (CPrefixList prefix)"

definition LocalNode_PrefixContains where
  "LocalNode_PrefixContains env P target n prefix child =
     kvMiddleware env P target (env_hops env) n (CPrefixContains prefix child)"

definition LocalNode_PrefixRemove where
  "LocalNode_PrefixRemove env P target n prefix child =
     kvMiddleware env P target (env_hops env) n (CPrefixRemove prefix child)"

definition LocalNode_Acquire where
  "LocalNode_Acquire env P target n lease ttl net =
     kvMiddleware env P target (env_hops env) n (CAcquire (net_now net) lease ttl) net"

definition LocalNode_Renew where
  "LocalNode_Renew env P target n lease ttl prevToken net =
     kvMiddleware env P target (env_hops env) n (CRenew (net_now net) lease ttl prevToken) net"

definition LocalNode_Release where
  "LocalNode_Release env P target n lease token =
     kvMiddleware env P target (env_hops env) n (CRelease lease token)"

text \<open>A request at a node, dispatched to the method; the lease operations read the clock of the
  network, whatever time the request names.\<close>

fun kv_method :: "chord_env \<Rightarrow> 'kv KVProvider \<Rightarrow> RequestTarget \<Rightarrow> u64 \<Rightarrow> kv_cmd \<Rightarrow> 'kv chord_net \<Rightarrow>
    'kv chord_net \<times> kv_obs" where
  "kv_method env P target n (CPut k v) net = LocalNode_Put env P target n k v net"
| "kv_method env P target n (CGet k) net = LocalNode_Get env P target n k net"
| "kv_method env P target n (CDelete k) net = LocalNode_Delete env P target n k net"
| "kv_method env P target n (CPrefixAppend k c) net = LocalNode_PrefixAppend env P target n k c net"
| "kv_method env P target n (CPrefixList k) net = LocalNode_PrefixList env P target n k net"
| "kv_method env P target n (CPrefixContains k c) net = LocalNode_PrefixContains env P target n k c net"
| "kv_method env P target n (CPrefixRemove k c) net = LocalNode_PrefixRemove env P target n k c net"
| "kv_method env P target n (CAcquire now k ttl) net = LocalNode_Acquire env P target n k ttl net"
| "kv_method env P target n (CRenew now k ttl prev) net = LocalNode_Renew env P target n k ttl prev net"
| "kv_method env P target n (CRelease k token) net = LocalNode_Release env P target n k token net"
| "kv_method env P target n _ net = (net, ODone)"

subsection \<open>Import and transfer\<close>

definition LocalNode_Import :: "chord_env \<Rightarrow> 'kv KVProvider \<Rightarrow> u64 \<Rightarrow> bytes list \<Rightarrow> KVTransfer option list \<Rightarrow>
    'kv chord_net \<Rightarrow> 'kv chord_net \<times> (error + unit)" where
  "LocalNode_Import env P n keys values net =
     (case net_nodes net n of
        None \<Rightarrow> (net, Inl (no_answer env))
      | Some ln \<Rightarrow>
          if Get (ln_state ln) \<in> {Inactive, Leaving, Left} then (net, Inl (Chord ErrNodeGone))
          else let (kv', r) = op_Import P (ln_kv ln) keys values
               in (set_node net n (ln\<lparr>ln_kv := kv'\<rparr>), r))"

definition Server_Import where
  "Server_Import env P n keys values net =
     (let (net', r) = LocalNode_Import env P n keys values net in (net', wrapped env r))"

definition RemoteNode_Import where
  "RemoteNode_Import env P net n keys values = tell env net n (Server_Import env P n keys values)"

definition VNode_Import where
  "VNode_Import env P net caller n keys values =
     (if n = caller then LocalNode_Import env P n keys values net
      else RemoteNode_Import env P net n keys values)"

definition remove_local :: "'kv KVProvider \<Rightarrow> 'kv chord_net \<Rightarrow> u64 \<Rightarrow> bytes list \<Rightarrow> 'kv chord_net" where
  "remove_local P net n keys =
     (case net_nodes net n of
        None \<Rightarrow> net
      | Some ln \<Rightarrow> set_node net n (ln\<lparr>ln_kv := fst (op_RemoveKeys P (ln_kv ln) keys)\<rparr>))"

definition transferKeysUpward :: "chord_env \<Rightarrow> 'kv KVProvider \<Rightarrow> 'kv chord_net \<Rightarrow> u64 \<Rightarrow> 'kv LocalNode \<Rightarrow>
    u64 option \<Rightarrow> u64 \<Rightarrow> 'kv chord_net \<times> (error + unit)" where
  "transferKeysUpward env P net n ln prevPredecessor newPredecessor =
     (if newPredecessor = ln_ID ln then (net, Inr ())
      else
        let low = (case prevPredecessor of None \<Rightarrow> ln_ID ln | Some p \<Rightarrow> p)
        in if \<not> Between low newPredecessor (ln_ID ln) False then (net, Inr ())
           else (case op_RangeKeys P (ln_kv ln) low newPredecessor of
                   Inl e \<Rightarrow> (net, Inl e)
                 | Inr keys \<Rightarrow>
                     if keys = [] then (net, Inr ())
                     else (case op_Export P (ln_kv ln) keys of
                             Inl e \<Rightarrow> (net, Inl e)
                           | Inr values \<Rightarrow>
                               (case VNode_Import env P net n newPredecessor keys (map Some values) of
                                  (net', Inl e) \<Rightarrow> (net', Inl e)
                                | (net', Inr _) \<Rightarrow> (remove_local P net' n keys, Inr ())))))"

definition transferKeysDownward :: "chord_env \<Rightarrow> 'kv KVProvider \<Rightarrow> 'kv chord_net \<Rightarrow> u64 \<Rightarrow> 'kv LocalNode \<Rightarrow>
    u64 \<Rightarrow> 'kv chord_net \<times> (error + unit)" where
  "transferKeysDownward env P net n ln successor =
     (case op_RangeKeys P (ln_kv ln) 0 0 of
        Inl e \<Rightarrow> (net, Inl e)
      | Inr keys \<Rightarrow>
          if keys = [] then (net, Inr ())
          else (case op_Export P (ln_kv ln) keys of
                  Inl e \<Rightarrow> (net, Inl e)
                | Inr values \<Rightarrow>
                    (case VNode_Import env P net n successor keys (map Some values) of
                       (net', Inl e) \<Rightarrow> (net', Inl (Wrapped ''storing KV to successor: '' e))
                     | (net', Inr _) \<Rightarrow> (remove_local P net' n keys, Inr ()))))"

subsection \<open>Listing the whole ring\<close>

definition LocalNode_ListKeys_direct :: "chord_env \<Rightarrow> 'kv KVProvider \<Rightarrow> u64 \<Rightarrow> bytes \<Rightarrow> 'kv chord_net \<Rightarrow>
    'kv chord_net \<times> (error + KeyComposite list)" where
  "LocalNode_ListKeys_direct env P n prefix net =
     (case net_nodes net n of
        None \<Rightarrow> (net, Inl (no_answer env))
      | Some ln \<Rightarrow>
          if Get (ln_state ln) \<noteq> Active then (count_stale net n ln, Inl (Chord ErrKVStaleOwnership))
          else (net, op_ListKeys P (ln_kv ln) prefix))"

definition Server_ListKeys where
  "Server_ListKeys env P n prefix net =
     (let (net', r) = LocalNode_ListKeys_direct env P n prefix net
      in (net', case r of Inl e \<Rightarrow> Inl (WrapErrorKV (env_twirp_text env) prefix e) | Inr ks \<Rightarrow> Inr ks))"

definition RemoteNode_ListKeys where
  "RemoteNode_ListKeys env P net n prefix = tell env net n (Server_ListKeys env P n prefix)"

definition VNode_ListKeys where
  "VNode_ListKeys env P net caller n prefix =
     (if n = caller then LocalNode_ListKeys_direct env P n prefix net
      else RemoteNode_ListKeys env P net n prefix)"

text \<open>The walk ends because every step meets a new node: there are finitely many identifiers.\<close>

function ring_walk :: "chord_env \<Rightarrow> 'kv chord_net \<Rightarrow> u64 \<Rightarrow> u64 \<Rightarrow> u64 list \<Rightarrow> error + u64 list" where
  "ring_walk env net n nxt nodes =
     (case FindSuccessor env net (env_hops env) n (ModuloSum nxt 1) of
        Inl e \<Rightarrow> Inl e
      | Inr m \<Rightarrow>
          if m = n then Inr (nodes @ [n])
          else if m \<in> set nodes then Inl (Opaque ''ring is unstable'')
          else ring_walk env net n m (nodes @ [m]))"
  by pat_completeness auto
termination
proof (relation "measure (\<lambda>(env, net, n, nxt, nodes). card (- set nodes))")
  fix n nxt m :: u64 and nodes :: "u64 list" and env :: chord_env and net :: "'kv chord_net"
  assume "m \<notin> set nodes"
  then have "- set (nodes @ [m]) \<subset> - set nodes" by auto
  then have "card (- set (nodes @ [m])) < card (- set nodes)" by (intro psubset_card_mono) auto
  then show "((env, net, n, m, nodes @ [m]), env, net, n, nxt, nodes)
      \<in> measure (\<lambda>(env, net, n, nxt, nodes). card (- set nodes))" by simp
qed simp

declare ring_walk.simps [simp del]

text \<open>The nodes are asked concurrently in the code; the order only matters for which error is
  reported when several nodes fail.\<close>

fun list_nodes :: "chord_env \<Rightarrow> 'kv KVProvider \<Rightarrow> u64 \<Rightarrow> bytes \<Rightarrow> u64 list \<Rightarrow> 'kv chord_net \<Rightarrow>
    'kv chord_net \<times> (error + KeyComposite list)" where
  "list_nodes env P n prefix [] net = (net, Inr [])"
| "list_nodes env P n prefix (m # ms) net =
     (let (net1, r) = VNode_ListKeys env P net n m prefix;
          (net2, rs) = list_nodes env P n prefix ms net1
      in (net2, case r of Inl e \<Rightarrow> Inl e
                | Inr ks \<Rightarrow> (case rs of Inl e \<Rightarrow> Inl e | Inr ks' \<Rightarrow> Inr (ks @ ks'))))"

definition LocalNode_ListKeys :: "chord_env \<Rightarrow> 'kv KVProvider \<Rightarrow> RequestTarget \<Rightarrow> u64 \<Rightarrow> bytes \<Rightarrow> 'kv chord_net \<Rightarrow>
    'kv chord_net \<times> (error + KeyComposite list)" where
  "LocalNode_ListKeys env P target n prefix net =
     (if target = KV_DIRECT_TARGET then LocalNode_ListKeys_direct env P n prefix net
      else case ring_walk env net n n [] of
        Inl e \<Rightarrow> (net, Inl e)
      | Inr nodes \<Rightarrow> list_nodes env P n prefix nodes net)"

end
