(* ===== verification/Chord_Tasks.thy ===== *)
theory Chord_Tasks
  imports Chord_KV
begin

text \<open>
  The maintenance tasks of a node (\<^verbatim>\<open>chord/local_tasks.go\<close>): stabilization of the successor list,
  repair of the finger table and the check of the predecessor. The periodic loops run them again
  and again; here each run is one call.
\<close>

text \<open>The hash of a successor list: the identifiers, eight big-endian bytes each, are streamed
  into \<^verbatim>\<open>xxh3\<close>.\<close>

definition list_hash :: "chord_env \<Rightarrow> u64 list \<Rightarrow> u64" where
  "list_hash env nodes = env_xxh3 env (concat (map be64 nodes))"

definition MakeSuccList :: "u64 \<Rightarrow> u64 list \<Rightarrow> u64 list" where
  "MakeSuccList immediate successors =
     MakeSuccListByID (\<lambda>n. n) immediate (map Some successors) ExtendedSuccessorEntries"

text \<open>The loop over the successor list: the first successor that answers both questions decides.\<close>

fun stabilize_loop :: "chord_env \<Rightarrow> 'kv chord_net \<Rightarrow> u64 \<Rightarrow> u64 list \<Rightarrow> u64 list option" where
  "stabilize_loop env net n [] = None"
| "stabilize_loop env net n (head # rest) =
     (case (GetPredecessor env net n head, GetSuccessors env net n head) of
        (Inr newSucc, Inr newSuccList) \<Rightarrow>
          let succList = MakeSuccList head newSuccList
          in Some (case newSucc of
                     None \<Rightarrow> succList
                   | Some ns \<Rightarrow>
                       if Between n ns head False
                       then (case GetSuccessors env net n ns of
                               Inr nsList \<Rightarrow> MakeSuccList ns nsList
                             | Inl _ \<Rightarrow> succList)
                       else succList)
      | _ \<Rightarrow> stabilize_loop env net n rest)"

definition updateSuccessorsList :: "u64 \<Rightarrow> u64 list \<Rightarrow> 'kv LocalNode \<Rightarrow> 'kv LocalNode" where
  "updateSuccessorsList listHash succList ln =
     ln\<lparr>ln_succListHash := listHash, ln_successors := succList\<rparr>"

definition stabilize :: "chord_env \<Rightarrow> u64 \<Rightarrow> 'kv chord_net \<Rightarrow> 'kv chord_net \<times> (error + unit)" where
  "stabilize env n net =
     (case net_nodes net n of
        None \<Rightarrow> (net, Inl (no_answer env))
      | Some ln \<Rightarrow>
          (case stabilize_loop env net (ln_ID ln) (ln_successors ln) of
             None \<Rightarrow> (net, Inl (Chord ErrNodeNoSuccessor))
           | Some succList \<Rightarrow>
               let listHash = list_hash env succList;
                   ln = (if ln_succListHash ln \<noteq> listHash
                         then updateSuccessorsList listHash succList ln else ln);
                   net = set_node net n ln
               in if checkNodeState ln True \<noteq> None then (net, Inr ())
                  else (case Notify env net n (hd succList) n of
                          (net', Inl e) \<Rightarrow>
                            (net', Inl (Wrapped (''notifying successor '' @ dec (unat (hd succList)) @ '': '') e))
                        | (net', Inr _) \<Rightarrow>
                            (case net_nodes net' n of
                               None \<Rightarrow> (net', Inr ())
                             | Some ln' \<Rightarrow>
                                 (set_node net' n (ln'\<lparr>ln_lastStabilized := net_now net'\<rparr>), Inr ())))))"

definition fixK :: "chord_env \<Rightarrow> u64 \<Rightarrow> nat \<Rightarrow> 'kv chord_net \<Rightarrow> 'kv chord_net \<times> (error + bool)" where
  "fixK env n k net =
     (case net_nodes net n of
        None \<Rightarrow> (net, Inl (no_answer env))
      | Some ln \<Rightarrow>
          (case FindSuccessor env net (env_hops env) n (ModuloSum (ln_ID ln) (push_bit (k - 1) 1)) of
             Inl e \<Rightarrow> (net, Inl e)
           | Inr f \<Rightarrow>
               if ln_fingers ln k = None \<or> ln_fingers ln k \<noteq> Some f
               then (set_node net n (ln\<lparr>ln_fingers := (ln_fingers ln)(k \<mapsto> f)\<rparr>), Inr True)
               else (net, Inr False)))"

fun fix_fingers :: "chord_env \<Rightarrow> u64 \<Rightarrow> nat list \<Rightarrow> 'kv chord_net \<Rightarrow> 'kv chord_net" where
  "fix_fingers env n [] net = net"
| "fix_fingers env n (k # ks) net = fix_fingers env n ks (fst (fixK env n k net))"

definition fixFinger :: "chord_env \<Rightarrow> u64 \<Rightarrow> 'kv chord_net \<Rightarrow> 'kv chord_net" where
  "fixFinger env n net = fix_fingers env n [1..<Suc MaxFingerEntries] net"

definition checkPredecessor :: "chord_env \<Rightarrow> u64 \<Rightarrow> 'kv chord_net \<Rightarrow> 'kv chord_net \<times> (error + unit)" where
  "checkPredecessor env n net =
     (case net_nodes net n of
        None \<Rightarrow> (net, Inl (no_answer env))
      | Some ln \<Rightarrow>
          (case ln_predecessor ln of
             None \<Rightarrow> (net, Inr ())
           | Some pre \<Rightarrow>
               if pre = ln_ID ln then (net, Inr ())
               else (case Ping env net n pre of
                       Inr _ \<Rightarrow> (net, Inr ())
                     | Inl e \<Rightarrow> (set_node net n (ln\<lparr>ln_predecessor := None\<rparr>), Inl e))))"

definition startTasks :: "chord_env \<Rightarrow> u64 \<Rightarrow> 'kv chord_net \<Rightarrow> 'kv chord_net" where
  "startTasks env n net = fixFinger env n (fst (stabilize env n net))"

end
