(* ===== verification/Chord_Membership.thy ===== *)
theory Chord_Membership
  imports Chord_Tasks
begin

text \<open>
  Joining and leaving the ring (\<^verbatim>\<open>chord/local_membership.go\<close>). The retry library is the argument
  \<open>retrier\<close>: it is given the number of attempts, the test for errors worth another attempt, the
  function to run and the network.
\<close>

definition maxAttempts :: nat where
  "maxAttempts = 10"

type_synonym ('s, 'a) retrier = "nat \<Rightarrow> (error \<Rightarrow> bool) \<Rightarrow> ('s \<Rightarrow> 's \<times> (error + 'a)) \<Rightarrow> 's \<Rightarrow> 's \<times> (error + 'a)"

text \<open>Documented behaviour of \<^verbatim>\<open>retry.Do\<close>: it runs the function until it succeeds, the error is not
  to be retried, or the attempts are used up, and returns the last result.\<close>

definition retries :: "('s, 'a) retrier \<Rightarrow> bool" where
  "retries retrier \<longleftrightarrow>
     (\<forall>n retryIf f s. retrier (Suc n) retryIf f s =
        (case f s of
           (s', Inr v) \<Rightarrow> (s', Inr v)
         | (s', Inl e) \<Rightarrow> if retryIf e \<and> n > 0 then retrier n retryIf f s' else (s', Inl e)))"

fun retry_Do :: "('s, 'a) retrier" where
  "retry_Do 0 retryIf f s = f s"
| "retry_Do (Suc n) retryIf f s =
     (case f s of
        (s', Inr v) \<Rightarrow> (s', Inr v)
      | (s', Inl e) \<Rightarrow> if retryIf e \<and> n > 0 then retry_Do n retryIf f s' else (s', Inl e))"

lemma retries_retry_Do: "retries retry_Do"
  by (simp add: retries_def)

lemma retries_first:
  assumes "retries retrier" "f s = (s', Inr v)" "0 < n"
  shows "retrier n retryIf f s = (s', Inr v)"
  using assms by (cases n) (simp_all add: retries_def)

definition set_state :: "'kv chord_net \<Rightarrow> u64 \<Rightarrow> State \<Rightarrow> 'kv chord_net" where
  "set_state net n st =
     (case net_nodes net n of
        None \<Rightarrow> net | Some ln \<Rightarrow> set_node net n (ln\<lparr>ln_state := state_set (ln_state ln) st\<rparr>))"

text \<open>A transition of the node's state, with the network after it and whether it succeeded.\<close>

definition transition :: "'kv chord_net \<Rightarrow> u64 \<Rightarrow> 'kv LocalNode \<Rightarrow> State \<Rightarrow> State \<Rightarrow> 'kv chord_net \<times> bool" where
  "transition net n ln exp nxt =
     (let (st', _, ok) = Transition (ln_state ln) exp nxt
      in (set_node net n (ln\<lparr>ln_state := st'\<rparr>), ok))"

definition Create :: "chord_env \<Rightarrow> u64 \<Rightarrow> 'kv chord_net \<Rightarrow> 'kv chord_net \<times> (error + unit)" where
  "Create env n net =
     (case net_nodes net n of
        None \<Rightarrow> (net, Inl (no_answer env))
      | Some ln \<Rightarrow>
          let (net1, ok) = transition net n ln Inactive Joining
          in if \<not> ok then (net1, Inl (Opaque ''node is not Inactive''))
             else
               (case net_nodes net1 n of
                  None \<Rightarrow> (net1, Inl (no_answer env))
                | Some ln1 \<Rightarrow>
                    let successors = MakeSuccList (ln_ID ln1) [];
                        ln2 = ln1\<lparr>ln_succListHash := list_hash env successors, ln_successors := successors,
                                  ln_fingers := (\<lambda>i. if 1 \<le> i \<and> i \<le> MaxFingerEntries
                                                     then Some (ln_ID ln1) else ln_fingers ln1 i)\<rparr>;
                        net2 = startTasks env n (set_node net1 n ln2)
                    in (set_state net2 n Active, Inr ())))"

subsection \<open>Joining\<close>

text \<open>The body of \<^verbatim>\<open>RequestToJoin\<close> at the node that owns the joiner's identifier.\<close>

definition accept_join :: "chord_env \<Rightarrow> 'kv KVProvider \<Rightarrow> u64 \<Rightarrow> u64 \<Rightarrow> 'kv LocalNode \<Rightarrow> 'kv chord_net \<Rightarrow>
    'kv chord_net \<times> (error + (u64 \<times> u64 list))" where
  "accept_join env P n joiner ln net =
     (let (net1, ok) = transition net n ln Active Transferring
      in if \<not> ok then (net1, Inl (Chord ErrJoinInvalidState))
         else (case ln_predecessor ln of
             None \<Rightarrow> (set_state net1 n Active, Inl (Chord ErrJoinInvalidState))
           | Some prevPredecessor \<Rightarrow>
               if \<not> Between prevPredecessor joiner (ln_ID ln) False
               then (set_state net1 n Active, Inl (Chord ErrJoinInvalidSuccessor))
               else (case transferKeysUpward env P net1 n ln (Some prevPredecessor) joiner of
                   (net2, Inl e) \<Rightarrow> (set_state net2 n Active, Inl (Chord ErrJoinTransferFailure))
                 | (net2, Inr _) \<Rightarrow>
                     (case net_nodes net2 n of
                        None \<Rightarrow> (net2, Inl (no_answer env))
                      | Some ln2 \<Rightarrow>
                          (set_node net2 n (ln2\<lparr>ln_surrogate := Some joiner, ln_predecessor := Some joiner\<rparr>),
                           Inr (prevPredecessor, MakeSuccList (ln_ID ln2) (ln_successors ln2)))))))"

fun RequestToJoin :: "chord_env \<Rightarrow> 'kv KVProvider \<Rightarrow> nat \<Rightarrow> u64 \<Rightarrow> u64 \<Rightarrow> 'kv chord_net \<Rightarrow>
    'kv chord_net \<times> (error + (u64 \<times> u64 list))" where
  "RequestToJoin env P 0 n joiner net = (net, Inl (no_answer env))"
| "RequestToJoin env P (Suc fuel) n joiner net =
     (case net_nodes net n of
        None \<Rightarrow> (net, Inl (no_answer env))
      | Some ln \<Rightarrow>
          (case FindSuccessor env net (env_hops env) n joiner of
             Inl e \<Rightarrow> (net, Inl e)
           | Inr succ \<Rightarrow>
               if succ = joiner then (net, Inl (Chord ErrDuplicateJoinerID))
               else if succ \<noteq> ln_ID ln
               then tell env net succ (\<lambda>net.
                      let (net', r) = RequestToJoin env P fuel succ joiner net in (net', wrapped env r))
               else accept_join env P n joiner ln net))"

definition Server_RequestToJoin where
  "Server_RequestToJoin env P fuel n joiner net =
     (let (net', r) = RequestToJoin env P fuel n joiner net in (net', wrapped env r))"

definition RemoteNode_RequestToJoin where
  "RemoteNode_RequestToJoin env P fuel net n joiner =
     tell env net n (Server_RequestToJoin env P fuel n joiner)"

lemma RequestToJoin_forward:
  "tell env net succ (\<lambda>net. let (net', r) = RequestToJoin env P fuel succ joiner net in (net', wrapped env r)) =
     RemoteNode_RequestToJoin env P fuel net succ joiner"
  by (simp add: RemoteNode_RequestToJoin_def Server_RequestToJoin_def[abs_def])

definition FinishJoin :: "chord_env \<Rightarrow> u64 \<Rightarrow> bool \<Rightarrow> bool \<Rightarrow> 'kv chord_net \<Rightarrow> 'kv chord_net \<times> (error + unit)" where
  "FinishJoin env n stab release net =
     (let net1 = (if stab then fixFinger env n (fst (stabilize env n net)) else net)
      in if \<not> release then (net1, Inr ())
         else (case net_nodes net1 n of
             None \<Rightarrow> (net1, Inl (no_answer env))
           | Some ln \<Rightarrow>
               let (net2, ok) = transition net1 n ln Transferring Active
               in (net2, if ok then Inr () else Inl (Chord ErrJoinInvalidState))))"

definition Server_FinishJoin where
  "Server_FinishJoin env n stab release net =
     (let (net', r) = FinishJoin env n stab release net in (net', wrapped env r))"

definition RemoteNode_FinishJoin where
  "RemoteNode_FinishJoin env net n stab release = tell env net n (Server_FinishJoin env n stab release)"

definition VNode_FinishJoin where
  "VNode_FinishJoin env net caller n stab release =
     (if n = caller then FinishJoin env n stab release net
      else RemoteNode_FinishJoin env net n stab release)"

text \<open>The peer is another node.\<close>

definition executeJoin :: "chord_env \<Rightarrow> 'kv KVProvider \<Rightarrow> ('kv chord_net, u64 \<times> u64 list) retrier \<Rightarrow> u64 \<Rightarrow> u64 \<Rightarrow>
    'kv chord_net \<Rightarrow> 'kv chord_net \<times> (error + (u64 \<times> u64 list))" where
  "executeJoin env P retrier n peer net =
     retrier maxAttempts ErrorIsRetryable
       (\<lambda>net. RemoteNode_RequestToJoin env P (env_hops env) net peer n) net"

definition Join :: "chord_env \<Rightarrow> 'kv KVProvider \<Rightarrow> ('kv chord_net, u64 \<times> u64 list) retrier \<Rightarrow> u64 \<Rightarrow> u64 \<Rightarrow>
    'kv chord_net \<Rightarrow> 'kv chord_net \<times> (error + unit)" where
  "Join env P retrier n peer net =
     (case net_nodes net n of
        None \<Rightarrow> (net, Inl (no_answer env))
      | Some ln \<Rightarrow>
          let (net1, ok) = transition net n ln Inactive Joining
          in if \<not> ok then (net1, Inl (Opaque ''node is not Inactive''))
             else (case executeJoin env P retrier n peer net1 of
                 (net2, Inl e) \<Rightarrow> (set_state net2 n Inactive, Inl e)
               | (net2, Inr (predecessor, successors)) \<Rightarrow>
                   (case net_nodes net2 n of
                      None \<Rightarrow> (net2, Inl (no_answer env))
                    | Some ln2 \<Rightarrow>
                        let ln3 = ln2\<lparr>ln_succListHash := list_hash env successors,
                                      ln_successors := successors, ln_predecessor := Some predecessor\<rparr>;
                            net3 = startTasks env n (set_node net2 n ln3);
                            net4 = fst (VNode_FinishJoin env net3 n predecessor True False);
                            net5 = set_state net4 n Active;
                            net6 = fst (VNode_FinishJoin env net5 n (hd successors) False True)
                        in (net6, Inr ()))))"

subsection \<open>Leaving\<close>

definition RequestToLeave :: "chord_env \<Rightarrow> u64 \<Rightarrow> 'kv chord_net \<Rightarrow> 'kv chord_net \<times> (error + unit)" where
  "RequestToLeave env n net =
     (case net_nodes net n of
        None \<Rightarrow> (net, Inl (no_answer env))
      | Some ln \<Rightarrow>
          let (net', ok) = transition net n ln Active Transferring
          in (net', if ok then Inr () else Inl (Chord ErrLeaveInvalidState)))"

definition Server_RequestToLeave where
  "Server_RequestToLeave env n net = (let (net', r) = RequestToLeave env n net in (net', wrapped env r))"

definition RemoteNode_RequestToLeave where
  "RemoteNode_RequestToLeave env net n = tell env net n (Server_RequestToLeave env n)"

definition VNode_RequestToLeave where
  "VNode_RequestToLeave env net caller n =
     (if n = caller then RequestToLeave env n net else RemoteNode_RequestToLeave env net n)"

definition FinishLeave :: "chord_env \<Rightarrow> u64 \<Rightarrow> bool \<Rightarrow> bool \<Rightarrow> 'kv chord_net \<Rightarrow> 'kv chord_net \<times> (error + unit)" where
  "FinishLeave env n stab release net =
     (let net1 = (if stab then fixFinger env n (fst (stabilize env n net)) else net)
      in if \<not> release then (net1, Inr ())
         else (case net_nodes net1 n of
             None \<Rightarrow> (net1, Inl (no_answer env))
           | Some ln \<Rightarrow>
               let (net2, ok) = transition net1 n ln Transferring Active
               in (net2, if ok then Inr () else Inl (Chord ErrLeaveInvalidState))))"

definition Server_FinishLeave where
  "Server_FinishLeave env n stab release net =
     (let (net', r) = FinishLeave env n stab release net in (net', wrapped env r))"

definition RemoteNode_FinishLeave where
  "RemoteNode_FinishLeave env net n stab release = tell env net n (Server_FinishLeave env n stab release)"

definition VNode_FinishLeave where
  "VNode_FinishLeave env net caller n stab release =
     (if n = caller then FinishLeave env n stab release net
      else RemoteNode_FinishLeave env net n stab release)"

text \<open>
  \<^verbatim>\<open>executeLeave\<close> takes the leave lock of the node and of its successor, the one with the larger
  identifier first, so that two neighbours that leave at once do not wait for each other.
\<close>

definition leave_locks :: "chord_env \<Rightarrow> u64 \<Rightarrow> 'kv LocalNode \<Rightarrow> u64 \<Rightarrow> 'kv chord_net \<Rightarrow>
    'kv chord_net \<times> (error + unit)" where
  "leave_locks env n ln succ net =
     (if ln_ID ln > succ
      then (case VNode_RequestToLeave env net n succ of
              (net1, Inl e) \<Rightarrow> (net1, Inl e)
            | (net1, Inr _) \<Rightarrow>
                (case net_nodes net1 n of
                   None \<Rightarrow> (net1, Inl (no_answer env))
                 | Some ln1 \<Rightarrow>
                     let (net2, ok) = transition net1 n ln1 Active Leaving
                     in if ok then (net2, Inr ())
                        else (fst (VNode_FinishLeave env net2 n succ False True),
                              Inl (Chord ErrLeaveInvalidState))))
      else
        let (net1, ok) = transition net n ln Active Leaving
        in if \<not> ok then (net1, Inl (Chord ErrLeaveInvalidState))
           else (case VNode_RequestToLeave env net1 n succ of
                   (net2, Inl e) \<Rightarrow> (set_state net2 n Active, Inl e)
                 | (net2, Inr _) \<Rightarrow> (net2, Inr ())))"

definition executeLeave :: "chord_env \<Rightarrow> 'kv KVProvider \<Rightarrow> u64 \<Rightarrow> 'kv chord_net \<Rightarrow>
    'kv chord_net \<times> (error + (u64 \<times> u64))" where
  "executeLeave env P n net =
     (case net_nodes net n of
        None \<Rightarrow> (net, Inl (no_answer env))
      | Some ln \<Rightarrow>
          (case ln_predecessor ln of
             None \<Rightarrow> (net, Inl (Opaque ''retrying on nil predecessor''))
           | Some pre \<Rightarrow>
               (case getSuccessor ln of
                  None \<Rightarrow> (net, Inl (Chord ErrNodeNoSuccessor))
                | Some succ \<Rightarrow>
                    if pre = ln_ID ln \<and> succ = ln_ID ln then (net, Inr (pre, succ))
                    else (case leave_locks env n ln succ net of
                        (net1, Inl e) \<Rightarrow> (net1, Inl e)
                      | (net1, Inr _) \<Rightarrow>
                          (case net_nodes net1 n of
                             None \<Rightarrow> (net1, Inl (no_answer env))
                           | Some ln1 \<Rightarrow>
                               (case transferKeysDownward env P net1 n ln1 succ of
                                  (net2, Inl e) \<Rightarrow>
                                    (fst (VNode_FinishLeave env (set_state net2 n Active) n succ False True),
                                     Inl e)
                                | (net2, Inr _) \<Rightarrow>
                                    (case net_nodes net2 n of
                                       None \<Rightarrow> (net2, Inl (no_answer env))
                                     | Some ln2 \<Rightarrow>
                                         (set_node net2 n (ln2\<lparr>ln_surrogate := Some (ln_ID ln2)\<rparr>),
                                          Inr (pre, succ)))))))))"

text \<open>\<^verbatim>\<open>Leave\<close> retries every error, and tells nobody when the attempts are used up.\<close>

definition Leave :: "chord_env \<Rightarrow> 'kv KVProvider \<Rightarrow> ('kv chord_net, u64 \<times> u64) retrier \<Rightarrow> u64 \<Rightarrow>
    'kv chord_net \<Rightarrow> 'kv chord_net" where
  "Leave env P retrier n net =
     (case net_nodes net n of
        None \<Rightarrow> net
      | Some ln \<Rightarrow>
          if Get (ln_state ln) \<in> {Inactive, Leaving, Left} then net
          else (case retrier maxAttempts (\<lambda>_. True) (executeLeave env P n) net of
              (net1, Inl e) \<Rightarrow> net1
            | (net1, Inr (pre, succ)) \<Rightarrow>
                let net2 = (if pre \<noteq> ln_ID ln then fst (VNode_FinishLeave env net1 n pre True False) else net1);
                    net3 = set_state net2 n Left
                in if succ \<noteq> ln_ID ln then fst (VNode_FinishLeave env net3 n succ False True) else net3))"

end
