(* ===== verification/Chord_Invariant.thy ===== *)
theory Chord_Invariant
  imports Chord_Geometry Chord_Membership
begin

text \<open>
  The invariant of a ring at rest and its preservation by the maintenance tasks. \<open>R\<close> is the set of
  members and \<open>U\<close> the set of all identifiers that were ever members: the pointers of a member name
  members or departed nodes, its neighbours are the right ones, and the departed nodes answer
  nothing.
\<close>

definition departing :: "'kv LocalNode \<Rightarrow> bool" where
  "departing ln \<longleftrightarrow> Get (ln_state ln) \<in> {Leaving, Left}"

definition pointers_ok :: "chord_env \<Rightarrow> u64 set \<Rightarrow> u64 set \<Rightarrow> u64 option \<Rightarrow> u64 \<Rightarrow> 'kv LocalNode \<Rightarrow> bool" where
  "pointers_ok env U R stale n ln \<longleftrightarrow> ln_ID ln = n \<and>
     (\<exists>s. getSuccessor ln = Some s \<and> (case stale of None \<Rightarrow> adjacent R n s | Some s' \<Rightarrow> s = s')) \<and>
     (\<exists>p. ln_predecessor ln = Some p \<and> adjacent R p n \<and>
        (ln_surrogate ln = None \<or> p \<noteq> n \<and> ln_surrogate ln = Some p \<or> departing ln)) \<and>
     ln_succListHash ln = list_hash env (ln_successors ln) \<and>
     set (ln_successors ln) \<subseteq> U \<and> length (ln_successors ln) \<le> ExtendedSuccessorEntries \<and>
     fingers_within (\<lambda>f. f \<in> U) ln"

text \<open>A ring on the way to rest: \<open>states\<close> gives the state of each member, and \<open>stale\<close> the successor of
  the members that still have to learn theirs.\<close>

definition ring_state :: "chord_env \<Rightarrow> u64 set \<Rightarrow> u64 set \<Rightarrow> (u64 \<Rightarrow> State) \<Rightarrow> (u64 \<Rightarrow> u64 option) \<Rightarrow> 'kv chord_net \<Rightarrow> bool" where
  "ring_state env U R states stale net \<longleftrightarrow> finite R \<and> R \<noteq> {} \<and> R \<subseteq> U \<and> (\<forall>u \<in> U. on_ring u) \<and>
     (\<forall>u \<in> U - R. gone net u) \<and>
     (\<forall>n \<in> R. \<exists>ln. net_nodes net n = Some ln \<and> Get (ln_state ln) = states n \<and>
        pointers_ok env U R (stale n) n ln)"

text \<open>A ring at rest.\<close>

definition ring_core :: "chord_env \<Rightarrow> u64 set \<Rightarrow> u64 set \<Rightarrow> 'kv chord_net \<Rightarrow> bool" where
  "ring_core env U R net \<longleftrightarrow> ring_state env U R (\<lambda>_. Active) (\<lambda>_. None) net"

definition answers :: "State \<Rightarrow> bool" where
  "answers st \<longleftrightarrow> st \<in> {Active, Joining, Transferring, Leaving}"

lemma checkNodeState_simps:
  "Get (ln_state ln) = Active \<Longrightarrow> checkNodeState ln b = None"
  "Get (ln_state ln) = Joining \<Longrightarrow> checkNodeState ln b = None"
  "Get (ln_state ln) = Transferring \<Longrightarrow> checkNodeState ln b = None"
  "Get (ln_state ln) = Leaving \<Longrightarrow> checkNodeState ln False = None"
  "Get (ln_state ln) = Leaving \<Longrightarrow> checkNodeState ln True \<noteq> None"
  "Get (ln_state ln) = Left \<Longrightarrow> checkNodeState ln b \<noteq> None"
  "Get (ln_state ln) = Inactive \<Longrightarrow> checkNodeState ln b \<noteq> None"
  by (simp_all add: checkNodeState_def)

lemma checkNodeState_update [simp]:
  "checkNodeState (ln\<lparr>ln_fingers := a\<rparr>) = checkNodeState ln"
  "checkNodeState (ln\<lparr>ln_kv := b\<rparr>) = checkNodeState ln"
  "checkNodeState (ln\<lparr>ln_lastStabilized := c\<rparr>) = checkNodeState ln"
  "checkNodeState (ln\<lparr>ln_successors := d\<rparr>) = checkNodeState ln"
  "checkNodeState (ln\<lparr>ln_succListHash := e\<rparr>) = checkNodeState ln"
  "checkNodeState (ln\<lparr>ln_predecessor := f\<rparr>) = checkNodeState ln"
  "checkNodeState (ln\<lparr>ln_surrogate := g\<rparr>) = checkNodeState ln"
  "checkNodeState (ln\<lparr>ln_kvStaleCount := h\<rparr>) = checkNodeState ln"
  by (simp_all add: checkNodeState_def fun_eq_iff)

lemma MakeSuccList_props:
  "\<exists>ys. MakeSuccList h l = h # ys" "set (MakeSuccList h l) \<subseteq> insert h (set l)"
  "length (MakeSuccList h l) \<le> ExtendedSuccessorEntries"
proof -
  show "\<exists>ys. MakeSuccList h l = h # ys" unfolding MakeSuccList_def by (rule MakeSuccListByID_hd)
  show "set (MakeSuccList h l) \<subseteq> insert h (set l)"
    unfolding MakeSuccList_def using MakeSuccListByID_subset by fastforce
  show "length (MakeSuccList h l) \<le> ExtendedSuccessorEntries"
    unfolding MakeSuccList_def MakeSuccListByID_def
    using succ_list_loop_length[of "\<lambda>n. n" ExtendedSuccessorEntries "[h]" "[h]" "map Some l"]
    by (simp add: ExtendedSuccessorEntries_def)
qed

lemma hd_MakeSuccList [simp]: "hd (MakeSuccList h l) = h"
  using MakeSuccList_props(1)[of h l] by auto

lemma MakeSuccList_not_Nil [simp]: "MakeSuccList h l \<noteq> []"
  using MakeSuccList_props(1)[of h l] by auto

lemma getSuccessor_eq: "getSuccessor ln = Some s \<longleftrightarrow> (\<exists>rest. ln_successors ln = s # rest)"
  by (auto simp: getSuccessor_def split: list.splits)

lemma getSuccessor_hd: "ln_successors ln \<noteq> [] \<Longrightarrow> getSuccessor ln = Some (hd (ln_successors ln))"
  by (cases "ln_successors ln") (simp_all add: getSuccessor_def)

lemma answers_simps [simp]: "answers Active" "answers Joining" "answers Transferring" "answers Leaving"
  by (simp_all add: answers_def)

lemma answers_check: "answers (Get (ln_state ln)) \<Longrightarrow> checkNodeState ln False = None"
  by (auto simp: answers_def checkNodeState_simps)

subsection \<open>Reading the invariant\<close>

lemma ring_stateD:
  assumes "ring_state env U R states stale net"
  shows "finite R" "R \<noteq> {}" "R \<subseteq> U" "u \<in> U \<Longrightarrow> on_ring u" "r \<in> R \<Longrightarrow> on_ring r"
    "u \<in> U \<Longrightarrow> u \<notin> R \<Longrightarrow> gone net u"
  using assms by (auto simp: ring_state_def)

lemmas ring_coreD = ring_stateD[where states = "\<lambda>_. Active" and stale = "\<lambda>_. None", folded ring_core_def]

lemma ring_state_node:
  assumes "ring_state env U R states stale net" "n \<in> R"
  obtains ln p s rest where "net_nodes net n = Some ln" "Get (ln_state ln) = states n"
    "pointers_ok env U R (stale n) n ln" "ln_ID ln = n" "ln_successors ln = s # rest"
    "(case stale n of None \<Rightarrow> adjacent R n s | Some s' \<Rightarrow> s = s')"
    "ln_predecessor ln = Some p" "adjacent R p n"
  using assms by (fastforce simp: ring_state_def pointers_ok_def getSuccessor_eq)

lemma ring_state_known:
  assumes "ring_state env U R states stale net" "n \<in> R" "stale n = None"
  obtains ln p s rest where "net_nodes net n = Some ln" "Get (ln_state ln) = states n"
    "pointers_ok env U R None n ln" "ln_ID ln = n" "ln_successors ln = s # rest" "adjacent R n s"
    "ln_predecessor ln = Some p" "adjacent R p n"
  by (rule ring_state_node[OF assms(1,2)]) (use assms(3) that in auto)

lemma ring_state_stale:
  assumes "ring_state env U R states stale net" "n \<in> R" "stale n = Some s"
  obtains ln p rest where "net_nodes net n = Some ln" "Get (ln_state ln) = states n"
    "pointers_ok env U R (Some s) n ln" "ln_ID ln = n" "ln_successors ln = s # rest"
    "ln_predecessor ln = Some p" "adjacent R p n"
  by (rule ring_state_node[OF assms(1,2)]) (use assms(3) that in auto)

lemma ring_core_node:
  assumes "ring_core env U R net" "n \<in> R"
  obtains ln p s rest where "net_nodes net n = Some ln" "Get (ln_state ln) = Active" "pointers_ok env U R None n ln"
    "ln_ID ln = n" "ln_successors ln = s # rest" "adjacent R n s"
    "ln_predecessor ln = Some p" "adjacent R p n"
  by (rule ring_state_known[OF assms(1)[unfolded ring_core_def] assms(2) refl]) (rule that)

lemma ring_core_member_ok:
  assumes core: "ring_core env U R net"
  shows "ring_ok R net"
  unfolding ring_ok_def
proof (intro conjI ballI)
  fix n assume "n \<in> R"
  then obtain ln p s rest where "net_nodes net n = Some ln" "Get (ln_state ln) = Active" "ln_ID ln = n"
    "ln_successors ln = s # rest" "adjacent R n s" "ln_predecessor ln = Some p" "adjacent R p n"
    using ring_core_node[OF core] by metis
  then show "case net_nodes net n of None \<Rightarrow> False | Some ln \<Rightarrow> member_ok R n ln"
    by (simp add: member_ok_def getSuccessor_def checkNodeState_simps)
qed (use ring_coreD[OF core] in auto)

lemma ring_state_fingers:
  assumes ring: "ring_state env U R states stale net" and n: "n \<in> R" and ln: "net_nodes net n = Some ln"
  shows "fingers_within (\<lambda>f. f \<in> R \<or> gone net f) ln"
proof -
  have "fingers_within (\<lambda>f. f \<in> U) ln" using ring_state_node[OF ring n] ln by (metis option.inject pointers_ok_def)
  then show ?thesis using ring_stateD(6)[OF ring] unfolding fingers_within_def by (fastforce split: option.splits)
qed

lemma ring_core_fingers:
  assumes core: "ring_core env U R net"
  shows "fingers_known R net"
  using ring_state_fingers[OF core[unfolded ring_core_def]] by (auto simp: fingers_known_def)

lemma ring_core_lookup:
  assumes "ring_core env U R net" "n \<in> R" "on_ring key" "FindSuccessor env' net hops n key = Inr s"
  shows "is_owner R key s"
  using lookup_safe[OF ring_ok_known[OF ring_core_member_ok[OF assms(1)]] ring_core_fingers[OF assms(1)] assms(3,2,4)] .

text \<open>Replacing a member's node by one that satisfies the invariant.\<close>

lemma gone_set_node: "gone net u \<Longrightarrow> u \<noteq> n \<Longrightarrow> gone (set_node net n ln) u"
  by (simp add: gone_def)

lemma ring_state_update:
  assumes "ring_state env U R states stale net" "n \<in> R" "pointers_ok env U R stale' n ln"
  shows "ring_state env U R (states(n := Get (ln_state ln))) (stale(n := stale')) (set_node net n ln)"
  unfolding ring_state_def
proof (intro conjI ballI)
  fix u assume "u \<in> U - R"
  then show "gone (set_node net n ln) u" using assms(1,2) by (intro gone_set_node) (auto simp: ring_state_def)
next
  fix m assume "m \<in> R"
  then show "\<exists>ln'. net_nodes (set_node net n ln) m = Some ln' \<and>
      Get (ln_state ln') = (states(n := Get (ln_state ln))) m \<and>
      pointers_ok env U R ((stale(n := stale')) m) m ln'"
    using assms by (cases "m = n") (auto simp: ring_state_def)
qed (use ring_stateD[OF assms(1)] in auto)

lemma ring_core_update:
  assumes "ring_core env U R net" "n \<in> R" "Get (ln_state ln) = Active" "pointers_ok env U R None n ln"
  shows "ring_core env U R (set_node net n ln)"
  using ring_state_update[OF assms(1)[unfolded ring_core_def] assms(2,4)] assms(3)
  by (simp add: ring_core_def fun_upd_idem)

lemma ring_state_now [simp]:
  "ring_state env U R states stale (net\<lparr>net_now := t\<rparr>) = ring_state env U R states stale net"
  by (simp add: ring_state_def gone_def)

lemma ring_core_now [simp]: "ring_core env U R (net\<lparr>net_now := t\<rparr>) = ring_core env U R net"
  by (simp add: ring_core_def)

text \<open>Nodes outside the ring do not matter.\<close>

lemma ring_state_frame:
  assumes "n \<notin> U"
  shows "ring_state env U R states stale (set_node net n ln) = ring_state env U R states stale net"
proof -
  have "u \<in> U \<Longrightarrow> gone (set_node net n ln) u = gone net u" for u using assms by (auto simp: gone_def)
  moreover have "R \<subseteq> U \<Longrightarrow> u \<in> R \<Longrightarrow> net_nodes (set_node net n ln) u = net_nodes net u" for u
    using assms by auto
  ultimately show ?thesis unfolding ring_state_def by (auto cong: conj_cong)
qed

lemma pointers_ok_update [simp]:
  "pointers_ok env U R st n (ln\<lparr>ln_kv := a\<rparr>) = pointers_ok env U R st n ln"
  "pointers_ok env U R st n (ln\<lparr>ln_lastStabilized := b\<rparr>) = pointers_ok env U R st n ln"
  "pointers_ok env U R st n (ln\<lparr>ln_kvStaleCount := c\<rparr>) = pointers_ok env U R st n ln"
  by (simp_all add: pointers_ok_def getSuccessor_def fingers_within_def departing_def)

lemma pointers_ok_state:
  "pointers_ok env U R st n ln \<Longrightarrow> (departing ln \<Longrightarrow> Get d \<in> {Leaving, Left}) \<Longrightarrow>
   pointers_ok env U R st n (ln\<lparr>ln_state := d\<rparr>)"
  by (auto simp: pointers_ok_def getSuccessor_def fingers_within_def departing_def)

lemma pointers_ok_successors:
  assumes "pointers_ok env U R st n ln" "adjacent R n s" "set (s # rest) \<subseteq> U"
    "length (s # rest) \<le> ExtendedSuccessorEntries"
  shows "pointers_ok env U R None n (updateSuccessorsList (list_hash env (s # rest)) (s # rest) ln)"
  using assms
  by (simp add: pointers_ok_def getSuccessor_def updateSuccessorsList_def fingers_within_def departing_def)

subsection \<open>Notification\<close>

lemma Notify_eq:
  assumes "net_nodes net t = Some lt"
  shows "fst (Notify env net caller t n) = fst (LocalNode_Notify env t n net)"
    "is_ok (snd (Notify env net caller t n)) = is_ok (snd (LocalNode_Notify env t n net))"
  using assms by (auto simp: Notify_def RemoteNode_Notify_def tell_def Server_Notify_def case_prod_beta)

lemma Notify_is:
  assumes "net_nodes net t = Some lt" "LocalNode_Notify env t n net = (net', Inr ())"
  shows "Notify env net caller t n = (net', Inr ())"
  using Notify_eq[OF assms(1), of env caller n] assms(2)
  by (auto simp: prod_eq_iff is_ok_def split: sum.splits)

lemma Notify_same:
  assumes "net_nodes net t = Some lt" "checkNodeState lt False = None" "ln_predecessor lt = Some n"
  shows "Notify env net caller t n = (net, Inr ())"
  by (rule Notify_is[OF assms(1)]) (simp add: LocalNode_Notify_def assms)

lemma Notify_replace:
  assumes "net_nodes net t = Some lt" "checkNodeState lt False = None"
    "ln_predecessor lt = None \<or> (\<exists>q. ln_predecessor lt = Some q \<and> q \<noteq> n \<and> \<not> is_ok (Ping env net t q))"
  shows "Notify env net caller t n =
    (set_node net t (lt\<lparr>ln_surrogate := (if n = ln_ID lt then None else Some n), ln_predecessor := Some n\<rparr>),
     Inr ())"
  by (rule Notify_is[OF assms(1)]) (use assms in \<open>auto simp: LocalNode_Notify_def\<close>)

subsection \<open>Stabilization\<close>

lemma stabilize_loop_head:
  assumes "GetPredecessor env net n h = Inr x" "GetSuccessors env net n h = Inr l"
  shows "stabilize_loop env net n (h # rest) =
    Some (case x of
        None \<Rightarrow> MakeSuccList h l
      | Some ns \<Rightarrow> if Between n ns h False
          then (case GetSuccessors env net n ns of Inr l' \<Rightarrow> MakeSuccList ns l' | Inl _ \<Rightarrow> MakeSuccList h l)
          else MakeSuccList h l)"
  using assms by (simp add: Let_def)

lemma stabilize_loop_skip:
  assumes "gone net h"
  shows "stabilize_loop env net n (h # rest) = stabilize_loop env net n rest"
proof -
  have "\<And>p. GetPredecessor env net n h \<noteq> Inr p"
    using assms by (auto simp: GetPredecessor_Inr gone_def)
  then show ?thesis by (cases "GetPredecessor env net n h") auto
qed

text \<open>What \<^verbatim>\<open>stabilize\<close> makes of the node before it notifies the new head.\<close>

definition adopt :: "chord_env \<Rightarrow> u64 list \<Rightarrow> 'kv LocalNode \<Rightarrow> 'kv LocalNode" where
  "adopt env sl ln =
     (if ln_succListHash ln \<noteq> list_hash env sl then updateSuccessorsList (list_hash env sl) sl ln else ln)"

lemma adopt_simps [simp]:
  "ln_ID (adopt env sl ln) = ln_ID ln" "ln_predecessor (adopt env sl ln) = ln_predecessor ln"
  "ln_surrogate (adopt env sl ln) = ln_surrogate ln" "ln_kv (adopt env sl ln) = ln_kv ln"
  "ln_state (adopt env sl ln) = ln_state ln" "ln_fingers (adopt env sl ln) = ln_fingers ln"
  "checkNodeState (adopt env sl ln) = checkNodeState ln"
  by (simp_all add: adopt_def updateSuccessorsList_def)

lemma stabilize_eq:
  assumes "net_nodes net n = Some ln" "ln_ID ln = n" "checkNodeState ln True = None"
    and "stabilize_loop env net n (ln_successors ln) = Some sl"
    and "Notify env (set_node net n (adopt env sl ln)) n (hd sl) n = (net', Inr ())"
    and "net_nodes net' n = Some ln'"
  shows "stabilize env n net = (set_node net' n (ln'\<lparr>ln_lastStabilized := net_now net'\<rparr>), Inr ())"
proof -
  have "checkNodeState (adopt env sl ln) True = None" using assms(3) by simp
  with assms show ?thesis unfolding stabilize_def adopt_def
    by (simp add: Let_def split: unit.splits del: stabilize_loop.simps)
qed

lemma fingers_within_adopt [simp]: "fingers_within P (adopt env sl ln) = fingers_within P ln"
  by (simp add: fingers_within_def)

lemma pointers_ok_adopt:
  assumes ok: "pointers_ok env U R None n ln" and adj: "adjacent R n s" and sl: "set (s # rest) \<subseteq> U"
    "length (s # rest) \<le> ExtendedSuccessorEntries"
  shows "pointers_ok env U R None n (adopt env (s # rest) ln)"
  using ok pointers_ok_successors[OF ok adj sl] by (simp add: adopt_def)

lemma set_node_set_node [simp]: "set_node (set_node net n a) n b = set_node net n b"
  by (simp add: set_node_def)

lemma set_node_same: "net_nodes net n = Some ln \<Longrightarrow> set_node net n ln = net"
  by (simp add: set_node_def map_upd_triv)

text \<open>A node whose successor answers and has it as predecessor keeps its successor.\<close>

lemma stabilize_keeps:
  assumes ln: "net_nodes net n = Some ln" "ln_ID ln = n" "checkNodeState ln True = None" "ln_successors ln = s # rest"
    and ls: "net_nodes net s = Some ls" "checkNodeState ls False = None" "ln_predecessor ls = Some n" and n: "on_ring n"
  shows "stabilize env n net =
    (set_node net n ((adopt env (MakeSuccList s (ln_successors ls)) ln)\<lparr>ln_lastStabilized := net_now net\<rparr>), Inr ())"
proof -
  let ?sl = "MakeSuccList s (ln_successors ls)"
  have "GetPredecessor env net n s = Inr (Some n)" "GetSuccessors env net n s = Inr (ln_successors ls)"
    using ls by (simp_all add: GetPredecessor_Inr GetSuccessors_Inr)
  note head = stabilize_loop_head[OF this, of rest]
  have "\<not> Between n n s False" using Between_not_low[OF n] by blast
  with head have loop: "stabilize_loop env net n (ln_successors ln) = Some ?sl" unfolding ln(4) by simp
  have "\<exists>l. net_nodes (set_node net n (adopt env ?sl ln)) s = Some l \<and> checkNodeState l False = None \<and>
      ln_predecessor l = Some n"
    using ls ln by (cases "s = n") simp_all
  then have "Notify env (set_node net n (adopt env ?sl ln)) n (hd ?sl) n = (set_node net n (adopt env ?sl ln), Inr ())"
    using Notify_same by fastforce
  then show ?thesis using stabilize_eq[OF ln(1-3) loop] by simp
qed

text \<open>A member that knows its successor keeps it.\<close>

lemma stabilize_rest:
  assumes state: "ring_state env U R states stale net" and n: "n \<in> R" "stale n = None"
    and up: "\<And>m. m \<in> R \<Longrightarrow> answers (states m)" "states n \<noteq> Leaving"
  obtains ln s ls ln' where "net_nodes net n = Some ln" "adjacent R n s" "net_nodes net s = Some ls"
    "ln' = (adopt env (MakeSuccList s (ln_successors ls)) ln)\<lparr>ln_lastStabilized := net_now net\<rparr>"
    "stabilize env n net = (set_node net n ln', Inr ())" "ring_state env U R states stale (set_node net n ln')"
proof -
  note ring = ring_stateD(5)[OF state]
  obtain ln s rest where ln: "net_nodes net n = Some ln" "Get (ln_state ln) = states n" "pointers_ok env U R None n ln"
    "ln_ID ln = n" "ln_successors ln = s # rest" "adjacent R n s"
    using ring_state_known[OF state n] by metis
  have sR: "s \<in> R" using ln(6) by (simp add: adjacent_def)
  obtain ls q t rest' where ls: "net_nodes net s = Some ls" "Get (ln_state ls) = states s"
    "pointers_ok env U R (stale s) s ls" "ln_successors ls = t # rest'" "ln_predecessor ls = Some q" "adjacent R q s"
    using ring_state_node[OF state sR] by metis
  have q: "q = n" using adjacent_pred_unique[OF ring ls(6) ln(6)] by blast
  have chk: "checkNodeState ls False = None" using answers_check up(1)[OF sR] ls(2) by metis
  let ?sl = "MakeSuccList s (t # rest')" and ?ln = "adopt env (MakeSuccList s (t # rest')) ln"
  obtain ys where ys: "?sl = s # ys" using MakeSuccList_props(1) by blast
  have "set ?sl \<subseteq> U" using MakeSuccList_props(2)[of s "t # rest'"] ls(3,4) sR ring_stateD(3)[OF state]
    by (auto simp: pointers_ok_def)
  then have ok: "pointers_ok env U R None n ?ln"
    unfolding ys using MakeSuccList_props(3)[of s "t # rest'"] ys
    by (intro pointers_ok_adopt[OF ln(3,6)]) simp_all
  have "checkNodeState ln True = None"
    using up(1)[OF n(1)] up(2) ln(2) by (auto simp: answers_def checkNodeState_simps)
  from stabilize_keeps[OF ln(1,4) this ln(5) ls(1) chk ls(5)[unfolded q] ring[OF n(1)], of env]
  have st: "stabilize env n net = (set_node net n (?ln\<lparr>ln_lastStabilized := net_now net\<rparr>), Inr ())"
    unfolding ls(4) .
  have "ring_state env U R states stale (set_node net n (?ln\<lparr>ln_lastStabilized := net_now net\<rparr>))"
    using ring_state_update[OF state n(1), of None "?ln\<lparr>ln_lastStabilized := net_now net\<rparr>"] ln(2) ok n(2)
    by (simp add: fun_upd_idem)
  with st ln(1,6) ls(1,4) show thesis using that[of ln s ls] by simp
qed

lemma stabilize_core:
  assumes "ring_core env U R net" "n \<in> R"
  shows "ring_core env U R (fst (stabilize env n net)) \<and> snd (stabilize env n net) = Inr ()"
  by (rule stabilize_rest[OF assms(1)[unfolded ring_core_def] assms(2)]) (simp_all add: ring_core_def)

subsection \<open>Finger repair\<close>

text \<open>A set of nodes whose successors stay inside it, and whose fingers do too or name departed
  nodes, is closed under lookups.\<close>

definition closed_net :: "u64 set \<Rightarrow> 'kv chord_net \<Rightarrow> bool" where
  "closed_net S net \<longleftrightarrow>
     (\<forall>n \<in> S. \<exists>ln. net_nodes net n = Some ln \<and> ln_ID ln = n \<and>
        (\<forall>s. getSuccessor ln = Some s \<longrightarrow> s \<in> S) \<and> fingers_within (\<lambda>f. f \<in> S \<or> gone net f) ln)"

lemma closed_netE:
  assumes "closed_net S net" "n \<in> S"
  obtains ln where "net_nodes net n = Some ln" "ln_ID ln = n" "\<And>s. getSuccessor ln = Some s \<Longrightarrow> s \<in> S"
    "fingers_within (\<lambda>f. f \<in> S \<or> gone net f) ln"
  using assms by (auto simp: closed_net_def)

lemma FindSuccessor_InrE:
  assumes "FindSuccessor env net (Suc hops) n key = Inr r" "net_nodes net n = Some ln" "ln_ID ln = n"
  obtains "r = n" | "getSuccessor ln = Some r"
    | s where "getSuccessor ln = Some s" "FindSuccessor env net hops (next_hop ln s key) key = Inr r"
proof (cases "getSuccessor ln")
  case None
  then have "r = n" using assms by (simp split: option.splits if_splits)
  then show thesis by (rule that)
next
  case (Some s)
  have "r = n \<or> r = s \<or>
      lookup_reply env net n (next_hop ln s key) (FindSuccessor env net hops (next_hop ln s key) key) = Inr r"
    using assms Some by (simp add: next_hop_def Let_def split: option.splits if_splits)
  then show thesis using that Some lookup_reply_eq_Inr by metis
qed

lemma closed_lookup:
  assumes "closed_net S net"
  shows "n \<in> S \<Longrightarrow> FindSuccessor env net hops n key = Inr r \<Longrightarrow> r \<in> S"
proof (induction hops arbitrary: n)
  case (Suc hops)
  obtain ln where ln: "net_nodes net n = Some ln" "ln_ID ln = n" "\<And>s. getSuccessor ln = Some s \<Longrightarrow> s \<in> S"
    "fingers_within (\<lambda>f. f \<in> S \<or> gone net f) ln"
    using closed_netE[OF assms Suc.prems(1)] by blast
  from Suc.prems(2) ln(1,2) show ?case
  proof (cases rule: FindSuccessor_InrE)
    case (3 s)
    let ?c = "closestPrecedingNode ln key" and ?h = "next_hop ln s key"
    have "?c = n \<or> ?c \<in> S \<or> gone net ?c"
      using find_fingers[of ln key] ln(2,4) unfolding fingers_within_def by (auto split: option.splits)
    then have "?h \<in> S \<or> gone net ?h" using ln(2,3) 3(1) by (auto simp: next_hop_def)
    moreover have "\<not> gone net ?h" using FindSuccessor_gone[of net ?h env hops key] 3(2) by auto
    ultimately show ?thesis using Suc.IH 3(2) by blast
  qed (use Suc.prems(1) ln(3) in auto)
qed simp

lemma closed_finger:
  assumes "closed_net S net" "n \<in> S" "net_nodes net n = Some ln"
    and "\<And>i. fs i = ln_fingers ln i \<or> (\<exists>f \<in> S. fs i = Some f)"
  shows "closed_net S (set_node net n (ln\<lparr>ln_fingers := fs\<rparr>))" (is "closed_net S ?net")
  unfolding closed_net_def
proof (intro ballI)
  fix m assume m: "m \<in> S"
  have gone: "g \<in> S \<or> gone net g \<Longrightarrow> g \<in> S \<or> gone ?net g" for g
    using gone_set_node[of net g n] assms(2) by metis
  show "\<exists>l. net_nodes ?net m = Some l \<and> ln_ID l = m \<and> (\<forall>s. getSuccessor l = Some s \<longrightarrow> s \<in> S) \<and>
      fingers_within (\<lambda>f. f \<in> S \<or> gone ?net f) l"
  proof (cases "m = n")
    case True
    obtain l where "ln = l" "ln_ID l = n" "\<And>s. getSuccessor l = Some s \<Longrightarrow> s \<in> S"
      "fingers_within (\<lambda>f. f \<in> S \<or> gone net f) l"
      using closed_netE[OF assms(1,2)] assms(3) by (metis option.inject)
    moreover have "fingers_within (\<lambda>f. f \<in> S \<or> gone ?net f) (ln\<lparr>ln_fingers := fs\<rparr>)"
      unfolding fingers_within_def
    proof
      fix k assume "k \<in> {1..MaxFingerEntries}"
      then show "case ln_fingers (ln\<lparr>ln_fingers := fs\<rparr>) k of None \<Rightarrow> True | Some f \<Rightarrow> f \<in> S \<or> gone ?net f"
        using assms(4)[of k] calculation(1,4) gone by (fastforce simp: fingers_within_def split: option.splits)
    qed
    ultimately show ?thesis using True by (auto simp: getSuccessor_def)
  next
    case False
    obtain l where "net_nodes net m = Some l" "ln_ID l = m" "\<And>s. getSuccessor l = Some s \<Longrightarrow> s \<in> S"
      "fingers_within (\<lambda>f. f \<in> S \<or> gone net f) l"
      using closed_netE[OF assms(1) m] by blast
    then show ?thesis using False gone by (fastforce simp: fingers_within_def split: option.splits)
  qed
qed

definition finger_step :: "u64 set \<Rightarrow> (nat \<Rightarrow> u64 option) \<Rightarrow> (nat \<Rightarrow> u64 option) \<Rightarrow> bool" where
  "finger_step S fs fs' \<longleftrightarrow> (\<forall>i. fs' i = fs i \<or> (\<exists>f \<in> S. fs' i = Some f))"

lemma finger_step_trans: "finger_step S f g \<Longrightarrow> finger_step S g h \<Longrightarrow> finger_step S f h"
  unfolding finger_step_def by metis

lemma fixK_closed:
  assumes "closed_net S net" "n \<in> S" "net_nodes net n = Some ln"
  shows "\<exists>fs. fst (fixK env n k net) = set_node net n (ln\<lparr>ln_fingers := fs\<rparr>) \<and> finger_step S (ln_fingers ln) fs"
proof (cases "FindSuccessor env net (env_hops env) n (ModuloSum (ln_ID ln) (push_bit (k - 1) 1))")
  case (Inl e)
  then have "fst (fixK env n k net) = set_node net n (ln\<lparr>ln_fingers := ln_fingers ln\<rparr>)"
    using assms(3) by (simp add: fixK_def set_node_same)
  then show ?thesis by (intro exI[of _ "ln_fingers ln"]) (simp add: finger_step_def)
next
  case (Inr f)
  then have "f \<in> S" using closed_lookup[OF assms(1,2)] by blast
  moreover have "fst (fixK env n k net) = set_node net n (ln\<lparr>ln_fingers := (ln_fingers ln)(k \<mapsto> f)\<rparr>)"
    using Inr assms(3) by (auto simp: fixK_def set_node_same map_upd_triv)
  ultimately show ?thesis by (intro exI[of _ "(ln_fingers ln)(k \<mapsto> f)"]) (auto simp: finger_step_def)
qed

lemma fix_fingers_closed:
  assumes "closed_net S net" "n \<in> S" "net_nodes net n = Some ln"
  shows "\<exists>fs. fix_fingers env n ks net = set_node net n (ln\<lparr>ln_fingers := fs\<rparr>) \<and> finger_step S (ln_fingers ln) fs"
  using assms
proof (induction ks arbitrary: net ln)
  case Nil
  then show ?case by (intro exI[of _ "ln_fingers ln"]) (simp add: set_node_same finger_step_def)
next
  case (Cons k ks)
  obtain fs where fs: "fst (fixK env n k net) = set_node net n (ln\<lparr>ln_fingers := fs\<rparr>)"
    "finger_step S (ln_fingers ln) fs" using fixK_closed[OF Cons.prems] by blast
  have "closed_net S (set_node net n (ln\<lparr>ln_fingers := fs\<rparr>))"
    using closed_finger[OF Cons.prems] fs(2) by (simp add: finger_step_def)
  from Cons.IH[OF this Cons.prems(2), of "ln\<lparr>ln_fingers := fs\<rparr>"]
  obtain fs' where "fix_fingers env n ks (set_node net n (ln\<lparr>ln_fingers := fs\<rparr>)) =
      set_node net n (ln\<lparr>ln_fingers := fs'\<rparr>)" "finger_step S fs fs'"
    by auto
  then show ?case using fs finger_step_trans by auto
qed

lemmas fixFinger_closed = fix_fingers_closed[where ks = "[1..<Suc MaxFingerEntries]", folded fixFinger_def]

lemma ring_state_closed:
  assumes state: "ring_state env U R states stale net" and stale: "\<And>n s. n \<in> R \<Longrightarrow> stale n = Some s \<Longrightarrow> s \<in> R"
  shows "closed_net R net"
  unfolding closed_net_def
proof
  fix n assume n: "n \<in> R"
  obtain ln s rest where ln: "net_nodes net n = Some ln" "ln_ID ln = n" "ln_successors ln = s # rest"
    "case stale n of None \<Rightarrow> adjacent R n s | Some s' \<Rightarrow> s = s'"
    using ring_state_node[OF state n] by metis
  then have "s \<in> R" using stale[OF n] by (auto simp: adjacent_def split: option.splits)
  with ln ring_state_fingers[OF state n ln(1)]
  show "\<exists>ln. net_nodes net n = Some ln \<and> ln_ID ln = n \<and> (\<forall>s. getSuccessor ln = Some s \<longrightarrow> s \<in> R) \<and>
      fingers_within (\<lambda>f. f \<in> R \<or> gone net f) ln"
    by (auto simp: getSuccessor_def)
qed

lemma finger_step_within:
  assumes "finger_step S (ln_fingers ln) fs" "fingers_within (\<lambda>f. f \<in> U) ln" "S \<subseteq> U"
  shows "fingers_within (\<lambda>f. f \<in> U) (ln\<lparr>ln_fingers := fs\<rparr>)"
  unfolding fingers_within_def
proof
  fix k assume "k \<in> {1..MaxFingerEntries}"
  then have "case ln_fingers ln k of None \<Rightarrow> True | Some f \<Rightarrow> f \<in> U"
    using assms(2) unfolding fingers_within_def by blast
  moreover have "fs k = ln_fingers ln k \<or> (\<exists>f \<in> S. fs k = Some f)" using assms(1) by (simp add: finger_step_def)
  ultimately show "case ln_fingers (ln\<lparr>ln_fingers := fs\<rparr>) k of None \<Rightarrow> True | Some f \<Rightarrow> f \<in> U"
    using assms(3) by auto
qed

lemma pointers_ok_fingers:
  "pointers_ok env U R st n ln \<Longrightarrow> finger_step R (ln_fingers ln) fs \<Longrightarrow> R \<subseteq> U \<Longrightarrow>
   pointers_ok env U R st n (ln\<lparr>ln_fingers := fs\<rparr>)"
  using finger_step_within[of R ln fs U] by (simp add: pointers_ok_def getSuccessor_def departing_def)

lemma fixFinger_state:
  assumes state: "ring_state env U R states stale net" and n: "n \<in> R"
    and stale: "\<And>n s. n \<in> R \<Longrightarrow> stale n = Some s \<Longrightarrow> s \<in> R"
  obtains ln fs where "net_nodes net n = Some ln" "fixFinger env n net = set_node net n (ln\<lparr>ln_fingers := fs\<rparr>)"
    "ring_state env U R states stale (set_node net n (ln\<lparr>ln_fingers := fs\<rparr>))"
proof -
  obtain ln where ln: "net_nodes net n = Some ln" "Get (ln_state ln) = states n" "pointers_ok env U R (stale n) n ln"
    using ring_state_node[OF state n] by metis
  obtain fs where fs: "fixFinger env n net = set_node net n (ln\<lparr>ln_fingers := fs\<rparr>)"
    "finger_step R (ln_fingers ln) fs"
    using fixFinger_closed[OF ring_state_closed[OF state] n ln(1)] stale by blast
  have "ring_state env U R states stale (set_node net n (ln\<lparr>ln_fingers := fs\<rparr>))"
    using ring_state_update[OF state n, of "stale n" "ln\<lparr>ln_fingers := fs\<rparr>"] ln
      pointers_ok_fingers[OF ln(3) fs(2) ring_stateD(3)[OF state]] by (simp add: fun_upd_idem)
  with ln fs that show thesis by blast
qed

lemma fixFinger_core:
  assumes "ring_core env U R net" "n \<in> R"
  shows "ring_core env U R (fixFinger env n net)"
  by (rule fixFinger_state[OF assms(1)[unfolded ring_core_def] assms(2)]) (simp_all add: ring_core_def)

lemma checkPredecessor_core:
  assumes core: "ring_core env U R net" and n: "n \<in> R"
  shows "checkPredecessor env n net = (net, Inr ())"
proof -
  obtain ln p where ln: "net_nodes net n = Some ln" "ln_ID ln = n" "ln_predecessor ln = Some p" "adjacent R p n"
    using ring_core_node[OF core n] by metis
  have "p \<in> R" using ln(4) by (simp add: adjacent_def)
  then obtain lp where "net_nodes net p = Some lp" "Get (ln_state lp) = Active"
    using ring_core_node[OF core] by metis
  then have "is_ok (Ping env net n p)" by (simp add: Ping_ok checkNodeState_simps)
  then have "Ping env net n p = Inr ()" unfolding is_ok_iff by simp
  with ln(1,3) show ?thesis by (simp add: checkPredecessor_def)
qed

end
