(* ===== verification/KV_Memory.thy ===== *)
theory KV_Memory
  imports KV_Spec
begin

text \<open>
  The in-memory provider (\<^verbatim>\<open>kv/memory\<close>): a skip list of hash buckets, each a skip list from
  keys to value cells. Every operation is modelled as it runs without interference: a
  compare-and-swap sees the word loaded just before. The last section treats the lease cell
  under interleaved callers.
\<close>

record kvValue =
  v_simple :: "bytes option"
  v_lease :: u64
  v_children :: "string list"

record MemoryKV =
  mem_s :: "(u64, (string, kvValue) omap) omap"
  mem_hashFn :: "bytes \<Rightarrow> u64"

definition isDeleted :: "kvValue \<Rightarrow> bool" where
  "isDeleted v \<longleftrightarrow> v_simple v = None \<and> v_children v = [] \<and> v_lease v = 0"

definition newValueFunc :: kvValue where
  "newValueFunc = \<lparr>v_simple = None, v_lease = 0, v_children = []\<rparr>"

definition WithHashFn :: "(bytes \<Rightarrow> u64) \<Rightarrow> MemoryKV" where
  "WithHashFn fn = \<lparr>mem_s = [], mem_hashFn = fn\<rparr>"

definition lookupVal :: "MemoryKV \<Rightarrow> bytes \<Rightarrow> kvValue option" where
  "lookupVal m key =
     (case map_of (mem_s m) (mem_hashFn m key) of
        None \<Rightarrow> None
      | Some kMap \<Rightarrow> map_of kMap key)"

text \<open>A value cell is shared by reference; storing through the reference replaces it in place.\<close>

definition storeVal :: "MemoryKV \<Rightarrow> bytes \<Rightarrow> kvValue \<Rightarrow> MemoryKV" where
  "storeVal m key v =
     (let p = mem_hashFn m key;
          kMap = (case map_of (mem_s m) p of None \<Rightarrow> [] | Some kMap \<Rightarrow> kMap)
      in m\<lparr>mem_s := om_store p (om_store key v kMap) (mem_s m)\<rparr>)"

definition fetchVal :: "MemoryKV \<Rightarrow> bytes \<Rightarrow> MemoryKV \<times> kvValue" where
  "fetchVal m key =
     (case lookupVal m key of
        Some v \<Rightarrow> (m, v)
      | None \<Rightarrow> (storeVal m key newValueFunc, newValueFunc))"

definition deleteAll :: "MemoryKV \<Rightarrow> bytes \<Rightarrow> MemoryKV" where
  "deleteAll m key =
     (let p = mem_hashFn m key
      in case map_of (mem_s m) p of
           Some kMap \<Rightarrow> m\<lparr>mem_s := om_store p (om_delete key kMap) (mem_s m)\<rparr>
         | None \<Rightarrow> m)"

definition MemoryKV_Put :: "MemoryKV \<Rightarrow> bytes \<Rightarrow> bytes option \<Rightarrow> (MemoryKV, unit) stepped" where
  "MemoryKV_Put m key val =
     (let (m, v) = fetchVal m key;
          cur = v_simple v;
          (new, ok) = CompareAndSwap (v_simple v) cur val
      in if \<not> ok then (m, Inl (Chord ErrKVSimpleConflict))
         else (storeVal m key (v\<lparr>v_simple := new\<rparr>), Inr ()))"

definition MemoryKV_Get :: "MemoryKV \<Rightarrow> bytes \<Rightarrow> error + bytes option" where
  "MemoryKV_Get m key = (case lookupVal m key of None \<Rightarrow> Inr None | Some v \<Rightarrow> Inr (v_simple v))"

definition MemoryKV_Delete :: "MemoryKV \<Rightarrow> bytes \<Rightarrow> (MemoryKV, unit) stepped" where
  "MemoryKV_Delete m key =
     (let (m, v) = fetchVal m key;
          cur = v_simple v;
          (new, ok) = CompareAndSwap (v_simple v) cur None
      in if \<not> ok then (m, Inl (Chord ErrKVSimpleConflict))
         else (storeVal m key (v\<lparr>v_simple := new\<rparr>), Inr ()))"

definition MemoryKV_PrefixAppend :: "MemoryKV \<Rightarrow> bytes \<Rightarrow> bytes \<Rightarrow> (MemoryKV, unit) stepped" where
  "MemoryKV_PrefixAppend m prefix child =
     (let (m, v) = fetchVal m prefix
      in if child \<in> set (v_children v) then (m, Inl (Chord ErrKVPrefixConflict))
         else (storeVal m prefix (v\<lparr>v_children := insort_insert child (v_children v)\<rparr>), Inr ()))"

definition MemoryKV_PrefixList :: "MemoryKV \<Rightarrow> bytes \<Rightarrow> error + bytes list" where
  "MemoryKV_PrefixList m prefix =
     (case lookupVal m prefix of None \<Rightarrow> Inr [] | Some v \<Rightarrow> Inr (v_children v))"

definition MemoryKV_PrefixContains :: "MemoryKV \<Rightarrow> bytes \<Rightarrow> bytes \<Rightarrow> error + bool" where
  "MemoryKV_PrefixContains m prefix child =
     (case lookupVal m prefix of None \<Rightarrow> Inr False | Some v \<Rightarrow> Inr (child \<in> set (v_children v)))"

definition MemoryKV_PrefixRemove :: "MemoryKV \<Rightarrow> bytes \<Rightarrow> bytes \<Rightarrow> (MemoryKV, unit) stepped" where
  "MemoryKV_PrefixRemove m prefix needle =
     (let (m, v) = fetchVal m prefix
      in (storeVal m prefix (v\<lparr>v_children := remove1 needle (v_children v)\<rparr>), Inr ()))"

definition MemoryKV_Acquire :: "MemoryKV \<Rightarrow> int \<Rightarrow> bytes \<Rightarrow> int \<Rightarrow> (MemoryKV, u64) stepped" where
  "MemoryKV_Acquire m ref lease ttl =
     (case durationGuard ttl of
        None \<Rightarrow> (m, Inl (Chord ErrKVLeaseInvalidTTL))
      | Some ttl \<Rightarrow>
          (let (m, v) = fetchVal m lease; cur = v_lease v
           in case Next ref ttl 0 of
                Inl err \<Rightarrow> (m, Inl err)
              | Inr nx \<Rightarrow>
                  if cur > word_of_int ref then (m, Inl (Chord ErrKVLeaseConflict))
                  else let (new, ok) = CompareAndSwap (v_lease v) cur nx
                       in if \<not> ok then (m, Inl (Chord ErrKVLeaseConflict))
                          else (storeVal m lease (v\<lparr>v_lease := new\<rparr>), Inr nx)))"

definition MemoryKV_Renew :: "MemoryKV \<Rightarrow> int \<Rightarrow> bytes \<Rightarrow> int \<Rightarrow> u64 \<Rightarrow> (MemoryKV, u64) stepped" where
  "MemoryKV_Renew m now lease ttl prevToken =
     (case durationGuard ttl of
        None \<Rightarrow> (m, Inl (Chord ErrKVLeaseInvalidTTL))
      | Some ttl \<Rightarrow>
          (let (m, v) = fetchVal m lease; cur = v_lease v
           in case Next now ttl prevToken of
                Inl err \<Rightarrow> (m, Inl err)
              | Inr nx \<Rightarrow>
                  if cur = 0 then (m, Inl (Chord ErrKVLeaseExpired))
                  else if now \<ge> sint cur then (m, Inl (Chord ErrKVLeaseExpired))
                  else if cur \<noteq> prevToken then (m, Inl (Chord ErrKVLeaseExpired))
                  else let (new, ok) = CompareAndSwap (v_lease v) cur nx
                       in if \<not> ok then (m, Inl (Chord ErrKVLeaseExpired))
                          else (storeVal m lease (v\<lparr>v_lease := new\<rparr>), Inr nx)))"

definition MemoryKV_Release :: "MemoryKV \<Rightarrow> bytes \<Rightarrow> u64 \<Rightarrow> (MemoryKV, unit) stepped" where
  "MemoryKV_Release m lease token =
     (let (m, v) = fetchVal m lease;
          (new, ok) = CompareAndSwap (v_lease v) token 0
      in if \<not> ok then (m, Inl (Chord ErrKVLeaseExpired))
         else (storeVal m lease (v\<lparr>v_lease := new\<rparr>), Inr ()))"

text \<open>The getters of a nil transfer return zero values; indexing past the end panics.\<close>

definition importVal :: "MemoryKV \<Rightarrow> bytes \<Rightarrow> KVTransfer option \<Rightarrow> MemoryKV" where
  "importVal m key val =
     (let (m, v) = fetchVal m key;
          t = (case val of None \<Rightarrow> \<lparr>SimpleValue = None, PrefixChildren = [], LeaseToken = 0\<rparr>
               | Some t \<Rightarrow> t)
      in storeVal m key
           (v\<lparr>v_simple := SimpleValue t, v_lease := LeaseToken t,
              v_children := fold insort_insert (PrefixChildren t) (v_children v)\<rparr>))"

fun MemoryKV_Import :: "MemoryKV \<Rightarrow> bytes list \<Rightarrow> KVTransfer option list \<Rightarrow> (MemoryKV, unit) stepped" where
  "MemoryKV_Import m [] vals = (m, Inr ())"
| "MemoryKV_Import m (key # keys) [] =
     (fst (fetchVal m key), Inl (Opaque ''runtime error: index out of range''))"
| "MemoryKV_Import m (key # keys) (val # vals) = MemoryKV_Import (importVal m key val) keys vals"

definition valComposites :: "string \<Rightarrow> kvValue \<Rightarrow> KeyComposite list" where
  "valComposites key v =
     (if v_simple v \<noteq> None then [(KC_SIMPLE, key)] else []) @
     (if length (v_children v) > 0 then [(KC_PREFIX, key)] else []) @
     (if v_lease v \<noteq> 0 then [(KC_LEASE, key)] else [])"

definition MemoryKV_ListKeys :: "MemoryKV \<Rightarrow> bytes \<Rightarrow> error + KeyComposite list" where
  "MemoryKV_ListKeys m prefix =
     Inr (concat (map (\<lambda>(_, kMap).
            concat (map (\<lambda>(key, v). if \<not> HasPrefix key prefix then [] else valComposites key v) kMap))
          (mem_s m)))"

definition exportVal :: "MemoryKV \<Rightarrow> bytes \<Rightarrow> KVTransfer" where
  "exportVal m key =
     (case lookupVal m key of
        None \<Rightarrow> \<lparr>SimpleValue = None, PrefixChildren = [], LeaseToken = 0\<rparr>
      | Some v \<Rightarrow>
          \<lparr>SimpleValue = v_simple v,
           PrefixChildren = (case MemoryKV_PrefixList m key of Inl _ \<Rightarrow> [] | Inr cs \<Rightarrow> cs),
           LeaseToken = v_lease v\<rparr>)"

definition MemoryKV_Export :: "MemoryKV \<Rightarrow> bytes list \<Rightarrow> error + KVTransfer list" where
  "MemoryKV_Export m keys = Inr (map (exportVal m) keys)"

definition MemoryKV_RangeKeys :: "MemoryKV \<Rightarrow> u64 \<Rightarrow> u64 \<Rightarrow> error + bytes list" where
  "MemoryKV_RangeKeys m low high =
     Inr (concat (map (\<lambda>(id, kMap).
            if Between low id high True then map fst (filter (\<lambda>(_, v). \<not> isDeleted v) kMap) else [])
          (mem_s m)))"

definition MemoryKV_RemoveKeys :: "MemoryKV \<Rightarrow> bytes list \<Rightarrow> (MemoryKV, unit) stepped" where
  "MemoryKV_RemoveKeys m keys = (fold (\<lambda>key m. deleteAll m key) keys m, Inr ())"

definition MemoryKV_ops :: "MemoryKV KVProvider" where
  "MemoryKV_ops =
     \<lparr>op_Put = MemoryKV_Put, op_Get = MemoryKV_Get, op_Delete = MemoryKV_Delete,
      op_PrefixAppend = MemoryKV_PrefixAppend, op_PrefixList = MemoryKV_PrefixList,
      op_PrefixContains = MemoryKV_PrefixContains, op_PrefixRemove = MemoryKV_PrefixRemove,
      op_Acquire = MemoryKV_Acquire, op_Renew = MemoryKV_Renew, op_Release = MemoryKV_Release,
      op_Import = MemoryKV_Import, op_ListKeys = MemoryKV_ListKeys, op_Export = MemoryKV_Export,
      op_RangeKeys = MemoryKV_RangeKeys, op_RemoveKeys = MemoryKV_RemoveKeys\<rparr>"

subsection \<open>Contents and invariant\<close>

definition val_entry :: "kvValue \<Rightarrow> entry" where
  "val_entry v = \<lparr>e_simple = v_simple v, e_children = set (v_children v), e_lease = v_lease v\<rparr>"

definition mem_abs :: "MemoryKV \<Rightarrow> store" where
  "mem_abs m key = (case lookupVal m key of None \<Rightarrow> no_entry | Some v \<Rightarrow> val_entry v)"

definition val_wf :: "kvValue \<Rightarrow> bool" where
  "val_wf v \<longleftrightarrow> sorted (v_children v) \<and> distinct (v_children v) \<and> token_ok (v_lease v)"

definition mem_inv :: "(bytes \<Rightarrow> u64) \<Rightarrow> MemoryKV \<Rightarrow> bool" where
  "mem_inv hash m \<longleftrightarrow> mem_hashFn m = hash \<and> om_wf (mem_s m) \<and>
     (\<forall>p kMap. map_of (mem_s m) p = Some kMap \<longrightarrow> om_wf kMap \<and>
        (\<forall>k v. map_of kMap k = Some v \<longrightarrow> hash k = p \<and> val_wf v))"

lemma hashFn_storeVal [simp]: "mem_hashFn (storeVal m k v) = mem_hashFn m"
  by (simp add: storeVal_def Let_def)

lemma lookupVal_storeVal [simp]:
  "lookupVal (storeVal m k v) k' = (if k' = k then Some v else lookupVal m k')"
  by (auto simp: lookupVal_def storeVal_def Let_def split: option.splits)

lemma mem_inv_lookup: "mem_inv hash m \<Longrightarrow> lookupVal m k = Some v \<Longrightarrow> val_wf v"
  by (auto simp: mem_inv_def lookupVal_def split: option.splits)

lemma val_wf_new [simp]: "val_wf newValueFunc"
  by (simp add: val_wf_def newValueFunc_def)

lemma val_entry_new [simp]: "val_entry newValueFunc = no_entry"
  by (simp add: val_entry_def newValueFunc_def no_entry_def)

lemma mem_inv_storeVal:
  assumes "mem_inv hash m" "val_wf v"
  shows "mem_inv hash (storeVal m k v)"
proof -
  have b: "om_wf (case map_of (mem_s m) p of None \<Rightarrow> [] | Some kMap \<Rightarrow> kMap)" for p
    using assms by (auto simp: mem_inv_def split: option.splits)
  show ?thesis
    using assms b unfolding mem_inv_def
    by (auto simp: storeVal_def Let_def split: option.splits if_splits)
qed

lemma mem_abs_storeVal [simp]: "mem_abs (storeVal m k v) = (mem_abs m)(k := val_entry v)"
  by (auto simp: mem_abs_def fun_eq_iff)

text \<open>Fetching a cell creates it when missing, which the abstract store cannot see.\<close>

lemma fetchVal_cases:
  assumes "fetchVal m k = (m', v)" "mem_inv hash m"
  shows "mem_inv hash m'" "mem_abs m' = mem_abs m" "val_entry v = mem_abs m k" "val_wf v"
    "lookupVal m' k = Some v"
proof -
  have "(m' = m \<and> lookupVal m k = Some v) \<or>
      (lookupVal m k = None \<and> m' = storeVal m k newValueFunc \<and> v = newValueFunc)"
    using assms(1) by (auto simp: fetchVal_def split: option.splits)
  then show "mem_inv hash m'" "mem_abs m' = mem_abs m" "val_entry v = mem_abs m k" "val_wf v"
    "lookupVal m' k = Some v"
    using assms(2) mem_inv_lookup
    by (auto simp: mem_inv_storeVal) (auto simp: mem_abs_def fun_eq_iff)
qed

lemma val_entry_simps [simp]:
  "e_simple (val_entry v) = v_simple v" "e_children (val_entry v) = set (v_children v)"
  "e_lease (val_entry v) = v_lease v"
  by (simp_all add: val_entry_def)

text \<open>Writing back a fetched cell: the one place where cells change.\<close>

lemma update_fetched:
  assumes "fetchVal m k = (m', v)" "mem_inv hash m" "val_wf v'"
  shows "mem_inv hash (storeVal m' k v')" "mem_abs (storeVal m' k v') = (mem_abs m)(k := val_entry v')"
  using fetchVal_cases[OF assms(1,2)] assms(3) by (simp_all add: mem_inv_storeVal)

lemma val_wf_simple [simp]: "val_wf (v\<lparr>v_simple := x\<rparr>) = val_wf v"
  by (simp add: val_wf_def)

lemma val_wf_lease: "val_wf v \<Longrightarrow> token_ok t \<Longrightarrow> val_wf (v\<lparr>v_lease := t\<rparr>)"
  by (simp add: val_wf_def)

lemma val_entry_upd [simp]:
  "val_entry (v\<lparr>v_simple := x\<rparr>) = (val_entry v)\<lparr>e_simple := x\<rparr>"
  "val_entry (v\<lparr>v_lease := t\<rparr>) = (val_entry v)\<lparr>e_lease := t\<rparr>"
  "val_entry (v\<lparr>v_children := cs\<rparr>) = (val_entry v)\<lparr>e_children := set cs\<rparr>"
  by (simp_all add: val_entry_def)

lemma entry_upd_same [simp]:
  "e\<lparr>e_simple := e_simple e\<rparr> = (e :: entry)" "e\<lparr>e_children := e_children e\<rparr> = (e :: entry)"
  "e\<lparr>e_lease := e_lease e\<rparr> = (e :: entry)"
  by simp_all

lemma set_same [simp]:
  "set_simple st k (e_simple (st k)) = st" "set_children st k (e_children (st k)) = st"
  "set_lease st k (e_lease (st k)) = st"
  by (simp_all add: set_simple_def set_children_def set_lease_def)

subsection \<open>Each operation meets the contract\<close>

lemma mem_Put:
  assumes "mem_inv hash m" "MemoryKV_Put m k v = (m', r)"
  shows "mem_inv hash m' \<and> r = Inr () \<and> mem_abs m' = set_simple (mem_abs m) k v"
proof (cases "fetchVal m k")
  case (Pair m1 c)
  note f = fetchVal_cases[OF Pair assms(1)]
  show ?thesis
    using assms(2) Pair f update_fetched[OF Pair assms(1)]
    by (auto simp: MemoryKV_Put_def CompareAndSwap_def set_simple_def)
qed

lemma mem_Delete:
  assumes "mem_inv hash m" "MemoryKV_Delete m k = (m', r)"
  shows "mem_inv hash m' \<and> r = Inr () \<and> mem_abs m' = set_simple (mem_abs m) k None"
proof -
  have "MemoryKV_Delete m k = MemoryKV_Put m k None"
    by (simp add: MemoryKV_Delete_def MemoryKV_Put_def)
  with assms(2) show ?thesis by (intro mem_Put[OF assms(1)]) simp
qed

lemma mem_Get: "MemoryKV_Get m k = Inr (e_simple (mem_abs m k))"
  by (auto simp: MemoryKV_Get_def mem_abs_def split: option.splits)

lemma mem_PrefixAppend:
  assumes "mem_inv hash m" "MemoryKV_PrefixAppend m k c = (m', r)"
  shows "mem_inv hash m' \<and> mem_abs m' = set_children (mem_abs m) k (insert c (e_children (mem_abs m k))) \<and>
    r = (if c \<in> e_children (mem_abs m k) then Inl (Chord ErrKVPrefixConflict) else Inr ())"
proof (cases "fetchVal m k")
  case (Pair m1 v)
  note f = fetchVal_cases[OF Pair assms(1)]
  have e: "e_children (mem_abs m k) = set (v_children v)" using f(3) by (metis val_entry_simps(2))
  show ?thesis
  proof (cases "c \<in> set (v_children v)")
    case True
    then have "insert c (e_children (mem_abs m k)) = e_children (mem_abs m k)" using e by auto
    then show ?thesis using True assms(2) Pair f set_same(2)[of "mem_abs m" k] unfolding e
      by (simp add: MemoryKV_PrefixAppend_def insert_absorb)
  next
    case False
    have "val_wf (v\<lparr>v_children := insort_insert c (v_children v)\<rparr>)"
      using f(4) by (simp add: val_wf_def sorted_insort_insert distinct_insort_insert)
    from update_fetched[OF Pair assms(1) this] False assms(2) Pair f e show ?thesis
      by (auto simp: MemoryKV_PrefixAppend_def set_children_def set_insort_insert)
  qed
qed

lemma mem_PrefixList:
  assumes "mem_inv hash m"
  shows "\<exists>cs. MemoryKV_PrefixList m k = Inr cs \<and> distinct cs \<and> set cs = e_children (mem_abs m k)"
  using mem_inv_lookup[OF assms, of k]
  by (auto simp: MemoryKV_PrefixList_def mem_abs_def val_wf_def split: option.splits)

lemma mem_PrefixContains: "MemoryKV_PrefixContains m k c = Inr (c \<in> e_children (mem_abs m k))"
  by (auto simp: MemoryKV_PrefixContains_def mem_abs_def split: option.splits)

lemma mem_PrefixRemove:
  assumes "mem_inv hash m" "MemoryKV_PrefixRemove m k c = (m', r)"
  shows "mem_inv hash m' \<and> r = Inr () \<and> mem_abs m' = set_children (mem_abs m) k (e_children (mem_abs m k) - {c})"
proof (cases "fetchVal m k")
  case (Pair m1 v)
  note f = fetchVal_cases[OF Pair assms(1)]
  have e: "e_children (mem_abs m k) = set (v_children v)" using f(3) by (metis val_entry_simps(2))
  have "val_wf (v\<lparr>v_children := remove1 c (v_children v)\<rparr>)"
    using f(4) by (simp add: val_wf_def sorted_remove1)
  from update_fetched[OF Pair assms(1) this] assms(2) Pair f e show ?thesis
    by (auto simp: MemoryKV_PrefixRemove_def set_children_def val_wf_def)
qed

lemma word_less_nanos: "0 \<le> i \<Longrightarrow> i \<le> MaxInt64 \<Longrightarrow> word_of_int i < (t :: u64) \<longleftrightarrow> i < uint t"
  by (simp add: word_less_def uint_small)

lemma sint_token: "token_ok t \<Longrightarrow> sint t = uint t"
  using signed_take_bit_int_eq_self[of 63 "uint t"] order_trans[OF _ uint_ge_0, of "- (2 ^ 63)" t]
  by (simp add: token_ok_def MaxInt64_def sint_uint)

lemma Next_range: "Next nanos ttl prev = Inr t \<Longrightarrow> 0 \<le> nanos \<and> nanos \<le> MaxInt64"
  by (auto simp: Next_def Second_def split: if_splits)

lemma mem_lease_write:
  assumes "fetchVal m k = (m1, v)" "mem_inv hash m" "token_ok t"
  shows "mem_inv hash (storeVal m1 k (v\<lparr>v_lease := t\<rparr>))"
    "mem_abs (storeVal m1 k (v\<lparr>v_lease := t\<rparr>)) = set_lease (mem_abs m) k t"
proof -
  note f = fetchVal_cases[OF assms(1,2)]
  show "mem_inv hash (storeVal m1 k (v\<lparr>v_lease := t\<rparr>))"
    "mem_abs (storeVal m1 k (v\<lparr>v_lease := t\<rparr>)) = set_lease (mem_abs m) k t"
    using update_fetched[OF assms(1,2) val_wf_lease[OF f(4) assms(3)]] f(3)
    by (simp_all add: set_lease_def)
qed

lemma mem_Acquire:
  assumes "mem_inv hash m" "MemoryKV_Acquire m now k ttl = (m', r)"
  shows "mem_inv hash m' \<and>
    mem_abs m' = set_lease (mem_abs m) k (fst (spec_Acquire now ttl (e_lease (mem_abs m k)))) \<and>
    r = snd (spec_Acquire now ttl (e_lease (mem_abs m k)))"
proof (cases "fetchVal m k")
  case (Pair m1 v)
  note f = fetchVal_cases[OF Pair assms(1)]
  have e: "e_lease (mem_abs m k) = v_lease v" using f(3) by (metis val_entry_simps(3))
  note same = set_same(3)[of "mem_abs m" k, unfolded e]
  show ?thesis
    using assms f same mem_lease_write[OF Pair assms(1) NextD(1)] Next_range word_less_nanos
    unfolding MemoryKV_Acquire_def spec_Acquire_def e Pair
    by (auto simp: CompareAndSwap_def Let_def split: option.splits sum.splits if_splits)
qed

lemma mem_Renew:
  assumes "mem_inv hash m" "MemoryKV_Renew m now k ttl prev = (m', r)"
  shows "mem_inv hash m' \<and>
    mem_abs m' = set_lease (mem_abs m) k (fst (spec_Renew now ttl prev (e_lease (mem_abs m k)))) \<and>
    r = snd (spec_Renew now ttl prev (e_lease (mem_abs m k)))"
proof (cases "fetchVal m k")
  case (Pair m1 v)
  note f = fetchVal_cases[OF Pair assms(1)]
  have e: "e_lease (mem_abs m k) = v_lease v" using f(3) by (metis val_entry_simps(3))
  have t: "sint (v_lease v) = uint (v_lease v)" using f(4) by (simp add: val_wf_def sint_token)
  note same = set_same(3)[of "mem_abs m" k, unfolded e]
  have z: "v_lease v = 0 \<Longrightarrow> Next now td prev = Inr t \<Longrightarrow> \<not> now < uint (v_lease v)" for td t
    using NextD(5)[of now td prev t] by auto
  show ?thesis
    using assms f same z t mem_lease_write[OF Pair assms(1) NextD(1)]
    unfolding MemoryKV_Renew_def spec_Renew_def e Pair
    by (auto simp: CompareAndSwap_def Let_def split: option.splits sum.splits if_splits)
qed

lemma mem_Release:
  assumes "mem_inv hash m" "MemoryKV_Release m k token = (m', r)"
  shows "mem_inv hash m' \<and>
    mem_abs m' = set_lease (mem_abs m) k (fst (spec_Release token (e_lease (mem_abs m k)))) \<and>
    r = snd (spec_Release token (e_lease (mem_abs m k)))"
proof (cases "fetchVal m k")
  case (Pair m1 v)
  note f = fetchVal_cases[OF Pair assms(1)]
  have e: "e_lease (mem_abs m k) = v_lease v" using f(3) by (metis val_entry_simps(3))
  show ?thesis
    using assms f set_same(3)[of "mem_abs m" k, unfolded e] mem_lease_write[OF Pair assms(1) token_ok_0]
    unfolding MemoryKV_Release_def spec_Release_def e Pair
    by (auto simp: CompareAndSwap_def split: if_splits)
qed

lemma mem_Put_nil:
  assumes "mem_inv hash m" "MemoryKV_Put m k None = (m', r)"
  shows "mem_inv hash m' \<and> r = Inr () \<and>
    (mem_abs m' = set_simple (mem_abs m) k None \<or> mem_abs m' = set_simple (mem_abs m) k (Some []))"
  using mem_Put[OF assms] by blast

lemma mem_Release_zero:
  assumes "mem_inv hash m" "MemoryKV_Release m k 0 = (m', r)"
  shows "mem_inv hash m' \<and> mem_abs m' = mem_abs m \<and>
    (r = Inl (Chord ErrKVLeaseExpired) \<or> e_lease (mem_abs m k) = 0 \<and> r = Inr ())"
  using mem_Release[OF assms] by (auto simp: spec_Release_def set_lease_free split: if_splits)

lemma fold_insort_insert:
  "sorted cs \<Longrightarrow> distinct cs \<Longrightarrow>
   sorted (fold insort_insert xs cs) \<and> distinct (fold insort_insert xs cs) \<and>
   set (fold insort_insert xs cs) = set xs \<union> set cs"
  by (induction xs arbitrary: cs)
    (auto simp: sorted_insort_insert distinct_insort_insert set_insort_insert)

lemma mem_importVal:
  assumes "mem_inv hash m" "token_ok (LeaseToken t)"
  shows "mem_inv hash (importVal m k (Some t))"
    "mem_abs (importVal m k (Some t)) =
       (mem_abs m)(k := (transfer_entry t)
         \<lparr>e_children := set (PrefixChildren t) \<union> e_children (mem_abs m k)\<rparr>)"
proof -
  obtain m1 v where Pair: "fetchVal m k = (m1, v)" by fastforce
  note f = fetchVal_cases[OF Pair assms(1)]
  let ?v = "v\<lparr>v_simple := SimpleValue t, v_lease := LeaseToken t,
              v_children := fold insort_insert (PrefixChildren t) (v_children v)\<rparr>"
  have e: "e_children (mem_abs m k) = set (v_children v)" using f(3) by (metis val_entry_simps(2))
  have c: "val_wf ?v" "val_entry ?v =
      (transfer_entry t)\<lparr>e_children := set (PrefixChildren t) \<union> e_children (mem_abs m k)\<rparr>"
    using f(4) assms(2) fold_insort_insert[of "v_children v" "PrefixChildren t"]
    by (auto simp: val_wf_def val_entry_def transfer_entry_def e)
  show "mem_inv hash (importVal m k (Some t))"
    "mem_abs (importVal m k (Some t)) =
       (mem_abs m)(k := (transfer_entry t)
         \<lparr>e_children := set (PrefixChildren t) \<union> e_children (mem_abs m k)\<rparr>)"
    using update_fetched[OF Pair assms(1) c(1)] c(2) by (simp_all add: importVal_def Pair)
qed

lemma mem_Import:
  assumes "mem_inv hash m" "length ks = length ts" "distinct ks"
    and "\<And>t. t \<in> set ts \<Longrightarrow> live (transfer_entry t) \<and> token_ok (LeaseToken t)"
    and "\<And>k. k \<in> set ks \<Longrightarrow> mem_abs m k = no_entry"
    and "MemoryKV_Import m ks (map Some ts) = (m', r)"
  shows "mem_inv hash m' \<and> r = Inr () \<and> mem_abs m' = import_entries (mem_abs m) ks ts"
  using assms
proof (induction ks arbitrary: m ts)
  case (Cons k ks)
  then obtain t us where ts: "ts = t # us" by (cases ts) auto
  have t: "token_ok (LeaseToken t)" using Cons.prems(4) ts by simp
  note i = mem_importVal[OF Cons.prems(1) t, of k]
  have "mem_abs m k = no_entry" using Cons.prems(5) by simp
  then have a: "mem_abs (importVal m k (Some t)) = (mem_abs m)(k := transfer_entry t)"
    using i(2) by (simp add: transfer_entry_def)
  have "mem_inv hash m' \<and> r = Inr () \<and>
      mem_abs m' = import_entries (mem_abs (importVal m k (Some t))) ks us"
    by (rule Cons.IH[OF i(1)]) (use Cons.prems ts a in auto)
  then show ?case using a ts by simp
qed simp

subsection \<open>Enumerations\<close>

text \<open>Walking the buckets visits every binding once.\<close>

definition mem_bindings :: "MemoryKV \<Rightarrow> (string \<times> kvValue) list" where
  "mem_bindings m = concat (map snd (mem_s m))"

lemma distinct_bindings:
  "om_wf bs \<Longrightarrow> (\<forall>p kMap. map_of bs p = Some kMap \<longrightarrow> om_wf kMap \<and>
      (\<forall>k v. map_of kMap k = Some v \<longrightarrow> hash k = p)) \<Longrightarrow>
   distinct (map fst (concat (map snd bs)))"
proof (induction bs)
  case (Cons b bs)
  obtain p kMap where b: "b = (p, kMap)" by fastforce
  have w: "om_wf bs" "\<forall>q \<in> fst ` set bs. p < q" using Cons.prems(1) b by (auto simp: om_wf_Cons)
  have tl: "map_of bs q = Some km \<Longrightarrow> map_of (b # bs) q = Some km" for q km
    using w(2) b by (auto dest!: map_of_SomeD)
  have "distinct (map fst (concat (map snd bs)))"
    using Cons.prems(2) w(1) tl by (intro Cons.IH) blast+
  moreover have km: "om_wf kMap" "\<And>k v. map_of kMap k = Some v \<Longrightarrow> hash k = p"
    using Cons.prems(2)[rule_format, of p kMap] b by simp_all
  moreover have hd: "hash k \<in> fst ` set bs" if mem: "(k, v) \<in> set (concat (map snd bs))" for k v
  proof -
    obtain q km where q: "(q, km) \<in> set bs" "(k, v) \<in> set km" using mem by auto
    then have m: "map_of bs q = Some km" using w(1) by (simp add: om_wf_map_of)
    then have "om_wf km" using Cons.prems(2) tl by blast
    then have "hash k = q" using q(2) Cons.prems(2) tl[OF m] by (metis om_wf_map_of)
    with q(1) show ?thesis by force
  qed
  moreover have "k \<notin> fst ` set (concat (map snd bs))" if "k \<in> fst ` set kMap" for k
  proof
    assume "k \<in> fst ` set (concat (map snd bs))"
    then obtain v where "(k, v) \<in> set (concat (map snd bs))" by force
    then have "p < hash k" using hd w(2) by blast
    moreover have "hash k = p" using that km by (auto simp: om_wf_map_of)
    ultimately show False by simp
  qed
  then have "set (map fst kMap) \<inter> set (map fst (concat (map snd bs))) = {}"
    unfolding set_map by blast
  ultimately show ?case using b om_wf_distinct[OF km(1)] by (simp del: set_concat)
qed simp

lemma bindings_distinct: "mem_inv hash m \<Longrightarrow> distinct (map fst (mem_bindings m))"
  unfolding mem_bindings_def mem_inv_def by (rule distinct_bindings[of _ hash]) auto

lemma set_bindings:
  assumes "mem_inv hash m"
  shows "(k, v) \<in> set (mem_bindings m) \<longleftrightarrow> lookupVal m k = Some v"
proof
  assume "(k, v) \<in> set (mem_bindings m)"
  then obtain p km where "(p, km) \<in> set (mem_s m)" "(k, v) \<in> set km"
    by (auto simp: mem_bindings_def)
  with assms show "lookupVal m k = Some v"
    by (auto simp: mem_inv_def lookupVal_def om_wf_map_of)
next
  assume "lookupVal m k = Some v"
  then obtain km where "map_of (mem_s m) (mem_hashFn m k) = Some km" "map_of km k = Some v"
    by (auto simp: lookupVal_def split: option.splits)
  then have "(mem_hashFn m k, km) \<in> set (mem_s m)" "(k, v) \<in> set km" by (auto dest: map_of_SomeD)
  then show "(k, v) \<in> set (mem_bindings m)" by (force simp: mem_bindings_def)
qed

lemma not_isDeleted: "\<not> isDeleted v \<longleftrightarrow> live (val_entry v)"
  by (simp add: isDeleted_def live_def)

lemma mem_live: "live (mem_abs m k) \<longleftrightarrow> (\<exists>v. lookupVal m k = Some v \<and> \<not> isDeleted v)"
  by (auto simp: mem_abs_def not_isDeleted split: option.splits)

lemma concat_map_bindings:
  "concat (map (\<lambda>(p, km). concat (map f km)) bs) = concat (map f (concat (map snd bs)))"
  by (induction bs) auto

lemma distinct_concat_keyed:
  "distinct (map fst xs) \<Longrightarrow> (\<And>x. x \<in> set xs \<Longrightarrow> distinct (f x) \<and> (\<forall>y \<in> set (f x). g y = fst x)) \<Longrightarrow>
   distinct (concat (map f xs))"
proof (induction xs)
  case (Cons x xs)
  have "y \<notin> set (concat (map f xs))" if y: "y \<in> set (f x)" for y
  proof
    assume "y \<in> set (concat (map f xs))"
    then obtain x' where x': "x' \<in> set xs" "y \<in> set (f x')" by auto
    then have "fst x' = fst x" using Cons.prems(2) y by (metis list.set_intros)
    then have "fst x \<in> fst ` set xs" using x'(1) by (metis image_eqI)
    with Cons.prems(1) show False by simp
  qed
  with Cons show ?case by auto
qed simp

lemma entry_composites_no_entry [simp]: "entry_composites k no_entry = {}"
  by (simp add: entry_composites_def)

lemma mem_ListKeys:
  assumes "mem_inv hash m"
  shows "\<exists>cs. MemoryKV_ListKeys m p = Inr cs \<and> distinct cs \<and>
    set cs = (\<Union>k \<in> {k. HasPrefix k p}. entry_composites k (mem_abs m k))"
proof -
  let ?f = "\<lambda>(key, v). if \<not> HasPrefix key p then [] else valComposites key v"
  have l: "MemoryKV_ListKeys m p = Inr (concat (map ?f (mem_bindings m)))"
    by (simp add: MemoryKV_ListKeys_def mem_bindings_def concat_map_bindings)
  have "distinct (concat (map ?f (mem_bindings m)))"
    by (rule distinct_concat_keyed[OF bindings_distinct[OF assms], where g = snd])
      (auto simp: valComposites_def)
  moreover have "set (valComposites k v) = entry_composites k (val_entry v)" for k v
    by (auto simp: valComposites_def entry_composites_def)
  then have "c \<in> set (concat (map ?f (mem_bindings m))) \<longleftrightarrow>
      (\<exists>k v. (k, v) \<in> set (mem_bindings m) \<and> HasPrefix k p \<and> c \<in> entry_composites k (val_entry v))" for c
    by (auto split: if_splits)
  then have "c \<in> set (concat (map ?f (mem_bindings m))) \<longleftrightarrow>
      (\<exists>k. HasPrefix k p \<and> c \<in> entry_composites k (mem_abs m k))" for c
    unfolding set_bindings[OF assms] mem_abs_def
    by (auto simp: entry_composites_no_entry split: option.splits) (metis option.distinct(1) option.inject)
  then have "set (concat (map ?f (mem_bindings m))) =
      (\<Union>k \<in> {k. HasPrefix k p}. entry_composites k (mem_abs m k))"
    by blast
  ultimately show ?thesis using l by blast
qed

lemma mem_Export: "\<exists>ts. MemoryKV_Export m ks = Inr ts \<and> map transfer_entry ts = map (mem_abs m) ks"
proof -
  have "transfer_entry (exportVal m k) = mem_abs m k" for k
    by (auto simp: exportVal_def mem_abs_def transfer_entry_def val_entry_def no_entry_def
        MemoryKV_PrefixList_def split: option.splits)
  then show ?thesis by (auto simp: MemoryKV_Export_def)
qed

lemma range_bindings:
  assumes "\<forall>(p, km) \<in> set bs. \<forall>(k, v) \<in> set km. hash k = p"
  shows "concat (map (\<lambda>(id, kMap). if B id then map fst (filter P kMap) else []) bs) =
    map fst (filter (\<lambda>(k, v). P (k, v) \<and> B (hash k)) (concat (map snd bs)))"
  using assms
proof (induction bs)
  case (Cons b bs)
  obtain p km where b: "b = (p, km)" by fastforce
  have "filter (\<lambda>(k, v). P (k, v) \<and> B (hash k)) km = (if B p then filter P km else [])"
    using Cons.prems b by (auto simp: filter_empty_conv intro!: filter_cong)
  moreover have "concat (map (\<lambda>(id, kMap). if B id then map fst (filter P kMap) else []) bs) =
    map fst (filter (\<lambda>(k, v). P (k, v) \<and> B (hash k)) (concat (map snd bs)))"
    using Cons by simp
  ultimately show ?case using b by simp
qed simp

lemma mem_RangeKeys:
  assumes "mem_inv hash m"
  shows "\<exists>ks. MemoryKV_RangeKeys m low high = Inr ks \<and> distinct ks \<and>
    set ks = {k. live (mem_abs m k) \<and> Between low (hash k) high True}"
proof -
  let ?Q = "\<lambda>(k, v). \<not> isDeleted v \<and> Between low (hash k) high True"
  have "\<forall>(p, km) \<in> set (mem_s m). \<forall>(k, v) \<in> set km. hash k = p"
    using assms by (auto simp: mem_inv_def om_wf_map_of)
  from range_bindings[OF this, of "\<lambda>p. Between low p high True" "\<lambda>(_, v). \<not> isDeleted v"]
  have l: "MemoryKV_RangeKeys m low high = Inr (map fst (filter ?Q (mem_bindings m)))"
    by (simp add: MemoryKV_RangeKeys_def mem_bindings_def)
  have "distinct (map fst (filter ?Q (mem_bindings m)))"
    by (rule distinct_map_filter[OF bindings_distinct[OF assms]])
  moreover have "k \<in> set (map fst (filter ?Q (mem_bindings m))) \<longleftrightarrow>
      live (mem_abs m k) \<and> Between low (hash k) high True" for k
    using set_bindings[OF assms, of k] unfolding mem_live by (auto simp: image_iff)
  ultimately show ?thesis using l by blast
qed

lemma mem_deleteAll:
  assumes "mem_inv hash m"
  shows "mem_inv hash (deleteAll m k)" "mem_abs (deleteAll m k) = (mem_abs m)(k := no_entry)"
proof -
  show "mem_inv hash (deleteAll m k)"
    using assms unfolding mem_inv_def
    by (auto simp: deleteAll_def Let_def split: option.splits if_splits)
  have "lookupVal (deleteAll m k) k' = (if k' = k then None else lookupVal m k')" for k'
    by (auto simp: lookupVal_def deleteAll_def Let_def split: option.splits)
  then show "mem_abs (deleteAll m k) = (mem_abs m)(k := no_entry)"
    by (auto simp: mem_abs_def fun_eq_iff)
qed

lemma mem_RemoveKeys:
  assumes "mem_inv hash m" "MemoryKV_RemoveKeys m ks = (m', r)"
  shows "mem_inv hash m' \<and> r = Inr () \<and> mem_abs m' = remove_entries (mem_abs m) ks"
proof -
  have "mem_inv hash (fold (\<lambda>key m. deleteAll m key) ks m) \<and>
      mem_abs (fold (\<lambda>key m. deleteAll m key) ks m) = remove_entries (mem_abs m) ks"
    using assms(1)
    by (induction ks arbitrary: m) (auto simp: remove_entries_def mem_deleteAll fun_eq_iff)
  with assms(2) show ?thesis by (auto simp: MemoryKV_RemoveKeys_def)
qed

lemma mem_tokens: "mem_inv hash m \<Longrightarrow> token_ok (e_lease (mem_abs m k))"
  using mem_inv_lookup[of hash m k] by (auto simp: mem_abs_def val_wf_def split: option.splits)

lemma mem_inv_WithHashFn [simp]: "mem_inv hash (WithHashFn hash)"
  by (simp add: mem_inv_def WithHashFn_def)

lemma mem_abs_WithHashFn [simp]: "mem_abs (WithHashFn hash) = (\<lambda>_. no_entry)"
  by (simp add: mem_abs_def WithHashFn_def lookupVal_def fun_eq_iff)

lemmas mem_contract = mem_Put mem_Put_nil mem_Release_zero mem_Get mem_Delete mem_PrefixAppend mem_PrefixList
  mem_PrefixContains mem_PrefixRemove mem_Acquire mem_Renew mem_Release mem_Import mem_ListKeys
  mem_Export mem_RangeKeys mem_RemoveKeys mem_tokens

interpretation memkv: kv_provider MemoryKV_ops hash mem_abs "mem_inv hash"
  by (unfold_locales; (unfold MemoryKV_ops_def KVProvider.simps)?;
      (rule mem_contract; (assumption | blast)))

end
