(* ===== verification/KV_Sqlite.thy ===== *)
theory KV_Sqlite
  imports KV_Memory
begin

text \<open>
  The SQLite provider (\<^verbatim>\<open>kv/sqlite3\<close>): four tables, one transaction per write. A table is the
  collection of its rows under its primary key; a statement of \<^verbatim>\<open>queries.go\<close> is a function on
  tables that also gives the number of affected rows where the code reads it. A transaction
  whose body fails leaves the tables as they were. Failures of the database engine itself are
  not modelled. Integers are stored as signed 64-bit values, which the queries compare.
\<close>

unbundle bit_operations_syntax

record KeyTracker =
  kt_Hash :: u64
  kt_Flags :: u8

record SqliteKV =
  sq_hashFn :: "bytes \<Rightarrow> u64"
  simple_entries :: "(bytes, bytes) omap"
  prefix_entries :: "(bytes \<times> bytes) list"
  lease_entries :: "(bytes, u64) omap"
  key_trackers :: "(bytes, KeyTracker) omap"

definition SimpleFlag :: u8 where "SimpleFlag = 1"
definition PrefixFlag :: u8 where "PrefixFlag = 2"
definition LeaseFlag :: u8 where "LeaseFlag = 4"

definition sqlite_New :: "(bytes \<Rightarrow> u64) \<Rightarrow> SqliteKV" where
  "sqlite_New hash = \<lparr>sq_hashFn = hash, simple_entries = [], prefix_entries = [],
     lease_entries = [], key_trackers = []\<rparr>"

definition bindBytesAsBlob :: "bytes option \<Rightarrow> bytes" where
  "bindBytesAsBlob v = (case v of None \<Rightarrow> [] | Some b \<Rightarrow> b)"

definition withWriteTx :: "SqliteKV \<Rightarrow> (SqliteKV \<Rightarrow> (SqliteKV, 'a) stepped) \<Rightarrow> (SqliteKV, 'a) stepped" where
  "withWriteTx db fn = (case fn db of (db', Inr v) \<Rightarrow> (db', Inr v) | (db', Inl err) \<Rightarrow> (db, Inl err))"

subsection \<open>Statements\<close>

definition querySimplePut :: "SqliteKV \<Rightarrow> bytes \<Rightarrow> bytes \<Rightarrow> SqliteKV" where
  "querySimplePut db key val = db\<lparr>simple_entries := om_store key val (simple_entries db)\<rparr>"

definition querySimpleGet :: "SqliteKV \<Rightarrow> bytes \<Rightarrow> bytes option" where
  "querySimpleGet db key = map_of (simple_entries db) key"

definition querySimpleDel :: "SqliteKV \<Rightarrow> bytes \<Rightarrow> SqliteKV" where
  "querySimpleDel db key = db\<lparr>simple_entries := om_delete key (simple_entries db)\<rparr>"

definition queryPrefixAppend :: "SqliteKV \<Rightarrow> bytes \<Rightarrow> bytes \<Rightarrow> SqliteKV \<times> nat" where
  "queryPrefixAppend db prefix child =
     (if (prefix, child) \<in> set (prefix_entries db) then (db, 0)
      else (db\<lparr>prefix_entries := prefix_entries db @ [(prefix, child)]\<rparr>, 1))"

definition queryPrefixList :: "SqliteKV \<Rightarrow> bytes \<Rightarrow> bytes list" where
  "queryPrefixList db prefix = map snd (filter (\<lambda>(p, _). p = prefix) (prefix_entries db))"

definition queryPrefixContains :: "SqliteKV \<Rightarrow> bytes \<Rightarrow> bytes \<Rightarrow> bool" where
  "queryPrefixContains db prefix child \<longleftrightarrow> (prefix, child) \<in> set (prefix_entries db)"

definition queryPrefixRemove :: "SqliteKV \<Rightarrow> bytes \<Rightarrow> bytes \<Rightarrow> SqliteKV" where
  "queryPrefixRemove db prefix child =
     db\<lparr>prefix_entries := filter (\<lambda>row. row \<noteq> (prefix, child)) (prefix_entries db)\<rparr>"

definition queryPrefixCount :: "SqliteKV \<Rightarrow> bytes \<Rightarrow> nat" where
  "queryPrefixCount db prefix = length (filter (\<lambda>(p, _). p = prefix) (prefix_entries db))"

definition queryLeaseAcquire :: "SqliteKV \<Rightarrow> bytes \<Rightarrow> u64 \<Rightarrow> u64 \<Rightarrow> SqliteKV \<times> nat" where
  "queryLeaseAcquire db owner token now =
     (case map_of (lease_entries db) owner of
        None \<Rightarrow> (db\<lparr>lease_entries := om_store owner token (lease_entries db)\<rparr>, 1)
      | Some cur \<Rightarrow>
          if sint cur \<le> sint now
          then (db\<lparr>lease_entries := om_store owner token (lease_entries db)\<rparr>, 1)
          else (db, 0))"

definition queryLeaseRenew :: "SqliteKV \<Rightarrow> u64 \<Rightarrow> bytes \<Rightarrow> u64 \<Rightarrow> u64 \<Rightarrow> SqliteKV \<times> nat" where
  "queryLeaseRenew db token owner prev now =
     (case map_of (lease_entries db) owner of
        None \<Rightarrow> (db, 0)
      | Some cur \<Rightarrow>
          if cur = prev \<and> sint cur > sint now
          then (db\<lparr>lease_entries := om_store owner token (lease_entries db)\<rparr>, 1)
          else (db, 0))"

definition queryLeaseRelease :: "SqliteKV \<Rightarrow> bytes \<Rightarrow> u64 \<Rightarrow> SqliteKV \<times> nat" where
  "queryLeaseRelease db owner token =
     (if map_of (lease_entries db) owner = Some token
      then (db\<lparr>lease_entries := om_delete owner (lease_entries db)\<rparr>, 1)
      else (db, 0))"

definition queryLeaseGet :: "SqliteKV \<Rightarrow> bytes \<Rightarrow> u64 option" where
  "queryLeaseGet db owner = map_of (lease_entries db) owner"

definition queryLeaseImport :: "SqliteKV \<Rightarrow> bytes \<Rightarrow> u64 \<Rightarrow> SqliteKV" where
  "queryLeaseImport db owner token = db\<lparr>lease_entries := om_store owner token (lease_entries db)\<rparr>"

definition queryTrackerInsert :: "SqliteKV \<Rightarrow> bytes \<Rightarrow> u64 \<Rightarrow> u8 \<Rightarrow> SqliteKV" where
  "queryTrackerInsert db key hash flags =
     db\<lparr>key_trackers := om_store key \<lparr>kt_Hash = hash, kt_Flags = flags\<rparr> (key_trackers db)\<rparr>"

definition queryTrackerUpdate :: "SqliteKV \<Rightarrow> u8 \<Rightarrow> bytes \<Rightarrow> SqliteKV" where
  "queryTrackerUpdate db flags key =
     (case map_of (key_trackers db) key of
        None \<Rightarrow> db
      | Some row \<Rightarrow> db\<lparr>key_trackers := om_store key (row\<lparr>kt_Flags := flags\<rparr>) (key_trackers db)\<rparr>)"

definition queryTrackerDelete :: "SqliteKV \<Rightarrow> bytes \<Rightarrow> SqliteKV" where
  "queryTrackerDelete db key = db\<lparr>key_trackers := om_delete key (key_trackers db)\<rparr>"

subsection \<open>The key tracker\<close>

definition updateKeyTracker :: "SqliteKV \<Rightarrow> bytes \<Rightarrow> u8 \<Rightarrow> u8 \<Rightarrow> (SqliteKV, unit) stepped" where
  "updateKeyTracker db key addFlags removeFlags =
     (case map_of (key_trackers db) key of
        None \<Rightarrow>
          if addFlags \<noteq> 0 then (queryTrackerInsert db key (sq_hashFn db key) addFlags, Inr ())
          else (db, Inr ())
      | Some row \<Rightarrow>
          if kt_Hash row \<noteq> sq_hashFn db key then (db, Inl (Chord ErrKVHashFnChanged))
          else
            let removeFlags =
                  (if removeFlags AND PrefixFlag \<noteq> 0 \<and> queryPrefixCount db key > 0
                   then removeFlags AND NOT PrefixFlag else removeFlags);
                newFlags = (kt_Flags row OR addFlags) AND NOT removeFlags
            in if newFlags = 0 then (queryTrackerDelete db key, Inr ())
               else (queryTrackerUpdate db newFlags key, Inr ()))"

subsection \<open>Operations\<close>

definition SqliteKV_Put :: "SqliteKV \<Rightarrow> bytes \<Rightarrow> bytes option \<Rightarrow> (SqliteKV, unit) stepped" where
  "SqliteKV_Put s key val = withWriteTx s (\<lambda>tx.
     updateKeyTracker (querySimplePut tx key (bindBytesAsBlob val)) key SimpleFlag 0)"

definition SqliteKV_Get :: "SqliteKV \<Rightarrow> bytes \<Rightarrow> error + bytes option" where
  "SqliteKV_Get s key = Inr (querySimpleGet s key)"

definition SqliteKV_Delete :: "SqliteKV \<Rightarrow> bytes \<Rightarrow> (SqliteKV, unit) stepped" where
  "SqliteKV_Delete s key = withWriteTx s (\<lambda>tx.
     updateKeyTracker (querySimpleDel tx key) key 0 SimpleFlag)"

definition SqliteKV_PrefixAppend :: "SqliteKV \<Rightarrow> bytes \<Rightarrow> bytes \<Rightarrow> (SqliteKV, unit) stepped" where
  "SqliteKV_PrefixAppend s prefix child = withWriteTx s (\<lambda>tx.
     let (tx, n) = queryPrefixAppend tx prefix child
     in if n = 0 then (tx, Inl (Chord ErrKVPrefixConflict))
        else updateKeyTracker tx prefix PrefixFlag 0)"

definition SqliteKV_PrefixContains :: "SqliteKV \<Rightarrow> bytes \<Rightarrow> bytes \<Rightarrow> error + bool" where
  "SqliteKV_PrefixContains s prefix child = Inr (queryPrefixContains s prefix child)"

definition SqliteKV_PrefixList :: "SqliteKV \<Rightarrow> bytes \<Rightarrow> error + bytes list" where
  "SqliteKV_PrefixList s prefix = Inr (queryPrefixList s prefix)"

definition SqliteKV_PrefixRemove :: "SqliteKV \<Rightarrow> bytes \<Rightarrow> bytes \<Rightarrow> (SqliteKV, unit) stepped" where
  "SqliteKV_PrefixRemove s prefix child = withWriteTx s (\<lambda>tx.
     updateKeyTracker (queryPrefixRemove tx prefix child) prefix 0 PrefixFlag)"

definition SqliteKV_Acquire :: "SqliteKV \<Rightarrow> int \<Rightarrow> bytes \<Rightarrow> int \<Rightarrow> (SqliteKV, u64) stepped" where
  "SqliteKV_Acquire s now lease ttl =
     (case durationGuard ttl of
        None \<Rightarrow> (s, Inl (Chord ErrKVLeaseInvalidTTL))
      | Some ttl \<Rightarrow> withWriteTx s (\<lambda>tx.
          case Next now ttl 0 of
            Inl err \<Rightarrow> (tx, Inl err)
          | Inr nx \<Rightarrow>
              (let (tx, n) = queryLeaseAcquire tx lease nx (word_of_int now)
               in if n = 0 then (tx, Inl (Chord ErrKVLeaseConflict))
                  else case updateKeyTracker tx lease LeaseFlag 0 of
                         (tx, Inl err) \<Rightarrow> (tx, Inl err)
                       | (tx, Inr _) \<Rightarrow> (tx, Inr nx))))"

definition SqliteKV_Renew :: "SqliteKV \<Rightarrow> int \<Rightarrow> bytes \<Rightarrow> int \<Rightarrow> u64 \<Rightarrow> (SqliteKV, u64) stepped" where
  "SqliteKV_Renew s now lease ttl prevToken =
     (case durationGuard ttl of
        None \<Rightarrow> (s, Inl (Chord ErrKVLeaseInvalidTTL))
      | Some ttl \<Rightarrow> withWriteTx s (\<lambda>tx.
          case Next now ttl prevToken of
            Inl err \<Rightarrow> (tx, Inl err)
          | Inr nx \<Rightarrow>
              (let (tx, n) = queryLeaseRenew tx nx lease prevToken (word_of_int now)
               in if n = 0 then (tx, Inl (Chord ErrKVLeaseExpired))
                  else case updateKeyTracker tx lease LeaseFlag 0 of
                         (tx, Inl err) \<Rightarrow> (tx, Inl err)
                       | (tx, Inr _) \<Rightarrow> (tx, Inr nx))))"

definition SqliteKV_Release :: "SqliteKV \<Rightarrow> bytes \<Rightarrow> u64 \<Rightarrow> (SqliteKV, unit) stepped" where
  "SqliteKV_Release s lease token = withWriteTx s (\<lambda>tx.
     let (tx, n) = queryLeaseRelease tx lease token
     in if n = 0 then (tx, Inl (Chord ErrKVLeaseExpired))
        else updateKeyTracker tx lease 0 LeaseFlag)"

subsection \<open>Provider\<close>

definition importedSimpleValue :: "KVTransfer option \<Rightarrow> bytes option" where
  "importedSimpleValue val =
     (case val of
        None \<Rightarrow> None
      | Some t \<Rightarrow>
          (case SimpleValue t of
             Some v \<Rightarrow> Some v
           | None \<Rightarrow> if PrefixChildren t = [] \<and> LeaseToken t = 0 then Some [] else None))"

definition importRow :: "SqliteKV \<Rightarrow> nat \<Rightarrow> bytes \<Rightarrow> KVTransfer option \<Rightarrow> (SqliteKV, unit) stepped" where
  "importRow tx i key val =
     (case val of
        None \<Rightarrow> (tx, Inl (Opaque (''values['' @ dec i @ ''] is nil'')))
      | Some t \<Rightarrow>
          (let (tx, flag) = (case importedSimpleValue val of
                 Some simpleValue \<Rightarrow> (querySimplePut tx key simpleValue, SimpleFlag)
               | None \<Rightarrow> (tx, 0));
               tx = fold (\<lambda>child tx. fst (queryPrefixAppend tx key child)) (PrefixChildren t) tx;
               flag = (if PrefixChildren t \<noteq> [] then flag OR PrefixFlag else flag);
               (tx, flag) = (if LeaseToken t \<noteq> 0
                 then (queryLeaseImport tx key (LeaseToken t), flag OR LeaseFlag) else (tx, flag))
           in updateKeyTracker tx key flag 0))"

fun importRows :: "SqliteKV \<Rightarrow> nat \<Rightarrow> bytes list \<Rightarrow> KVTransfer option list \<Rightarrow> (SqliteKV, unit) stepped" where
  "importRows tx i (key # keys) (val # vals) =
     (case importRow tx i key val of
        (tx, Inl err) \<Rightarrow> (tx, Inl err)
      | (tx, Inr _) \<Rightarrow> importRows tx (Suc i) keys vals)"
| "importRows tx _ _ _ = (tx, Inr ())"

definition SqliteKV_Import :: "SqliteKV \<Rightarrow> bytes list \<Rightarrow> KVTransfer option list \<Rightarrow> (SqliteKV, unit) stepped" where
  "SqliteKV_Import s keys vals =
     (if length keys \<noteq> length vals
      then (s, Inl (Opaque (''keys and values length mismatch: '' @ dec (length keys) @ '' != '' @ dec (length vals))))
      else withWriteTx s (\<lambda>tx. importRows tx 0 keys vals))"

definition trackerComposites :: "bytes \<Rightarrow> u8 \<Rightarrow> KeyComposite list" where
  "trackerComposites key flags =
     (if flags AND SimpleFlag \<noteq> 0 then [(KC_SIMPLE, key)] else []) @
     (if flags AND PrefixFlag \<noteq> 0 then [(KC_PREFIX, key)] else []) @
     (if flags AND LeaseFlag \<noteq> 0 then [(KC_LEASE, key)] else [])"

definition SqliteKV_ListKeys :: "SqliteKV \<Rightarrow> bytes \<Rightarrow> error + KeyComposite list" where
  "SqliteKV_ListKeys s prefix =
     Inr (concat (map (\<lambda>(key, row).
       if \<not> HasPrefix key prefix then [] else trackerComposites key (kt_Flags row)) (key_trackers s)))"

definition exportRow :: "SqliteKV \<Rightarrow> bytes \<Rightarrow> KVTransfer" where
  "exportRow s key =
     \<lparr>SimpleValue = querySimpleGet s key,
      PrefixChildren = queryPrefixList s key,
      LeaseToken = (case queryLeaseGet s key of None \<Rightarrow> 0 | Some t \<Rightarrow> t)\<rparr>"

definition SqliteKV_Export :: "SqliteKV \<Rightarrow> bytes list \<Rightarrow> error + KVTransfer list" where
  "SqliteKV_Export s keys = Inr (map (exportRow s) keys)"

definition removeRows :: "bytes list \<Rightarrow> SqliteKV \<Rightarrow> SqliteKV" where
  "removeRows batch tx =
     tx\<lparr>simple_entries := filter (\<lambda>(k, _). k \<notin> set batch) (simple_entries tx),
        prefix_entries := filter (\<lambda>(p, _). p \<notin> set batch) (prefix_entries tx),
        lease_entries := filter (\<lambda>(k, _). k \<notin> set batch) (lease_entries tx),
        key_trackers := filter (\<lambda>(k, _). k \<notin> set batch) (key_trackers tx)\<rparr>"

definition removeKeysBatchSize :: nat where
  "removeKeysBatchSize = 200"

function removeBatches :: "bytes list \<Rightarrow> SqliteKV \<Rightarrow> SqliteKV" where
  "removeBatches keys tx =
     (if keys = [] then tx
      else removeBatches (drop removeKeysBatchSize keys) (removeRows (take removeKeysBatchSize keys) tx))"
  by pat_completeness auto

termination
  by (relation "measure (length \<circ> fst)") (auto simp: removeKeysBatchSize_def)

declare removeBatches.simps [simp del]

definition SqliteKV_RemoveKeys :: "SqliteKV \<Rightarrow> bytes list \<Rightarrow> (SqliteKV, unit) stepped" where
  "SqliteKV_RemoveKeys s keys =
     (if keys = [] then (s, Inr ()) else withWriteTx s (\<lambda>tx. (removeBatches keys tx, Inr ())))"

definition queryRangeKeysNorm :: "SqliteKV \<Rightarrow> u64 \<Rightarrow> u64 \<Rightarrow> (bytes \<times> KeyTracker) list" where
  "queryRangeKeysNorm s low high =
     sort_key (\<lambda>(_, row). sint (kt_Hash row))
       (filter (\<lambda>(_, row). (sint (kt_Hash row) > sint low \<and> sint (kt_Hash row) < sint high) \<or>
                            kt_Hash row = high) (key_trackers s))"

definition queryRangeKeysWrap :: "SqliteKV \<Rightarrow> u64 \<Rightarrow> u64 \<Rightarrow> (bytes \<times> KeyTracker) list" where
  "queryRangeKeysWrap s low high =
     sort_key (\<lambda>(_, row). sint (kt_Hash row))
       (filter (\<lambda>(_, row). sint (kt_Hash row) > sint low \<or> sint (kt_Hash row) < sint high \<or>
                            kt_Hash row = high) (key_trackers s))"

definition SqliteKV_RangeKeys :: "SqliteKV \<Rightarrow> u64 \<Rightarrow> u64 \<Rightarrow> error + bytes list" where
  "SqliteKV_RangeKeys s low high =
     Inr (map fst (if high > low then queryRangeKeysNorm s low high else queryRangeKeysWrap s low high))"

definition SqliteKV_ops :: "SqliteKV KVProvider" where
  "SqliteKV_ops =
     \<lparr>op_Put = SqliteKV_Put, op_Get = SqliteKV_Get, op_Delete = SqliteKV_Delete,
      op_PrefixAppend = SqliteKV_PrefixAppend, op_PrefixList = SqliteKV_PrefixList,
      op_PrefixContains = SqliteKV_PrefixContains, op_PrefixRemove = SqliteKV_PrefixRemove,
      op_Acquire = SqliteKV_Acquire, op_Renew = SqliteKV_Renew, op_Release = SqliteKV_Release,
      op_Import = SqliteKV_Import, op_ListKeys = SqliteKV_ListKeys, op_Export = SqliteKV_Export,
      op_RangeKeys = SqliteKV_RangeKeys, op_RemoveKeys = SqliteKV_RemoveKeys\<rparr>"

subsection \<open>Contents and invariant\<close>

definition sq_abs :: "SqliteKV \<Rightarrow> store" where
  "sq_abs s k =
     \<lparr>e_simple = map_of (simple_entries s) k,
      e_children = {c. (k, c) \<in> set (prefix_entries s)},
      e_lease = (case map_of (lease_entries s) k of None \<Rightarrow> 0 | Some t \<Rightarrow> t)\<rparr>"

definition flags_of :: "entry \<Rightarrow> u8" where
  "flags_of e =
     (if e_simple e \<noteq> None then SimpleFlag else 0) OR
     (if e_children e \<noteq> {} then PrefixFlag else 0) OR
     (if e_lease e \<noteq> 0 then LeaseFlag else 0)"

text \<open>The tracker mirrors the other tables: a row for exactly the live keys, with the key's
  hash and one flag per present piece.\<close>

definition tracker_of :: "(bytes \<Rightarrow> u64) \<Rightarrow> bytes \<Rightarrow> entry \<Rightarrow> KeyTracker option" where
  "tracker_of hash k e = (if live e then Some \<lparr>kt_Hash = hash k, kt_Flags = flags_of e\<rparr> else None)"

definition sq_tables :: "(bytes \<Rightarrow> u64) \<Rightarrow> SqliteKV \<Rightarrow> bool" where
  "sq_tables hash s \<longleftrightarrow> sq_hashFn s = hash \<and> (\<forall>k. on_ring (hash k)) \<and>
     om_wf (simple_entries s) \<and> distinct (prefix_entries s) \<and> om_wf (lease_entries s) \<and>
     om_wf (key_trackers s) \<and>
     (\<forall>k t. map_of (lease_entries s) k = Some t \<longrightarrow> t \<noteq> 0 \<and> token_ok t)"

definition sq_tracked :: "(bytes \<Rightarrow> u64) \<Rightarrow> SqliteKV \<Rightarrow> store \<Rightarrow> bool" where
  "sq_tracked hash s st \<longleftrightarrow> (\<forall>k. map_of (key_trackers s) k = tracker_of hash k (st k))"

definition sq_inv :: "(bytes \<Rightarrow> u64) \<Rightarrow> SqliteKV \<Rightarrow> bool" where
  "sq_inv hash s \<longleftrightarrow> sq_tables hash s \<and> sq_tracked hash s (sq_abs s)"

lemmas flag_defs = SimpleFlag_def PrefixFlag_def LeaseFlag_def

lemma flags_of_0: "flags_of e = 0 \<longleftrightarrow> \<not> live e"
  by (simp add: flags_of_def live_def flag_defs)

lemma flags_of_bits:
  "flags_of e AND SimpleFlag \<noteq> 0 \<longleftrightarrow> e_simple e \<noteq> None"
  "flags_of e AND PrefixFlag \<noteq> 0 \<longleftrightarrow> e_children e \<noteq> {}"
  "flags_of e AND LeaseFlag \<noteq> 0 \<longleftrightarrow> e_lease e \<noteq> 0"
  by (simp_all add: flags_of_def flag_defs)

text \<open>How the flags of a key change with each piece.\<close>

lemma flags_of_set [simp]:
  "flags_of (e\<lparr>e_simple := Some v\<rparr>) = flags_of e OR SimpleFlag"
  "flags_of (e\<lparr>e_simple := None\<rparr>) = flags_of e AND NOT SimpleFlag"
  "c \<noteq> {} \<Longrightarrow> flags_of (e\<lparr>e_children := c\<rparr>) = flags_of e OR PrefixFlag"
  "flags_of (e\<lparr>e_children := {}\<rparr>) = flags_of e AND NOT PrefixFlag"
  "t \<noteq> 0 \<Longrightarrow> flags_of (e\<lparr>e_lease := t\<rparr>) = flags_of e OR LeaseFlag"
  "flags_of (e\<lparr>e_lease := 0\<rparr>) = flags_of e AND NOT LeaseFlag"
  by (simp_all add: flags_of_def flag_defs)

lemma queryPrefixCount_pos: "queryPrefixCount s k > 0 \<longleftrightarrow> e_children (sq_abs s k) \<noteq> {}"
  by (auto simp: queryPrefixCount_def sq_abs_def filter_empty_conv)

lemma sq_abs_trackers [simp]: "sq_abs (s\<lparr>key_trackers := t\<rparr>) = sq_abs s"
  by (simp add: sq_abs_def fun_eq_iff)

lemma sq_tables_trackers: "sq_tables hash s \<Longrightarrow> om_wf t \<Longrightarrow> sq_tables hash (s\<lparr>key_trackers := t\<rparr>)"
  by (simp add: sq_tables_def)

text \<open>
  The tracker update, given that the tables changed at one key only and that the flags added
  and removed describe the change.
\<close>

lemma updateKeyTracker_ok:
  assumes tab: "sq_tables hash s" and trk: "sq_tracked hash s st"
    and other: "\<And>k'. k' \<noteq> k \<Longrightarrow> sq_abs s k' = st k'"
    and one: "add = 0 \<or> remove = 0"
    and fl: "flags_of (sq_abs s k) = (flags_of (st k) OR add) AND NOT
      (if remove AND PrefixFlag \<noteq> 0 \<and> e_children (sq_abs s k) \<noteq> {} then remove AND NOT PrefixFlag else remove)"
  shows "\<exists>s'. updateKeyTracker s k add remove = (s', Inr ()) \<and> sq_inv hash s' \<and> sq_abs s' = sq_abs s"
proof -
  have upd: "sq_inv hash (s\<lparr>key_trackers := t\<rparr>)"
    if "om_wf t" "map_of t = (map_of (key_trackers s))(k := tracker_of hash k (sq_abs s k))" for t
    using that tab trk other by (auto simp: sq_inv_def sq_tables_trackers sq_tracked_def)
  have wf: "om_wf (key_trackers s)" "sq_hashFn s = hash" using tab by (simp_all add: sq_tables_def)
  show ?thesis
  proof (cases "live (st k)")
    case False
    then have none: "map_of (key_trackers s) k = None" and z: "flags_of (st k) = 0"
      using trk by (simp_all add: sq_tracked_def tracker_of_def flags_of_0)
    have fa: "flags_of (sq_abs s k) = add" using fl one z by auto
    show ?thesis
    proof (cases "add = 0")
      case True
      then have "\<not> live (sq_abs s k)" using fa by (simp add: flags_of_0[symmetric])
      then have "sq_inv hash (s\<lparr>key_trackers := key_trackers s\<rparr>)"
        using none by (intro upd) (auto simp: wf tracker_of_def)
      then show ?thesis using none True by (simp add: updateKeyTracker_def)
    next
      case False
      then have "live (sq_abs s k)" using fa flags_of_0 by metis
      then have "sq_inv hash (queryTrackerInsert s k (hash k) add)"
        unfolding queryTrackerInsert_def using fa by (intro upd) (auto simp: wf tracker_of_def)
      then show ?thesis using none False wf by (simp add: updateKeyTracker_def queryTrackerInsert_def)
    qed
  next
    case True
    then have some: "map_of (key_trackers s) k = Some \<lparr>kt_Hash = hash k, kt_Flags = flags_of (st k)\<rparr>"
      using trk by (simp add: sq_tracked_def tracker_of_def)
    have step: "updateKeyTracker s k add remove =
        (if flags_of (sq_abs s k) = 0 then (queryTrackerDelete s k, Inr ())
         else (queryTrackerUpdate s (flags_of (sq_abs s k)) k, Inr ()))"
      using some wf unfolding updateKeyTracker_def fl by (simp add: queryPrefixCount_pos)
    show ?thesis
    proof (cases "live (sq_abs s k)")
      case True
      then have "sq_inv hash (queryTrackerUpdate s (flags_of (sq_abs s k)) k)"
        using some unfolding queryTrackerUpdate_def by (simp, intro upd) (auto simp: wf tracker_of_def)
      then show ?thesis using step some True by (simp add: flags_of_0 queryTrackerUpdate_def)
    next
      case False
      then have "sq_inv hash (queryTrackerDelete s k)"
        unfolding queryTrackerDelete_def by (intro upd) (auto simp: wf tracker_of_def)
      then show ?thesis using step False by (simp add: flags_of_0 queryTrackerDelete_def)
    qed
  qed
qed

lemma sq_write:
  assumes "sq_inv hash s" "sq_tables hash s1" "key_trackers s1 = key_trackers s"
    and "sq_abs s1 = (sq_abs s)(k := e')" "add = 0 \<or> remove = 0"
    and "flags_of e' = (flags_of (sq_abs s k) OR add) AND NOT
      (if remove AND PrefixFlag \<noteq> 0 \<and> e_children e' \<noteq> {} then remove AND NOT PrefixFlag else remove)"
  obtains s' where "updateKeyTracker s1 k add remove = (s', Inr ())" "sq_inv hash s'"
    "sq_abs s' = (sq_abs s)(k := e')"
  using updateKeyTracker_ok[of hash s1 "sq_abs s" k add remove] assms
  by (auto simp: sq_inv_def sq_tracked_def)

lemma NOT_0 [simp]: "(w :: u8) AND NOT 0 = w"
  by simp

subsection \<open>Each operation meets the contract\<close>

lemma sq_Put:
  assumes "sq_inv hash s" "SqliteKV_Put s k (Some v) = (s', r)"
  shows "sq_inv hash s' \<and> r = Inr () \<and> sq_abs s' = set_simple (sq_abs s) k (Some v)"
proof -
  have "sq_tables hash (querySimplePut s k v)" "key_trackers (querySimplePut s k v) = key_trackers s"
    "sq_abs (querySimplePut s k v) = (sq_abs s)(k := (sq_abs s k)\<lparr>e_simple := Some v\<rparr>)"
    using assms(1) by (auto simp: sq_inv_def sq_tables_def querySimplePut_def sq_abs_def fun_eq_iff)
  from sq_write[OF assms(1) this, of SimpleFlag 0] obtain s2 where
    "updateKeyTracker (querySimplePut s k v) k SimpleFlag 0 = (s2, Inr ())" "sq_inv hash s2"
    "sq_abs s2 = (sq_abs s)(k := (sq_abs s k)\<lparr>e_simple := Some v\<rparr>)"
    by auto
  with assms(2) show ?thesis
    by (simp add: SqliteKV_Put_def withWriteTx_def bindBytesAsBlob_def set_simple_def)
qed

lemma sq_Put_nil: "SqliteKV_Put s k None = SqliteKV_Put s k (Some [])"
  by (simp add: SqliteKV_Put_def bindBytesAsBlob_def)

lemma sq_Put_nil_ok:
  assumes "sq_inv hash s" "SqliteKV_Put s k None = (s', r)"
  shows "sq_inv hash s' \<and> r = Inr () \<and>
    (sq_abs s' = set_simple (sq_abs s) k None \<or> sq_abs s' = set_simple (sq_abs s) k (Some []))"
  using sq_Put[OF assms[unfolded sq_Put_nil]] by blast

lemma sq_Get: "SqliteKV_Get s k = Inr (e_simple (sq_abs s k))"
  by (simp add: SqliteKV_Get_def querySimpleGet_def sq_abs_def)

lemma sq_Delete:
  assumes "sq_inv hash s" "SqliteKV_Delete s k = (s', r)"
  shows "sq_inv hash s' \<and> r = Inr () \<and> sq_abs s' = set_simple (sq_abs s) k None"
proof -
  have "sq_tables hash (querySimpleDel s k)" "key_trackers (querySimpleDel s k) = key_trackers s"
    "sq_abs (querySimpleDel s k) = (sq_abs s)(k := (sq_abs s k)\<lparr>e_simple := None\<rparr>)"
    using assms(1) by (auto simp: sq_inv_def sq_tables_def querySimpleDel_def sq_abs_def fun_eq_iff)
  from sq_write[OF assms(1) this, of 0 SimpleFlag] obtain s2 where
    "updateKeyTracker (querySimpleDel s k) k 0 SimpleFlag = (s2, Inr ())" "sq_inv hash s2"
    "sq_abs s2 = (sq_abs s)(k := (sq_abs s k)\<lparr>e_simple := None\<rparr>)"
    by (auto simp: flag_defs)
  with assms(2) show ?thesis by (simp add: SqliteKV_Delete_def withWriteTx_def set_simple_def)
qed

lemma sq_PrefixAppend:
  assumes "sq_inv hash s" "SqliteKV_PrefixAppend s k c = (s', r)"
  shows "sq_inv hash s' \<and> sq_abs s' = set_children (sq_abs s) k (insert c (e_children (sq_abs s k))) \<and>
    r = (if c \<in> e_children (sq_abs s k) then Inl (Chord ErrKVPrefixConflict) else Inr ())"
proof (cases "(k, c) \<in> set (prefix_entries s)")
  case True
  then have "c \<in> e_children (sq_abs s k)" by (simp add: sq_abs_def)
  with True assms show ?thesis
    by (simp add: SqliteKV_PrefixAppend_def withWriteTx_def queryPrefixAppend_def insert_absorb)
next
  case False
  let ?s = "s\<lparr>prefix_entries := prefix_entries s @ [(k, c)]\<rparr>"
  let ?e = "(sq_abs s k)\<lparr>e_children := insert c (e_children (sq_abs s k))\<rparr>"
  have "sq_tables hash ?s" "key_trackers ?s = key_trackers s" "sq_abs ?s = (sq_abs s)(k := ?e)"
    using assms(1) False by (auto simp: sq_inv_def sq_tables_def sq_abs_def fun_eq_iff)
  from sq_write[OF assms(1) this, of PrefixFlag 0] obtain s2 where
    "updateKeyTracker ?s k PrefixFlag 0 = (s2, Inr ())" "sq_inv hash s2" "sq_abs s2 = (sq_abs s)(k := ?e)"
    by auto
  with False assms(2) show ?thesis
    by (simp add: SqliteKV_PrefixAppend_def withWriteTx_def queryPrefixAppend_def set_children_def)
      (simp add: sq_abs_def)
qed

lemma sq_PrefixList:
  assumes "sq_inv hash s"
  shows "\<exists>cs. SqliteKV_PrefixList s k = Inr cs \<and> distinct cs \<and> set cs = e_children (sq_abs s k)"
proof -
  have "distinct (queryPrefixList s k)"
    using assms unfolding queryPrefixList_def
    by (auto simp: sq_inv_def sq_tables_def distinct_map inj_on_def)
  moreover have "set (queryPrefixList s k) = e_children (sq_abs s k)"
    by (force simp: queryPrefixList_def sq_abs_def)
  ultimately show ?thesis by (simp add: SqliteKV_PrefixList_def)
qed

lemma sq_PrefixContains: "SqliteKV_PrefixContains s k c = Inr (c \<in> e_children (sq_abs s k))"
  by (simp add: SqliteKV_PrefixContains_def queryPrefixContains_def sq_abs_def)

lemma flags_children_shrink:
  "c' \<subseteq> e_children e \<Longrightarrow> flags_of (e\<lparr>e_children := c'\<rparr>) =
     (flags_of e OR 0) AND NOT (if PrefixFlag AND PrefixFlag \<noteq> 0 \<and> c' \<noteq> {}
        then PrefixFlag AND NOT PrefixFlag else PrefixFlag)"
  by (auto simp: flags_of_def flag_defs)

lemma sq_PrefixRemove:
  assumes "sq_inv hash s" "SqliteKV_PrefixRemove s k c = (s', r)"
  shows "sq_inv hash s' \<and> r = Inr () \<and> sq_abs s' = set_children (sq_abs s) k (e_children (sq_abs s k) - {c})"
proof -
  let ?s = "queryPrefixRemove s k c"
  let ?c = "e_children (sq_abs s k) - {c}"
  have "sq_tables hash ?s" "key_trackers ?s = key_trackers s"
    "sq_abs ?s = (sq_abs s)(k := (sq_abs s k)\<lparr>e_children := ?c\<rparr>)"
    using assms(1) by (auto simp: sq_inv_def sq_tables_def queryPrefixRemove_def sq_abs_def fun_eq_iff)
  from sq_write[OF assms(1) this, of 0 PrefixFlag] obtain s2 where
    "updateKeyTracker ?s k 0 PrefixFlag = (s2, Inr ())" "sq_inv hash s2"
    "sq_abs s2 = (sq_abs s)(k := (sq_abs s k)\<lparr>e_children := ?c\<rparr>)"
    using flags_children_shrink[of ?c "sq_abs s k"] by auto
  with assms(2) show ?thesis by (simp add: SqliteKV_PrefixRemove_def withWriteTx_def set_children_def)
qed

lemma sint_nanos: "Next nanos ttl prev = Inr t \<Longrightarrow> sint (word_of_int nanos :: u64) = nanos"
  using Next_range[of nanos ttl prev t] by (simp add: sint_token token_ok_def uint_small)

lemma sq_lease_cases:
  assumes "sq_inv hash s"
  obtains "map_of (lease_entries s) k = None" "e_lease (sq_abs s k) = 0"
  | t where "map_of (lease_entries s) k = Some t" "e_lease (sq_abs s k) = t" "t \<noteq> 0" "sint t = uint t"
  using assms by (cases "map_of (lease_entries s) k")
    (auto simp: sq_abs_def sq_inv_def sq_tables_def sint_token)

lemma sq_lease_set:
  assumes "sq_inv hash s" "t \<noteq> 0" "token_ok t"
  obtains s' where
    "updateKeyTracker (s\<lparr>lease_entries := om_store k t (lease_entries s)\<rparr>) k LeaseFlag 0 = (s', Inr ())"
    "sq_inv hash s'" "sq_abs s' = set_lease (sq_abs s) k t"
proof -
  let ?s = "s\<lparr>lease_entries := om_store k t (lease_entries s)\<rparr>"
  have "sq_tables hash ?s" "key_trackers ?s = key_trackers s"
    "sq_abs ?s = (sq_abs s)(k := (sq_abs s k)\<lparr>e_lease := t\<rparr>)"
    using assms by (auto simp: sq_inv_def sq_tables_def sq_abs_def fun_eq_iff)
  from sq_write[OF assms(1) this, of LeaseFlag 0] assms(2) that show ?thesis
    by (auto simp: set_lease_def)
qed

lemma sq_Acquire:
  assumes "sq_inv hash s" "SqliteKV_Acquire s now k ttl = (s', r)"
  shows "sq_inv hash s' \<and>
    sq_abs s' = set_lease (sq_abs s) k (fst (spec_Acquire now ttl (e_lease (sq_abs s k)))) \<and>
    r = snd (spec_Acquire now ttl (e_lease (sq_abs s k)))"
proof (cases "durationGuard ttl")
  case None
  with assms show ?thesis by (auto simp: SqliteKV_Acquire_def spec_Acquire_def)
next
  case (Some td)
  show ?thesis
  proof (cases "Next now td 0")
    case (Inl err)
    have "SqliteKV_Acquire s now k ttl = (s, Inl err)" "spec_Acquire now ttl cur = (cur, Inl err)" for cur
      using Some Inl by (simp_all add: SqliteKV_Acquire_def spec_Acquire_def withWriteTx_def)
    with assms show ?thesis by simp
  next
    case (Inr nx)
    have n: "nx \<noteq> 0" "token_ok nx" "0 \<le> now" "sint (word_of_int now :: u64) = now"
      using NextD(1,5)[OF Inr] NextD_nonzero[OF Inr] sint_nanos[OF Inr] by simp_all
    obtain s2 where s2: "updateKeyTracker (s\<lparr>lease_entries := om_store k nx (lease_entries s)\<rparr>) k LeaseFlag 0
      = (s2, Inr ())" "sq_inv hash s2" "sq_abs s2 = set_lease (sq_abs s) k nx"
      using sq_lease_set[OF assms(1) n(1,2)] by metis
    have "SqliteKV_Acquire s now k ttl =
        (if \<not> now < uint (e_lease (sq_abs s k)) then (s2, Inr nx) else (s, Inl (Chord ErrKVLeaseConflict)))"
      using Some Inr n s2(1)
      by (cases rule: sq_lease_cases[OF assms(1), of k])
        (simp_all add: SqliteKV_Acquire_def withWriteTx_def queryLeaseAcquire_def)
    moreover have "spec_Acquire now ttl cur =
        (if \<not> now < uint cur then (nx, Inr nx) else (cur, Inl (Chord ErrKVLeaseConflict)))" for cur
      using Some Inr by (simp add: spec_Acquire_def)
    ultimately show ?thesis using assms s2(2,3) by (auto split: if_splits)
  qed
qed

lemma sq_Renew:
  assumes "sq_inv hash s" "SqliteKV_Renew s now k ttl prev = (s', r)"
  shows "sq_inv hash s' \<and>
    sq_abs s' = set_lease (sq_abs s) k (fst (spec_Renew now ttl prev (e_lease (sq_abs s k)))) \<and>
    r = snd (spec_Renew now ttl prev (e_lease (sq_abs s k)))"
proof (cases "durationGuard ttl")
  case None
  with assms show ?thesis by (auto simp: SqliteKV_Renew_def spec_Renew_def)
next
  case (Some td)
  show ?thesis
  proof (cases "Next now td prev")
    case (Inl err)
    have "SqliteKV_Renew s now k ttl prev = (s, Inl err)" "spec_Renew now ttl prev cur = (cur, Inl err)" for cur
      using Some Inl by (simp_all add: SqliteKV_Renew_def spec_Renew_def withWriteTx_def)
    with assms show ?thesis by simp
  next
    case (Inr nx)
    have n: "nx \<noteq> 0" "token_ok nx" "0 \<le> now" "sint (word_of_int now :: u64) = now"
      using NextD(1,5)[OF Inr] NextD_nonzero[OF Inr] sint_nanos[OF Inr] by simp_all
    obtain s2 where s2: "updateKeyTracker (s\<lparr>lease_entries := om_store k nx (lease_entries s)\<rparr>) k LeaseFlag 0
      = (s2, Inr ())" "sq_inv hash s2" "sq_abs s2 = set_lease (sq_abs s) k nx"
      using sq_lease_set[OF assms(1) n(1,2)] by metis
    have "SqliteKV_Renew s now k ttl prev =
        (if (e_lease (sq_abs s k)) = prev \<and> now < uint (e_lease (sq_abs s k)) then (s2, Inr nx) else (s, Inl (Chord ErrKVLeaseExpired)))"
      using Some Inr n s2(1)
      by (cases rule: sq_lease_cases[OF assms(1), of k])
        (auto simp: SqliteKV_Renew_def withWriteTx_def queryLeaseRenew_def)
    moreover have "spec_Renew now ttl prev cur =
        (if cur = prev \<and> now < uint cur then (nx, Inr nx) else (cur, Inl (Chord ErrKVLeaseExpired)))" for cur
      using Some Inr by (simp add: spec_Renew_def)
    ultimately show ?thesis using assms s2(2,3) by (auto split: if_splits)
  qed
qed

lemma sq_Release:
  assumes "sq_inv hash s" "token \<noteq> 0" "SqliteKV_Release s k token = (s', r)"
  shows "sq_inv hash s' \<and>
    sq_abs s' = set_lease (sq_abs s) k (fst (spec_Release token (e_lease (sq_abs s k)))) \<and>
    r = snd (spec_Release token (e_lease (sq_abs s k)))"
proof (cases "map_of (lease_entries s) k = Some token")
  case True
  let ?s = "s\<lparr>lease_entries := om_delete k (lease_entries s)\<rparr>"
  have "sq_tables hash ?s" "key_trackers ?s = key_trackers s"
    "sq_abs ?s = (sq_abs s)(k := (sq_abs s k)\<lparr>e_lease := 0\<rparr>)"
    using assms(1) by (auto simp: sq_inv_def sq_tables_def sq_abs_def fun_eq_iff)
  from sq_write[OF assms(1) this, of 0 LeaseFlag] obtain s2 where
    "updateKeyTracker ?s k 0 LeaseFlag = (s2, Inr ())" "sq_inv hash s2"
    "sq_abs s2 = (sq_abs s)(k := (sq_abs s k)\<lparr>e_lease := 0\<rparr>)"
    by (auto simp: flag_defs)
  moreover have "e_lease (sq_abs s k) = token" using True by (simp add: sq_abs_def)
  ultimately show ?thesis using assms(3) True
    by (simp add: SqliteKV_Release_def withWriteTx_def queryLeaseRelease_def spec_Release_def set_lease_def)
next
  case False
  then have "e_lease (sq_abs s k) \<noteq> token"
    using assms(2) by (auto simp: sq_abs_def split: option.splits)
  with False assms(1,3) show ?thesis
    by (simp add: SqliteKV_Release_def withWriteTx_def queryLeaseRelease_def spec_Release_def)
qed

lemma sq_Release_zero:
  assumes "sq_inv hash s" "SqliteKV_Release s k 0 = (s', r)"
  shows "sq_inv hash s' \<and> sq_abs s' = sq_abs s \<and>
    (r = Inl (Chord ErrKVLeaseExpired) \<or> e_lease (sq_abs s k) = 0 \<and> r = Inr ())"
proof -
  have "map_of (lease_entries s) k \<noteq> Some 0" using assms(1) by (auto simp: sq_inv_def sq_tables_def)
  then show ?thesis
    using assms by (auto simp: SqliteKV_Release_def withWriteTx_def queryLeaseRelease_def)
qed

subsection \<open>Transfers\<close>

definition appendRows :: "bytes \<Rightarrow> bytes list \<Rightarrow> SqliteKV \<Rightarrow> SqliteKV" where
  "appendRows k cs = fold (\<lambda>child tx. fst (queryPrefixAppend tx k child)) cs"

lemma appendRows_ok:
  "sq_tables hash s \<Longrightarrow> sq_tables hash (appendRows k cs s) \<and>
   key_trackers (appendRows k cs s) = key_trackers s \<and>
   sq_abs (appendRows k cs s) =
     (sq_abs s)(k := (sq_abs s k)\<lparr>e_children := set cs \<union> e_children (sq_abs s k)\<rparr>)"
  unfolding appendRows_def
proof (induction cs arbitrary: s)
  case (Cons c cs)
  let ?s = "fst (queryPrefixAppend s k c)"
  have "sq_tables hash ?s" "key_trackers ?s = key_trackers s"
    "sq_abs ?s = (sq_abs s)(k := (sq_abs s k)\<lparr>e_children := insert c (e_children (sq_abs s k))\<rparr>)"
    using Cons.prems by (auto simp: queryPrefixAppend_def sq_tables_def sq_abs_def fun_eq_iff)
  with Cons.IH[of ?s] show ?case by (auto simp: fun_eq_iff)
qed simp

text \<open>What the import of a transfer makes of an entry: the children are added to those present, and a
  transfer without lease, or without value but with children or lease, keeps the lease or value.\<close>

definition sq_import_entry :: "entry \<Rightarrow> KVTransfer \<Rightarrow> entry" where
  "sq_import_entry e t =
     \<lparr>e_simple = (case importedSimpleValue (Some t) of None \<Rightarrow> e_simple e | Some v \<Rightarrow> Some v),
      e_children = set (PrefixChildren t) \<union> e_children e,
      e_lease = (if LeaseToken t \<noteq> 0 then LeaseToken t else e_lease e)\<rparr>"

lemma sq_import_new: "live (transfer_entry t) \<Longrightarrow> sq_import_entry no_entry t = transfer_entry t"
  by (auto simp: sq_import_entry_def transfer_entry_def importedSimpleValue_def live_def split: option.splits)

lemma importRow_ok:
  assumes inv: "sq_inv hash s" and t: "token_ok (LeaseToken t)"
  shows "\<exists>s'. importRow s i k (Some t) = (s', Inr ()) \<and> sq_inv hash s' \<and>
    sq_abs s' = (sq_abs s)(k := sq_import_entry (sq_abs s k) t)"
proof -
  have tab: "sq_tables hash s" using inv by (simp add: sq_inv_def)
  define v where "v = importedSimpleValue (Some t)"
  define s1 where "s1 = (case v of Some x \<Rightarrow> querySimplePut s k x | None \<Rightarrow> s)"
  define s2 where "s2 = appendRows k (PrefixChildren t) s1"
  define s3 where "s3 = (if LeaseToken t \<noteq> 0 then queryLeaseImport s2 k (LeaseToken t) else s2)"
  define e where "e = (sq_abs s k)\<lparr>e_simple := (case v of None \<Rightarrow> e_simple (sq_abs s k) | Some x \<Rightarrow> Some x)\<rparr>"
  have s1: "sq_tables hash s1" "key_trackers s1 = key_trackers s" "sq_abs s1 = (sq_abs s)(k := e)"
    using tab by (auto simp: s1_def e_def querySimplePut_def sq_tables_def sq_abs_def fun_eq_iff split: option.splits)
  have s2: "sq_tables hash s2" "key_trackers s2 = key_trackers s"
    "sq_abs s2 = (sq_abs s)(k := e\<lparr>e_children := set (PrefixChildren t) \<union> e_children e\<rparr>)"
    using appendRows_ok[OF s1(1), of k "PrefixChildren t"] s1 by (auto simp: s2_def)
  have s3: "sq_tables hash s3" "key_trackers s3 = key_trackers s"
    using s2 t by (auto simp: s3_def queryLeaseImport_def sq_tables_def)
  have "sq_abs s3 = (\<lambda>k'. (sq_abs s2 k')\<lparr>e_lease := (if k' = k \<and> LeaseToken t \<noteq> 0 then LeaseToken t
      else e_lease (sq_abs s2 k'))\<rparr>)"
    by (auto simp: s3_def queryLeaseImport_def sq_abs_def fun_eq_iff)
  then have a3: "sq_abs s3 = (sq_abs s)(k := sq_import_entry (sq_abs s k) t)"
    using s2(3) by (auto simp: fun_eq_iff sq_import_entry_def v_def e_def split: option.splits)
  define flag where "flag = (if v \<noteq> None then SimpleFlag else 0) OR
    (if PrefixChildren t \<noteq> [] then PrefixFlag else 0) OR (if LeaseToken t \<noteq> 0 then LeaseFlag else 0)"
  have fl: "flags_of (sq_import_entry (sq_abs s k) t) = flags_of (sq_abs s k) OR flag"
    by (auto simp: flag_def flags_of_def sq_import_entry_def v_def[symmetric] flag_defs split: option.splits)
  obtain s' where s': "updateKeyTracker s3 k flag 0 = (s', Inr ())" "sq_inv hash s'"
    "sq_abs s' = (sq_abs s)(k := sq_import_entry (sq_abs s k) t)"
    by (rule sq_write[OF inv s3 a3, of flag 0]) (use fl in auto)
  have "importRow s i k (Some t) = updateKeyTracker s3 k flag 0"
    by (auto simp: importRow_def s3_def s2_def s1_def appendRows_def flag_def v_def[symmetric]
        Let_def or.assoc split: option.splits)
  with s' show ?thesis by simp
qed

fun sq_import_entries :: "store \<Rightarrow> bytes list \<Rightarrow> KVTransfer list \<Rightarrow> store" where
  "sq_import_entries st (k # ks) (t # ts) = sq_import_entries (st(k := sq_import_entry (st k) t)) ks ts"
| "sq_import_entries st _ _ = st"

lemma sq_import_absent:
  "distinct ks \<Longrightarrow> (\<And>t. t \<in> set ts \<Longrightarrow> live (transfer_entry t)) \<Longrightarrow> (\<And>k. k \<in> set ks \<Longrightarrow> st k = no_entry) \<Longrightarrow>
   sq_import_entries st ks ts = import_entries st ks ts"
proof (induction st ks ts rule: sq_import_entries.induct)
  case (1 st k ks t ts)
  have e: "sq_import_entry (st k) t = transfer_entry t" using "1.prems" sq_import_new by simp
  have "sq_import_entries (st(k := transfer_entry t)) ks ts = import_entries (st(k := transfer_entry t)) ks ts"
    by (rule "1.IH"[unfolded e]) (use "1.prems" in auto)
  then show ?case using e by (simp del: fun_upd_apply)
qed simp_all

lemma importRows_ok:
  "sq_inv hash s \<Longrightarrow> (\<And>t. t \<in> set ts \<Longrightarrow> token_ok (LeaseToken t)) \<Longrightarrow>
   \<exists>s'. importRows s i ks (map Some ts) = (s', Inr ()) \<and> sq_inv hash s' \<and>
     sq_abs s' = sq_import_entries (sq_abs s) ks ts"
proof (induction "sq_abs s" ks ts arbitrary: s i rule: sq_import_entries.induct)
  case (1 k ks t ts)
  obtain s1 where s1: "importRow s i k (Some t) = (s1, Inr ())" "sq_inv hash s1"
    "sq_abs s1 = (sq_abs s)(k := sq_import_entry (sq_abs s k) t)"
    using importRow_ok[of hash s t i k] "1.prems" by auto
  have "\<exists>s'. importRows s1 (Suc i) ks (map Some ts) = (s', Inr ()) \<and> sq_inv hash s' \<and>
      sq_abs s' = sq_import_entries (sq_abs s1) ks ts"
    by (rule "1.hyps"[OF s1(3)[symmetric] s1(2)]) (use "1.prems" in simp)
  then show ?case using s1 by simp
qed simp_all

lemma sq_Import_any:
  assumes "sq_inv hash s" "\<And>t. t \<in> set ts \<Longrightarrow> token_ok (LeaseToken t)"
    and "SqliteKV_Import s ks (map Some ts) = (s', r)"
  shows "sq_inv hash s' \<and> (if length ks = length ts then r = Inr () \<and> sq_abs s' = sq_import_entries (sq_abs s) ks ts
    else \<not> is_ok r \<and> s' = s)"
proof -
  obtain s2 where "importRows s 0 ks (map Some ts) = (s2, Inr ())" "sq_inv hash s2"
    "sq_abs s2 = sq_import_entries (sq_abs s) ks ts"
    using importRows_ok[of hash s ts 0 ks] assms(1,2) by auto
  then show ?thesis using assms(1,3) by (auto simp: SqliteKV_Import_def withWriteTx_def split: if_splits)
qed

lemma sq_Import:
  assumes "sq_inv hash s" "length ks = length ts" "distinct ks"
    and "\<And>t. t \<in> set ts \<Longrightarrow> live (transfer_entry t) \<and> token_ok (LeaseToken t)"
    and "\<And>k. k \<in> set ks \<Longrightarrow> sq_abs s k = no_entry"
    and "SqliteKV_Import s ks (map Some ts) = (s', r)"
  shows "sq_inv hash s' \<and> r = Inr () \<and> sq_abs s' = import_entries (sq_abs s) ks ts"
  using sq_Import_any[OF assms(1) _ assms(6)] sq_import_absent[OF assms(3) _ assms(5)] assms(2,4) by auto

lemma sq_Export: "\<exists>ts. SqliteKV_Export s ks = Inr ts \<and> map transfer_entry ts = map (sq_abs s) ks"
proof -
  have "transfer_entry (exportRow s k) = sq_abs s k" for k
    by (force simp: exportRow_def transfer_entry_def sq_abs_def querySimpleGet_def queryPrefixList_def
        queryLeaseGet_def)
  then show ?thesis by (auto simp: SqliteKV_Export_def)
qed

lemma trackerComposites_keyed:
  "distinct (trackerComposites k f) \<and> (\<forall>y \<in> set (trackerComposites k f). snd y = k)"
  by (simp add: trackerComposites_def)

lemma set_trackerComposites: "set (trackerComposites k (flags_of e)) = entry_composites k e"
  by (simp add: trackerComposites_def entry_composites_def flags_of_bits)

lemma set_concat_pairs:
  "c \<in> set (concat (map (\<lambda>(k, v). if \<not> P k then [] else g k (h v)) xs)) \<longleftrightarrow>
   (\<exists>k v. (k, v) \<in> set xs \<and> P k \<and> c \<in> set (g k (h v)))"
  by (auto split: if_splits)

lemma sq_ListKeys:
  assumes "sq_inv hash s"
  shows "\<exists>cs. SqliteKV_ListKeys s p = Inr cs \<and> distinct cs \<and>
    set cs = (\<Union>k \<in> {k. HasPrefix k p}. entry_composites k (sq_abs s k))"
proof -
  let ?f = "\<lambda>(key, row). if \<not> HasPrefix key p then [] else trackerComposites key (kt_Flags row)"
  have wf: "om_wf (key_trackers s)" and trk: "\<And>k. map_of (key_trackers s) k = tracker_of hash k (sq_abs s k)"
    using assms by (auto simp: sq_inv_def sq_tables_def sq_tracked_def)
  have d: "distinct (concat (map ?f (key_trackers s)))"
    by (rule distinct_concat_keyed[OF om_wf_distinct[OF wf], where g = snd])
      (use trackerComposites_keyed in force)
  have "c \<in> set (concat (map ?f (key_trackers s))) \<longleftrightarrow>
      (\<exists>k row. (k, row) \<in> set (key_trackers s) \<and> HasPrefix k p \<and>
        c \<in> set (trackerComposites k (kt_Flags row)))" for c
    by (rule set_concat_pairs)
  moreover have "(\<exists>row. (k, row) \<in> set (key_trackers s) \<and> c \<in> set (trackerComposites k (kt_Flags row))) \<longleftrightarrow>
      c \<in> entry_composites k (sq_abs s k)" for c k
    unfolding om_wf_map_of[OF wf] trk tracker_of_def by (cases "live (sq_abs s k)") (simp_all add: set_trackerComposites live_iff)
  ultimately have "c \<in> set (concat (map ?f (key_trackers s))) \<longleftrightarrow>
      (\<exists>k. HasPrefix k p \<and> c \<in> entry_composites k (sq_abs s k))" for c
    by blast
  then have "set (concat (map ?f (key_trackers s))) =
      (\<Union>k \<in> {k. HasPrefix k p}. entry_composites k (sq_abs s k))"
    by blast
  with d show ?thesis unfolding SqliteKV_ListKeys_def by blast
qed

lemma sint_on_ring: "on_ring i \<Longrightarrow> sint i = uint i"
proof (rule sint_token)
  assume "on_ring i"
  then have "uint i < 2 ^ 48" by (simp add: on_ring_iff word_less_def MaxIdentitifer_eq)
  then show "token_ok i" by (simp add: token_ok_def MaxInt64_def)
qed

lemma sq_RangeKeys:
  assumes "sq_inv hash s" "on_ring low" "on_ring high"
  shows "\<exists>ks. SqliteKV_RangeKeys s low high = Inr ks \<and> distinct ks \<and>
    set ks = {k. live (sq_abs s k) \<and> Between low (hash k) high True}"
proof -
  have wf: "om_wf (key_trackers s)" and trk: "\<And>k. map_of (key_trackers s) k = tracker_of hash k (sq_abs s k)"
    and ring: "\<And>k. on_ring (hash k)"
    using assms by (auto simp: sq_inv_def sq_tables_def sq_tracked_def)
  have row: "(k, r) \<in> set (key_trackers s) \<longleftrightarrow>
      live (sq_abs s k) \<and> r = \<lparr>kt_Hash = hash k, kt_Flags = flags_of (sq_abs s k)\<rparr>" for k r
    by (auto simp: om_wf_map_of[OF wf] trk tracker_of_def)
  let ?P = "\<lambda>(_, r). Between low (kt_Hash r) high True"
  let ?key = "\<lambda>(_, r). sint (kt_Hash r)"
  have "(if high > low then queryRangeKeysNorm s low high else queryRangeKeysWrap s low high) =
      sort_key ?key (filter ?P (key_trackers s))"
    using assms(2,3) ring unfolding queryRangeKeysNorm_def queryRangeKeysWrap_def
    by (auto simp: row Between_def sint_on_ring word_less_def intro!: arg_cong[where f = "sort_key ?key"]
        filter_cong)
  then have l: "SqliteKV_RangeKeys s low high = Inr (map fst (sort_key ?key (filter ?P (key_trackers s))))"
    by (simp add: SqliteKV_RangeKeys_def)
  have "distinct (map fst (filter ?P (key_trackers s)))"
    by (rule distinct_map_filter[OF om_wf_distinct[OF wf]])
  then have "distinct (map fst (sort_key ?key (filter ?P (key_trackers s))))"
    by (simp add: distinct_map)
  moreover have "set (map fst (sort_key ?key (filter ?P (key_trackers s)))) =
      {k. live (sq_abs s k) \<and> Between low (hash k) high True}"
    by (auto simp: row image_iff)
  ultimately show ?thesis using l by blast
qed

lemma removeRows_ok:
  assumes "sq_inv hash s"
  shows "sq_inv hash (removeRows b s) \<and> sq_abs (removeRows b s) = remove_entries (sq_abs s) b"
proof -
  have m: "map_of (filter (\<lambda>(k, _). k \<notin> set b) m) = (\<lambda>k. if k \<in> set b then None else map_of m k)"
    for m :: "(bytes \<times> 'x) list"
    by (induction m) (auto simp: fun_eq_iff)
  have a: "sq_abs (removeRows b s) = remove_entries (sq_abs s) b"
    by (auto simp: removeRows_def sq_abs_def remove_entries_def no_entry_def m fun_eq_iff)
  have "sq_tables hash (removeRows b s)"
    using assms by (auto simp: sq_inv_def sq_tables_def removeRows_def m om_wf_filter split: if_splits)
  moreover have "sq_tracked hash (removeRows b s) (remove_entries (sq_abs s) b)"
    using assms by (auto simp: sq_inv_def sq_tracked_def removeRows_def m remove_entries_def tracker_of_def)
  ultimately show ?thesis using a by (simp add: sq_inv_def)
qed

lemma removeBatches_ok:
  "sq_inv hash s \<Longrightarrow> sq_inv hash (removeBatches ks s) \<and> sq_abs (removeBatches ks s) = remove_entries (sq_abs s) ks"
proof (induction ks s rule: removeBatches.induct)
  case (1 ks s)
  show ?case
  proof (cases "ks = []")
    case True
    with "1.prems" show ?thesis by (simp add: removeBatches.simps remove_entries_def)
  next
    case False
    note r = removeRows_ok[OF "1.prems", of "take removeKeysBatchSize ks"]
    have "set ks = set (take removeKeysBatchSize ks) \<union> set (drop removeKeysBatchSize ks)"
      by (metis append_take_drop_id set_append)
    with "1.IH"[OF False] r show ?thesis
      using False by (subst (1 2) removeBatches.simps) (auto simp: remove_entries_def fun_eq_iff)
  qed
qed

lemma sq_RemoveKeys:
  assumes "sq_inv hash s" "SqliteKV_RemoveKeys s ks = (s', r)"
  shows "sq_inv hash s' \<and> r = Inr () \<and> sq_abs s' = remove_entries (sq_abs s) ks"
  using removeBatches_ok[OF assms(1), of ks] assms
  by (auto simp: SqliteKV_RemoveKeys_def withWriteTx_def remove_entries_def split: if_splits)

lemma sq_tokens: "sq_inv hash s \<Longrightarrow> token_ok (e_lease (sq_abs s k))"
  by (auto simp: sq_inv_def sq_tables_def sq_abs_def split: option.splits)

lemma sq_New: "(\<And>k. on_ring (hash k)) \<Longrightarrow> sq_inv hash (sqlite_New hash) \<and> sq_abs (sqlite_New hash) = (\<lambda>_. no_entry)"
  by (simp add: sq_inv_def sq_tables_def sq_tracked_def tracker_of_def sqlite_New_def sq_abs_def
      no_entry_def live_def fun_eq_iff)

lemmas sq_contract = sq_Put sq_Put_nil_ok sq_Release_zero sq_Get sq_Delete sq_PrefixAppend sq_PrefixList
  sq_PrefixContains sq_PrefixRemove sq_Acquire sq_Renew sq_Release sq_Import sq_ListKeys
  sq_Export sq_RangeKeys sq_RemoveKeys sq_tokens

interpretation sqkv: kv_provider SqliteKV_ops hash sq_abs "sq_inv hash"
  by (unfold_locales; (unfold SqliteKV_ops_def KVProvider.simps)?;
      (rule sq_contract; (assumption | blast)))

text \<open>The two providers, side by side.\<close>

interpretation mem_sq: kv_provider_pair MemoryKV_ops SqliteKV_ops hash mem_abs "mem_inv hash" sq_abs "sq_inv hash"
  by unfold_locales

subsection \<open>Properties\<close>

text \<open>C9: the two stores are interchangeable for the calls a node makes. For every sequence of interface
  calls (puts, reads, deletes, prefix operations, lease operations, listings, range scans, exports,
  imports and removals) from an empty store, the in-memory and the SQLite provider return the same
  results and the same errors, the order inside a listing apart. Excluded are the calls in which the
  two differ or may differ: puts of nil, releases with token zero, imports other than of distinct keys
  that are absent, each with a transfer that holds something and a token that fits a signed integer,
  and range scans with bounds off the ring. The hash function gives points of the ring.\<close>

theorem providers_agree:
  assumes "\<And>k. on_ring (hash k)" "cmds_ok hash (\<lambda>_. no_entry) cs"
  shows "snd (run_cmds MemoryKV_ops (WithHashFn hash) cs) =
    snd (run_cmds SqliteKV_ops (sqlite_New hash) cs)"
  using mem_sq.same_observations[of hash "WithHashFn hash" "sqlite_New hash" cs] sq_New[OF assms(1)] assms(2)
  by simp

theorem providers_agree_witness:
  "snd (run_cmds MemoryKV_ops (WithHashFn (\<lambda>_. 7)) [CPut ''k'' (Some ''v''), CGet ''k'', CRelease ''k'' 9]) =
     [ODone, OValue (Some ''v''), OError (Chord ErrKVLeaseExpired)] \<and>
   snd (run_cmds SqliteKV_ops (sqlite_New (\<lambda>_. 7)) [CPut ''k'' (Some ''v''), CGet ''k'', CRelease ''k'' 9]) =
     [ODone, OValue (Some ''v''), OError (Chord ErrKVLeaseExpired)]"
proof -
  let ?cs = "[CPut ''k'' (Some ''v''), CGet ''k'', CRelease ''k'' 9]"
  have "snd (run_cmds MemoryKV_ops (WithHashFn (\<lambda>_. 7)) ?cs) =
      [ODone, OValue (Some ''v''), OError (Chord ErrKVLeaseExpired)]"
    by (simp add: MemoryKV_ops_def MemoryKV_Put_def MemoryKV_Get_def MemoryKV_Release_def fetchVal_def
        lookupVal_def storeVal_def WithHashFn_def newValueFunc_def CompareAndSwap_def Let_def)
  moreover have "snd (run_cmds MemoryKV_ops (WithHashFn (\<lambda>_. 7)) ?cs) =
      snd (run_cmds SqliteKV_ops (sqlite_New (\<lambda>_. 7)) ?cs)"
    by (rule providers_agree) (simp_all add: on_ring_def)
  ultimately show ?thesis by simp
qed

text \<open>Every call keeps the invariant, whatever its arguments, as long as imported tokens are of the size
  the stores issue.\<close>

fun tokens_fit :: "kv_cmd \<Rightarrow> bool" where
  "tokens_fit (CImport ks ts) \<longleftrightarrow> list_all (\<lambda>t. token_ok (LeaseToken t)) ts"
| "tokens_fit c \<longleftrightarrow> True"

lemma sq_exec_inv:
  assumes "sq_inv hash s" "tokens_fit c"
  shows "sq_inv hash (fst (exec_cmd SqliteKV_ops s c))"
proof -
  consider ks ts where "c = CImport ks ts" | low high where "c = CRangeKeys low high"
    | "cmd_ok (sq_abs s) c \<or> liberal c" by (cases c) auto
  then show ?thesis
  proof cases
    case (1 ks ts)
    then show ?thesis using assms sq_Import_any[OF assms(1), of ts ks]
      by (cases "SqliteKV_Import s ks (map Some ts)") (auto simp: SqliteKV_ops_def list_all_iff)
  next
    case 2
    then show ?thesis using assms(1) by simp
  next
    case 3
    then show ?thesis using sqkv.exec_cmd_allowed[OF assms(1)] by blast
  qed
qed

lemma sq_run_inv: "sq_inv hash s \<Longrightarrow> list_all tokens_fit cs \<Longrightarrow> sq_inv hash (fst (run_cmds SqliteKV_ops s cs))"
proof (induction cs arbitrary: s)
  case (Cons c cs)
  then show ?case using sq_exec_inv[of hash s c] by (simp add: case_prod_beta)
qed simp

text \<open>C18: the key tracker of the SQLite store mirrors its tables. After any sequence of interface
  calls from an empty store, puts of nil, imports over present keys and failing calls included,
  \<^verbatim>\<open>key_trackers\<close> has a row for exactly the keys that carry a plain value, a child or a lease, with the
  key's hash and exactly the flags of the pieces that are present. The imported tokens fit a signed
  64-bit integer and the hash function gives points of the ring. When the calls are those of the
  provider contract, the tables hold what the abstract store holds.\<close>

theorem tracker_mirrors_tables:
  assumes "\<And>k. on_ring (hash k)" "list_all tokens_fit cs"
    and "s = fst (run_cmds SqliteKV_ops (sqlite_New hash) cs)"
  shows "map_of (key_trackers s) k =
      (if live (sq_abs s k) then Some \<lparr>kt_Hash = hash k, kt_Flags = flags_of (sq_abs s k)\<rparr> else None) \<and>
    (cmds_ok hash (\<lambda>_. no_entry) cs \<longrightarrow> sq_abs s k = fst (spec_cmds hash (\<lambda>_. no_entry) cs) k)"
proof -
  have new: "sq_inv hash (sqlite_New hash)" "sq_abs (sqlite_New hash) = (\<lambda>_. no_entry)"
    using sq_New[of hash] assms(1) by blast+
  have "sq_inv hash s" unfolding assms(3) by (rule sq_run_inv[OF new(1) assms(2)])
  then have "map_of (key_trackers s) k = tracker_of hash k (sq_abs s k)" by (simp add: sq_inv_def sq_tracked_def)
  moreover have "cmds_ok hash (\<lambda>_. no_entry) cs \<longrightarrow> sq_abs s = fst (spec_cmds hash (\<lambda>_. no_entry) cs)"
    using sqkv.run_cmds_refines[OF new(1), of cs] unfolding new(2) assms(3) by auto
  ultimately show ?thesis by (simp add: tracker_of_def)
qed

theorem tracker_mirrors_tables_witness:
  "\<exists>s. s = fst (run_cmds SqliteKV_ops (sqlite_New (\<lambda>_. 7)) [CPut ''k'' (Some ''v''), CPrefixAppend ''k'' ''c'', CDelete ''k'']) \<and>
     map_of (key_trackers s) ''k'' = Some \<lparr>kt_Hash = 7, kt_Flags = PrefixFlag\<rparr> \<and>
   (\<exists>s. s = fst (run_cmds SqliteKV_ops (sqlite_New (\<lambda>_. 7)) [CPut ''k'' None, CPut ''k'' None]) \<and>
     map_of (key_trackers s) ''k'' = Some \<lparr>kt_Hash = 7, kt_Flags = SimpleFlag\<rparr>)"
proof -
  let ?cs = "[CPut ''k'' (Some ''v''), CPrefixAppend ''k'' ''c'', CDelete ''k'']"
  let ?s = "fst (run_cmds SqliteKV_ops (sqlite_New (\<lambda>_. 7)) ?cs)"
  have "fst (spec_cmds (\<lambda>_. 7) (\<lambda>_. no_entry) ?cs) ''k'' = \<lparr>e_simple = None, e_children = {''c''}, e_lease = 0\<rparr>"
    by (simp add: set_simple_def set_children_def no_entry_def)
  moreover have "flags_of \<lparr>e_simple = None, e_children = {''c''}, e_lease = 0\<rparr> = PrefixFlag"
    by (simp add: flags_of_def)
  ultimately have 1: "map_of (key_trackers ?s) ''k'' = Some \<lparr>kt_Hash = 7, kt_Flags = PrefixFlag\<rparr>"
    using tracker_mirrors_tables[of "\<lambda>_. 7" ?cs ?s "''k''"] by (simp add: on_ring_def live_def)
  let ?ds = "[CPut ''k'' None, CPut ''k'' None]"
  let ?t = "fst (run_cmds SqliteKV_ops (sqlite_New (\<lambda>_. 7)) ?ds)"
  have "sq_abs ?t ''k'' = \<lparr>e_simple = Some [], e_children = {}, e_lease = 0\<rparr>"
    by (simp add: SqliteKV_ops_def SqliteKV_Put_def withWriteTx_def querySimplePut_def bindBytesAsBlob_def
        updateKeyTracker_def queryTrackerInsert_def queryTrackerUpdate_def sqlite_New_def sq_abs_def flag_defs Let_def)
  then have "map_of (key_trackers ?t) ''k'' = Some \<lparr>kt_Hash = 7, kt_Flags = SimpleFlag\<rparr>"
    using tracker_mirrors_tables[of "\<lambda>_. 7" ?ds ?t "''k''"] by (simp add: on_ring_def live_def flags_of_def)
  then show ?thesis using 1 by blast
qed

text \<open>C33: where the two stores differ. Take an in-memory and a SQLite store with the same contents. A
  release with token zero of any free lease succeeds in memory, where a free lease is a zero cell, and
  is refused by SQLite. After a put of nil the key reads as absent in memory and as empty from SQLite.
  A transfer without lease that is imported over a held lease clears it in memory and leaves it in
  place in SQLite.\<close>

theorem providers_differ:
  assumes "mem_inv hash m" "sq_inv hash s" "mem_abs m = sq_abs s"
  shows "(e_lease (sq_abs s k) = 0 \<longrightarrow>
      snd (MemoryKV_Release m k 0) = Inr () \<and> snd (SqliteKV_Release s k 0) = Inl (Chord ErrKVLeaseExpired)) \<and>
    MemoryKV_Get (fst (MemoryKV_Put m k None)) k = Inr None \<and>
    SqliteKV_Get (fst (SqliteKV_Put s k None)) k = Inr (Some []) \<and>
    (LeaseToken t = 0 \<longrightarrow>
      e_lease (mem_abs (fst (MemoryKV_Import m [k] [Some t])) k) = 0 \<and>
      e_lease (sq_abs (fst (SqliteKV_Import s [k] [Some t])) k) = e_lease (sq_abs s k))"
proof (intro conjI impI)
  assume "e_lease (sq_abs s k) = 0"
  then have "map_of (lease_entries s) k = None"
    using assms(2) by (auto simp: sq_abs_def sq_inv_def sq_tables_def split: option.splits)
  then show "snd (SqliteKV_Release s k 0) = Inl (Chord ErrKVLeaseExpired)"
    by (simp add: SqliteKV_Release_def withWriteTx_def queryLeaseRelease_def)
  show "snd (MemoryKV_Release m k 0) = Inr ()"
    using mem_Release[OF assms(1), of k 0] assms(3) \<open>e_lease (sq_abs s k) = 0\<close>
    by (cases "MemoryKV_Release m k 0") (simp add: spec_Release_def)
next
  show "MemoryKV_Get (fst (MemoryKV_Put m k None)) k = Inr None"
    using mem_Put[OF assms(1), of k None] by (cases "MemoryKV_Put m k None") (simp add: mem_Get set_simple_def)
  show "SqliteKV_Get (fst (SqliteKV_Put s k None)) k = Inr (Some [])"
    using sq_Put[OF assms(2), of k "[]"] unfolding sq_Put_nil
    by (cases "SqliteKV_Put s k (Some [])") (simp add: sq_Get set_simple_def)
next
  assume t: "LeaseToken t = 0"
  show "e_lease (mem_abs (fst (MemoryKV_Import m [k] [Some t])) k) = 0"
    using mem_importVal(2)[OF assms(1), of t k] t by (simp add: transfer_entry_def)
  show "e_lease (sq_abs (fst (SqliteKV_Import s [k] [Some t])) k) = e_lease (sq_abs s k)"
    using sq_Import_any[OF assms(2), of "[t]" "[k]"] t
    by (cases "SqliteKV_Import s [k] [Some t]") (simp add: sq_import_entry_def)
qed

theorem providers_differ_witness:
  "\<exists>m s. e_lease (sq_abs s ''held'') \<noteq> 0 \<and> e_lease (sq_abs s ''free'') = 0 \<and>
    snd (MemoryKV_Release m ''free'' 0) = Inr () \<and> snd (SqliteKV_Release s ''free'' 0) = Inl (Chord ErrKVLeaseExpired) \<and>
    (let t = \<lparr>SimpleValue = Some ''v'', PrefixChildren = [], LeaseToken = 0\<rparr> in
      e_lease (mem_abs (fst (MemoryKV_Import m [''held''] [Some t])) ''held'') = 0 \<and>
      e_lease (sq_abs (fst (SqliteKV_Import s [''held''] [Some t])) ''held'') \<noteq> 0)"
proof -
  let ?c = "[CAcquire 0 ''held'' Second]"
  define m where "m = fst (run_cmds MemoryKV_ops (WithHashFn (\<lambda>_. 7)) ?c)"
  define s where "s = fst (run_cmds SqliteKV_ops (sqlite_New (\<lambda>_. 7)) ?c)"
  have inv: "mem_inv (\<lambda>_. 7) m" "mem_abs m = fst (spec_cmds (\<lambda>_. 7) (\<lambda>_. no_entry) ?c)"
    using memkv.run_cmds_refines[of "\<lambda>_. 7" "WithHashFn (\<lambda>_. 7)" ?c] by (simp_all add: m_def case_prod_beta)
  have inv': "sq_inv (\<lambda>_. 7) s" "sq_abs s = fst (spec_cmds (\<lambda>_. 7) (\<lambda>_. no_entry) ?c)"
    using sqkv.run_cmds_refines[of "\<lambda>_. 7" "sqlite_New (\<lambda>_. 7)" ?c] sq_New[of "\<lambda>_. 7"]
    by (simp_all add: s_def case_prod_beta on_ring_def)
  have l: "e_lease (sq_abs s ''held'') = 1000000000" "e_lease (sq_abs s ''free'') = 0"
    unfolding inv'(2) by (simp_all add: case_prod_beta spec_Acquire_def durationGuard_def go_rem_def Second_def
        Next_def MaxInt64_def set_lease_def no_entry_def)
  have same: "mem_abs m = sq_abs s" using inv(2) inv'(2) by simp
  show ?thesis
    using providers_differ[OF inv(1) inv'(1) same, of "''free''"] l
      providers_differ[OF inv(1) inv'(1) same, of "''held''" "\<lparr>SimpleValue = Some ''v'', PrefixChildren = [], LeaseToken = 0\<rparr>"]
    by (intro exI[of _ m] exI[of _ s]) (simp add: Let_def)
qed

end
