(* ===== verification/KV_Client.thy ===== *)
theory KV_Client
  imports KV_Memory
begin

text \<open>
  Code that uses the key-value interface of a node (\<^verbatim>\<open>chord.KV\<close>), such as the tunnel server, as
  programs: a program is a sequence of interface calls, each depending on the answers before it.
  One program can be run on any backend - the in-memory provider, a node of a ring, the abstract
  store - and reasoned about once: \<open>wp\<close> is its weakest precondition over the abstract store when
  any call may also fail, with or without having taken effect. The locale \<open>kv_backend\<close> is what a
  backend promises, and carries what \<open>wp\<close> proves over to it.
\<close>

subsection \<open>Requests\<close>

fun single_key :: "kv_cmd \<Rightarrow> bool" where
  "single_key (CListKeys p) \<longleftrightarrow> False"
| "single_key (CExport ks) \<longleftrightarrow> False"
| "single_key (CRangeKeys low high) \<longleftrightarrow> False"
| "single_key (CRemoveKeys ks) \<longleftrightarrow> False"
| "single_key (CImport ks ts) \<longleftrightarrow> False"
| "single_key _ \<longleftrightarrow> True"

text \<open>Requests whose value survives the wire, and stores of such values.\<close>

fun request_ok :: "kv_cmd \<Rightarrow> bool" where
  "request_ok (CPut k v) \<longleftrightarrow> (\<exists>c cs. v = Some (c # cs))"
| "request_ok (CRelease k token) \<longleftrightarrow> token \<noteq> 0"
| "request_ok c \<longleftrightarrow> single_key c"

definition no_empty :: "store \<Rightarrow> bool" where
  "no_empty st \<longleftrightarrow> (\<forall>k. e_simple (st k) \<noteq> Some [])"

text \<open>A lease request is served at the clock of the backend.\<close>

fun at_time :: "int \<Rightarrow> kv_cmd \<Rightarrow> kv_cmd" where
  "at_time t (CAcquire now k ttl) = CAcquire t k ttl"
| "at_time t (CRenew now k ttl prev) = CRenew t k ttl prev"
| "at_time t c = c"

definition store_step :: "int \<Rightarrow> kv_cmd \<Rightarrow> store \<Rightarrow> store \<times> kv_obs" where
  "store_step t c st = spec_cmd (\<lambda>_. 0) st (at_time t c)"

lemma at_time_simps [simp]: "request_ok (at_time t c) = request_ok c" "single_key (at_time t c) = single_key c"
  by (cases c; simp)+

lemma request_single: "request_ok c \<Longrightarrow> single_key c"
  by (cases c) auto

lemma spec_cmd_hash: "single_key c \<Longrightarrow> spec_cmd hash st c = spec_cmd (\<lambda>_. 0) st c"
  by (cases c) auto

text \<open>What a call may do to the store and answer: what the store does, or an error, whether or not
  the call took effect.\<close>

definition kv_answers :: "store \<Rightarrow> kv_cmd \<Rightarrow> (store \<times> kv_obs) set" where
  "kv_answers st c = (\<Union>t. {store_step t c st} \<union> (\<Union>e. {(st, OError e), (fst (store_step t c st), OError e)}))"

lemma kv_answersI: "store_step t c st = (st', ob) \<Longrightarrow> (st', ob) \<in> kv_answers st c"
  unfolding kv_answers_def by (rule UN_I[of t]; simp)

lemma kv_answers_error: "(st, OError e) \<in> kv_answers st c"
  unfolding kv_answers_def by (rule UN_I[of 0]; auto)

subsection \<open>Programs\<close>

datatype 'a prog = Ret 'a | Call kv_cmd "kv_obs \<Rightarrow> 'a prog"

primrec bind_prog :: "'a prog \<Rightarrow> ('a \<Rightarrow> 'b prog) \<Rightarrow> 'b prog" where
  "bind_prog (Ret a) g = g a"
| "bind_prog (Call c f) g = Call c (\<lambda>ob. bind_prog (f ob) g)"

text \<open>Go on with the result, or return the error.\<close>

definition andThen :: "(error + 'a) prog \<Rightarrow> ('a \<Rightarrow> (error + 'b) prog) \<Rightarrow> (error + 'b) prog" where
  "andThen p g = bind_prog p (\<lambda>r. case r of Inl e \<Rightarrow> Ret (Inl e) | Inr v \<Rightarrow> g v)"

definition on_error :: "(error \<Rightarrow> error) \<Rightarrow> (error + 'a) prog \<Rightarrow> (error + 'a) prog" where
  "on_error w p = bind_prog p (\<lambda>r. Ret (case r of Inl e \<Rightarrow> Inl (w e) | Inr v \<Rightarrow> Inr v))"

text \<open>A deferred call: made whatever the outcome, its own outcome ignored.\<close>

definition deferring :: "'b prog \<Rightarrow> 'a prog \<Rightarrow> 'a prog" where
  "deferring cleanup p = bind_prog p (\<lambda>r. bind_prog cleanup (\<lambda>_. Ret r))"

text \<open>\<^verbatim>\<open>promise.All\<close>: every job runs and leaves its result or its error. The jobs of one call work on
  different keys, so that their order does not matter; they are run in the order given.\<close>

primrec promise_All :: "(error + 'a) prog list \<Rightarrow> (error + 'a) list prog" where
  "promise_All [] = Ret []"
| "promise_All (p # ps) = bind_prog p (\<lambda>r. bind_prog (promise_All ps) (\<lambda>rs. Ret (r # rs)))"

text \<open>The loop that returns the first error of \<^verbatim>\<open>promise.All\<close>.\<close>

fun first_error :: "(error + 'a) list \<Rightarrow> error + 'a list" where
  "first_error [] = Inr []"
| "first_error (Inl e # rs) = Inl e"
| "first_error (Inr v # rs) = (case first_error rs of Inl e \<Rightarrow> Inl e | Inr vs \<Rightarrow> Inr (v # vs))"

text \<open>The interface.\<close>

definition kv_Put :: "bytes \<Rightarrow> bytes \<Rightarrow> (error + unit) prog" where
  "kv_Put k v = Call (CPut k (Some v)) (\<lambda>ob. Ret (case ob of OError e \<Rightarrow> Inl e | _ \<Rightarrow> Inr ()))"

definition kv_Get :: "bytes \<Rightarrow> (error + bytes option) prog" where
  "kv_Get k = Call (CGet k) (\<lambda>ob. Ret (case ob of OError e \<Rightarrow> Inl e | OValue v \<Rightarrow> Inr v | _ \<Rightarrow> Inr None))"

definition kv_Delete :: "bytes \<Rightarrow> (error + unit) prog" where
  "kv_Delete k = Call (CDelete k) (\<lambda>ob. Ret (case ob of OError e \<Rightarrow> Inl e | _ \<Rightarrow> Inr ()))"

definition kv_PrefixAppend :: "bytes \<Rightarrow> bytes \<Rightarrow> (error + unit) prog" where
  "kv_PrefixAppend k c = Call (CPrefixAppend k c) (\<lambda>ob. Ret (case ob of OError e \<Rightarrow> Inl e | _ \<Rightarrow> Inr ()))"

text \<open>The order of the children is not part of the contract; the model lists them in byte order, as
  the in-memory provider does.\<close>

definition kv_PrefixList :: "bytes \<Rightarrow> (error + bytes list) prog" where
  "kv_PrefixList k = Call (CPrefixList k)
     (\<lambda>ob. Ret (case ob of OError e \<Rightarrow> Inl e | OKeys cs \<Rightarrow> Inr (sorted_list_of_set cs) | _ \<Rightarrow> Inr []))"

definition kv_PrefixContains :: "bytes \<Rightarrow> bytes \<Rightarrow> (error + bool) prog" where
  "kv_PrefixContains k c = Call (CPrefixContains k c)
     (\<lambda>ob. Ret (case ob of OError e \<Rightarrow> Inl e | OBool b \<Rightarrow> Inr b | _ \<Rightarrow> Inr False))"

definition kv_PrefixRemove :: "bytes \<Rightarrow> bytes \<Rightarrow> (error + unit) prog" where
  "kv_PrefixRemove k c = Call (CPrefixRemove k c) (\<lambda>ob. Ret (case ob of OError e \<Rightarrow> Inl e | _ \<Rightarrow> Inr ()))"

definition kv_Acquire :: "bytes \<Rightarrow> int \<Rightarrow> (error + u64) prog" where
  "kv_Acquire k ttl = Call (CAcquire 0 k ttl)
     (\<lambda>ob. Ret (case ob of OError e \<Rightarrow> Inl e | OToken t \<Rightarrow> Inr t | _ \<Rightarrow> Inr 0))"

definition kv_Release :: "bytes \<Rightarrow> u64 \<Rightarrow> (error + unit) prog" where
  "kv_Release k t = Call (CRelease k t) (\<lambda>ob. Ret (case ob of OError e \<Rightarrow> Inl e | _ \<Rightarrow> Inr ()))"

text \<open>\<^verbatim>\<open>Acquire\<close> with the error of the handler, the work, and the deferred \<^verbatim>\<open>Release\<close>.\<close>

definition with_lease :: "bytes \<Rightarrow> int \<Rightarrow> (error \<Rightarrow> error) \<Rightarrow> (error + 'a) prog \<Rightarrow> (error + 'a) prog" where
  "with_lease k ttl w p =
     andThen (on_error w (kv_Acquire k ttl)) (\<lambda>lease. deferring (kv_Release k lease) p)"

primrec exec_prog :: "(kv_cmd \<Rightarrow> 's \<Rightarrow> 's \<times> kv_obs) \<Rightarrow> 'a prog \<Rightarrow> 's \<Rightarrow> 's \<times> 'a" where
  "exec_prog ex (Ret a) s = (s, a)"
| "exec_prog ex (Call c f) s = exec_prog ex (f (snd (ex c s))) (fst (ex c s))"

subsection \<open>Reasoning\<close>

primrec wp :: "('a \<Rightarrow> store \<Rightarrow> bool) \<Rightarrow> 'a prog \<Rightarrow> store \<Rightarrow> bool" where
  "wp Q (Ret a) st = Q a st"
| "wp Q (Call c f) st = (request_ok c \<and> (\<forall>(st', ob) \<in> kv_answers st c. wp Q (f ob) st'))"

lemma wp_mono: "wp Q p st \<Longrightarrow> (\<And>a st'. Q a st' \<Longrightarrow> Q' a st') \<Longrightarrow> wp Q' p st"
  by (induction p arbitrary: st) auto

lemma wp_bind [simp]: "wp Q (bind_prog p g) st \<longleftrightarrow> wp (\<lambda>a st. wp Q (g a) st) p st"
  by (induction p arbitrary: st) auto

lemma wp_andThen [simp]:
  "wp Q (andThen p g) st \<longleftrightarrow> wp (\<lambda>r st. case r of Inl e \<Rightarrow> Q (Inl e) st | Inr v \<Rightarrow> wp Q (g v) st) p st"
  unfolding andThen_def by (auto elim!: wp_mono split: sum.splits)

lemma wp_on_error [simp]:
  "wp Q (on_error w p) st \<longleftrightarrow> wp (\<lambda>r st. case r of Inl e \<Rightarrow> Q (Inl (w e)) st | Inr v \<Rightarrow> Q (Inr v) st) p st"
  unfolding on_error_def by (auto elim!: wp_mono split: sum.splits)

lemma wp_deferring [simp]:
  "wp Q (deferring cleanup p) st \<longleftrightarrow> wp (\<lambda>r st. wp (\<lambda>_ st. Q r st) cleanup st) p st"
  by (simp add: deferring_def)

lemma wp_promise_All_Nil [simp]: "wp Q (promise_All []) st \<longleftrightarrow> Q [] st"
  by simp

lemma wp_promise_All_Cons [simp]:
  "wp Q (promise_All (p # ps)) st \<longleftrightarrow> wp (\<lambda>r st. wp (\<lambda>rs st. Q (r # rs) st) (promise_All ps) st) p st"
  by simp

text \<open>Jobs that each keep an invariant of the store and say something of their result.\<close>

lemma wp_promise_All:
  assumes "\<And>i st. i < length ps \<Longrightarrow> I i st \<Longrightarrow> wp (\<lambda>r st'. I (Suc i) st' \<and> P i r) (ps ! i) st" and "I 0 st"
    and "\<And>rs st. length rs = length ps \<Longrightarrow> I (length ps) st \<Longrightarrow> (\<And>i. i < length ps \<Longrightarrow> P i (rs ! i)) \<Longrightarrow> Q rs st"
  shows "wp Q (promise_All ps) st"
  using assms
proof (induction ps arbitrary: I P Q st)
  case (Cons p ps)
  have p: "wp (\<lambda>r st'. I (Suc 0) st' \<and> P 0 r) p st" using Cons.prems(1)[of 0] Cons.prems(2) by simp
  have "wp (\<lambda>rs st. Q (r # rs) st) (promise_All ps) st'" if r: "I (Suc 0) st'" "P 0 r" for r st'
  proof (rule Cons.IH[of "\<lambda>i. I (Suc i)" "\<lambda>i. P (Suc i)"])
    show "wp (\<lambda>r st'. I (Suc (Suc i)) st' \<and> P (Suc i) r) (ps ! i) st" if "i < length ps" "I (Suc i) st" for i st
      using Cons.prems(1)[of "Suc i"] that by simp
    show "Q (r # rs) st" if "length rs = length ps" "I (Suc (length ps)) st" "\<And>i. i < length ps \<Longrightarrow> P (Suc i) (rs ! i)" for rs st
      by (rule Cons.prems(3)) (use that r(2) in \<open>auto simp: nth_Cons split: nat.splits\<close>)
  qed (use r in simp)
  then show ?case using wp_mono[OF p] by simp
qed simp

lemma first_error_map [simp]: "first_error (map Inr vs) = Inr vs"
  by (induction vs) simp_all

lemma first_error_InrD: "first_error rs = Inr vs \<Longrightarrow> rs = map Inr vs"
proof (induction rs arbitrary: vs)
  case (Cons r rs)
  then show ?case by (cases r; cases "first_error rs") auto
qed simp

lemma first_error_InlD: "first_error rs = Inl e \<Longrightarrow> Inl e \<in> set rs"
proof (induction rs)
  case (Cons r rs)
  then show ?case by (cases r; cases "first_error rs") auto
qed simp

lemma set_lease_same [simp]: "set_lease st k (e_lease (st k)) = st"
  by (simp add: set_lease_def)

lemmas answer_defs = kv_answers_def store_step_def

lemma wp_Put [simp]:
  "wp Q (kv_Put k v) st \<longleftrightarrow> v \<noteq> [] \<and> Q (Inr ()) (set_simple st k (Some v)) \<and>
     (\<forall>e. Q (Inl e) st \<and> Q (Inl e) (set_simple st k (Some v)))"
  by (auto simp: kv_Put_def answer_defs neq_Nil_conv)

lemma wp_Get [simp]:
  "wp Q (kv_Get k) st \<longleftrightarrow> Q (Inr (e_simple (st k))) st \<and> (\<forall>e. Q (Inl e) st)"
  by (auto simp: kv_Get_def answer_defs)

lemma wp_Delete [simp]:
  "wp Q (kv_Delete k) st \<longleftrightarrow> Q (Inr ()) (set_simple st k None) \<and>
     (\<forall>e. Q (Inl e) st \<and> Q (Inl e) (set_simple st k None))"
  by (auto simp: kv_Delete_def answer_defs)

lemma wp_PrefixAppend [simp]:
  "wp Q (kv_PrefixAppend k c) st \<longleftrightarrow>
     (c \<notin> e_children (st k) \<longrightarrow> Q (Inr ()) (set_children st k (insert c (e_children (st k))))) \<and>
     (\<forall>e. Q (Inl e) st \<and> Q (Inl e) (set_children st k (insert c (e_children (st k)))))"
  by (auto simp: kv_PrefixAppend_def answer_defs split: if_splits)

lemma wp_PrefixList [simp]:
  "wp Q (kv_PrefixList k) st \<longleftrightarrow> Q (Inr (sorted_list_of_set (e_children (st k)))) st \<and> (\<forall>e. Q (Inl e) st)"
  by (auto simp: kv_PrefixList_def answer_defs)

lemma wp_PrefixContains [simp]:
  "wp Q (kv_PrefixContains k c) st \<longleftrightarrow> Q (Inr (c \<in> e_children (st k))) st \<and> (\<forall>e. Q (Inl e) st)"
  by (auto simp: kv_PrefixContains_def answer_defs)

lemma wp_PrefixRemove [simp]:
  "wp Q (kv_PrefixRemove k c) st \<longleftrightarrow> Q (Inr ()) (set_children st k (e_children (st k) - {c})) \<and>
     (\<forall>e. Q (Inl e) st \<and> Q (Inl e) (set_children st k (e_children (st k) - {c})))"
  by (auto simp: kv_PrefixRemove_def answer_defs)

lemma wp_Acquire:
  assumes "\<And>t. t \<noteq> 0 \<Longrightarrow> Q (Inr t) (set_lease st k t)" "\<And>e t. Q (Inl e) (set_lease st k t)"
  shows "wp Q (kv_Acquire k ttl) st"
proof -
  have "wp Q (Ret (case obs OToken (snd (spec_Acquire t ttl (e_lease (st k)))) of
      OError e \<Rightarrow> Inl e | OToken t \<Rightarrow> Inr t | _ \<Rightarrow> Inr 0)) (set_lease st k (fst (spec_Acquire t ttl (e_lease (st k)))))" for t
    using assms assms(2)[of _ "e_lease (st k)"] by (auto simp: spec_Acquire_def NextD_nonzero split: option.splits sum.splits)
  moreover have "Q (Inl e) st" for e using assms(2)[of e "e_lease (st k)"] by simp
  ultimately show ?thesis using assms(2) by (auto simp: kv_Acquire_def answer_defs split_def Let_def)
qed

lemma wp_Release:
  assumes "t \<noteq> 0" "\<And>r t. Q r (set_lease st k t)"
  shows "wp Q (kv_Release k t) st"
proof -
  have "Q r st" for r using assms(2)[of r "e_lease (st k)"] by simp
  then show ?thesis using assms by (auto simp: kv_Release_def answer_defs split_def Let_def)
qed

text \<open>A handler that holds a lease: the lease of the key may be anything before and after the work.\<close>

lemma wp_with_lease:
  assumes "\<And>t. wp (\<lambda>r st. \<forall>t'. Q r (set_lease st k t')) p (set_lease st k t)" "\<And>e t. Q (Inl (w e)) (set_lease st k t)"
  shows "wp Q (with_lease k ttl w p) st"
  unfolding with_lease_def wp_andThen wp_on_error
proof (rule wp_Acquire)
  fix t :: u64 assume "t \<noteq> 0"
  then show "case Inr t of Inl e \<Rightarrow> case Inl (w e) of Inl e \<Rightarrow> Q (Inl e) (set_lease st k t)
        | Inr v \<Rightarrow> wp Q (deferring (kv_Release k v) p) (set_lease st k t)
      | Inr v \<Rightarrow> case Inr v of Inl e \<Rightarrow> Q (Inl e) (set_lease st k t)
        | Inr v \<Rightarrow> wp Q (deferring (kv_Release k v) p) (set_lease st k t)"
    by (simp, intro wp_mono[OF assms(1)[of t]] wp_Release) auto
qed (simp add: assms(2))

subsection \<open>Backends\<close>

locale kv_backend =
  fixes ex :: "kv_cmd \<Rightarrow> 's \<Rightarrow> 's \<times> kv_obs"
    and holds :: "'s \<Rightarrow> store \<Rightarrow> bool"
  assumes answers: "holds s st \<Longrightarrow> request_ok c \<Longrightarrow> ex c s = (s', ob) \<Longrightarrow>
      \<exists>st'. (st', ob) \<in> kv_answers st c \<and> holds s' st'"
begin

lemma exec_wp: "wp Q p st \<Longrightarrow> holds s st \<Longrightarrow> exec_prog ex p s = (s', a) \<Longrightarrow> \<exists>st'. holds s' st' \<and> Q a st'"
proof (induction p arbitrary: s st)
  case (Call c f)
  obtain s1 ob where ex: "ex c s = (s1, ob)" by fastforce
  then obtain st1 where st1: "(st1, ob) \<in> kv_answers st c" "holds s1 st1" using answers Call.prems(1,2) by fastforce
  moreover from this have "wp Q (f ob) st1" using Call.prems(1) by auto
  ultimately show ?case using Call.IH[of "f ob" st1 s1] Call.prems(3) ex by simp
qed auto

end

text \<open>The abstract store itself, at any time, and the in-memory provider with a clock.\<close>

definition memory_exec :: "kv_cmd \<Rightarrow> MemoryKV \<times> int \<Rightarrow> (MemoryKV \<times> int) \<times> kv_obs" where
  "memory_exec c s = (let (m, ob) = exec_cmd MemoryKV_ops (fst s) (at_time (snd s) c) in ((m, snd s), ob))"

interpretation store_backend: kv_backend "store_step t" "(=)"
  by unfold_locales (use kv_answersI in auto)

definition memory_holds :: "MemoryKV \<times> int \<Rightarrow> store \<Rightarrow> bool" where
  "memory_holds s st \<longleftrightarrow> (\<exists>hash. mem_inv hash (fst s)) \<and> mem_abs (fst s) = st"

lemma request_cmd_ok: "request_ok c \<Longrightarrow> cmd_ok st c"
  by (cases c) auto

interpretation memory_backend: kv_backend memory_exec memory_holds
proof
  fix s st c s' ob
  assume "memory_holds s st" and c: "request_ok c" and run: "memory_exec c s = (s', ob)"
  then obtain hash where m: "mem_inv hash (fst s)" "mem_abs (fst s) = st" by (auto simp: memory_holds_def)
  let ?c = "at_time (snd s) c"
  have "mem_inv hash (fst s')" "spec_cmd hash st ?c = (mem_abs (fst s'), ob)"
    using memkv.exec_cmd_refines[OF m(1) request_cmd_ok[of ?c]] m(2) c run
    by (auto simp: memory_exec_def split: prod.splits)
  moreover have "spec_cmd hash st ?c = store_step (snd s) c st"
    using spec_cmd_hash[of ?c hash st] request_single[OF c] by (simp add: store_step_def)
  ultimately show "\<exists>st'. (st', ob) \<in> kv_answers st c \<and> memory_holds s' st'"
    using kv_answersI[of "snd s" c st "mem_abs (fst s')" ob] by (auto simp: memory_holds_def)
qed

end
