(* ===== verification/Chord_Storage.thy ===== *)
theory Chord_Storage
  imports Chord_Invariant KV_Sqlite KV_Client
begin

text \<open>
  The ring as one store. Every member holds exactly the entries of the keys it owns; a request
  at any member then acts on the common store as the abstract store does, or fails and changes
  nothing.
\<close>

definition ring_holds :: "(bytes \<Rightarrow> u64) \<Rightarrow> ('kv \<Rightarrow> store) \<Rightarrow> ('kv \<Rightarrow> bool) \<Rightarrow> u64 set \<Rightarrow> 'kv chord_net \<Rightarrow> store \<Rightarrow> bool" where
  "ring_holds hash abstr good R net st \<longleftrightarrow>
     (\<forall>n \<in> R. \<forall>ln. net_nodes net n = Some ln \<longrightarrow>
        good (ln_kv ln) \<and> (\<forall>k. abstr (ln_kv ln) k = (if is_owner R (hash k) n then st k else no_entry)))"

subsection \<open>Requests on one key\<close>

fun spec_entry :: "entry \<Rightarrow> kv_cmd \<Rightarrow> entry \<times> kv_obs" where
  "spec_entry e (CPut k v) = (e\<lparr>e_simple := v\<rparr>, ODone)"
| "spec_entry e (CGet k) = (e, OValue (e_simple e))"
| "spec_entry e (CDelete k) = (e\<lparr>e_simple := None\<rparr>, ODone)"
| "spec_entry e (CPrefixAppend k c) =
     (e\<lparr>e_children := insert c (e_children e)\<rparr>,
      if c \<in> e_children e then OError (Chord ErrKVPrefixConflict) else ODone)"
| "spec_entry e (CPrefixList k) = (e, OKeys (e_children e))"
| "spec_entry e (CPrefixContains k c) = (e, OBool (c \<in> e_children e))"
| "spec_entry e (CPrefixRemove k c) = (e\<lparr>e_children := e_children e - {c}\<rparr>, ODone)"
| "spec_entry e (CAcquire now k ttl) =
     (let (t, r) = spec_Acquire now ttl (e_lease e) in (e\<lparr>e_lease := t\<rparr>, obs OToken r))"
| "spec_entry e (CRenew now k ttl prev) =
     (let (t, r) = spec_Renew now ttl prev (e_lease e) in (e\<lparr>e_lease := t\<rparr>, obs OToken r))"
| "spec_entry e (CRelease k token) =
     (let (t, r) = spec_Release token (e_lease e) in (e\<lparr>e_lease := t\<rparr>, obs (\<lambda>_. ODone) r))"
| "spec_entry e c = (e, ODone)"

lemma spec_cmd_entry:
  assumes "single_key c"
  shows "spec_cmd hash st c =
    (st(cmd_key c := fst (spec_entry (st (cmd_key c)) c)), snd (spec_entry (st (cmd_key c)) c))"
  using assms
  by (cases c) (simp_all add: set_simple_def set_children_def set_lease_def case_prod_beta)

lemma request_ok_single: "request_ok c \<Longrightarrow> single_key c"
  by (cases c) auto

lemma request_ok_wire: "request_ok c \<Longrightarrow> RemoteNode_request c = c"
  by (cases c) (auto simp: wire_bytes_def)

lemma request_ok_not_liberal: "request_ok c \<Longrightarrow> \<not> liberal c"
  by (cases c) auto

lemma single_key_cmd_ok: "single_key c \<Longrightarrow> cmd_ok st c \<or> liberal c"
  by (cases c) auto

lemma RemoteNode_request_key [simp]:
  "cmd_key (RemoteNode_request c) = cmd_key c" "single_key (RemoteNode_request c) = single_key c"
  by (cases c; simp)+

lemma spec_Acquire_Chord: "snd (spec_Acquire now ttl cur) = Inl e \<Longrightarrow> \<exists>x. e = Chord x"
  by (auto simp: spec_Acquire_def Next_def split: option.splits sum.splits if_splits)

lemma spec_Renew_Chord: "snd (spec_Renew now ttl prev cur) = Inl e \<Longrightarrow> \<exists>x. e = Chord x"
  by (auto simp: spec_Renew_def Next_def split: option.splits sum.splits if_splits)

lemma spec_entry_error: "snd (spec_entry en c) = OError e \<Longrightarrow> \<exists>x. e = Chord x"
  using spec_Acquire_Chord spec_Renew_Chord
  by (cases c) (auto simp: case_prod_beta obs_def spec_Release_def split: sum.splits if_splits)

lemma spec_entry_no_empty:
  assumes "request_ok c" "e_simple e \<noteq> Some []"
  shows "e_simple (fst (spec_entry e c)) \<noteq> Some []" "snd (spec_entry e c) \<noteq> OValue (Some [])"
  using assms by (cases c; auto simp: case_prod_beta obs_def split: sum.splits)+

text \<open>What a provider may do on a request depends on the entry of its key alone.\<close>

lemma kv_allows_entry:
  assumes "kv_allows hash a c a' ob" "single_key c" "a (cmd_key c) = st (cmd_key c)"
  obtains e where "a' = a(cmd_key c := e)" "kv_allows hash st c (st(cmd_key c := e)) ob"
proof -
  note entry = spec_cmd_entry[OF assms(2), of hash]
  from assms(1) consider "spec_cmd hash a c = (a', ob)"
    | k where "c = CPut k None" "a' = set_simple a k (Some [])" "ob = ODone"
    | k where "c = CRelease k 0" "a' = a" "ob = OError (Chord ErrKVLeaseExpired)"
    unfolding kv_allows_def by blast
  then show thesis
  proof cases
    case 1
    then show thesis using that[of "fst (spec_entry (st (cmd_key c)) c)"] assms(3) by (auto simp: entry kv_allows_def)
  next
    case (2 k)
    then show thesis using that[of "(a k)\<lparr>e_simple := Some []\<rparr>"] assms(3) by (auto simp: set_simple_def kv_allows_def)
  next
    case (3 k)
    then show thesis using that[of "st k"] assms(3) by (auto simp: kv_allows_def fun_upd_idem)
  qed
qed

lemma kv_allows_error:
  assumes "kv_allows hash st c st' (OError e)" "single_key c"
  shows "\<exists>x. e = Chord x"
  using assms(1) spec_entry_error[of "st (cmd_key c)" c e] by (auto simp: kv_allows_def spec_cmd_entry[OF assms(2)])

text \<open>
  What a ring may do on a request. A request that the asked member forwards goes over the wire, and
  so does its answer: there an empty value and nil are the same. Requests that put neither and do not
  release with token zero, on a store without empty values, are answered exactly as one store does.
\<close>

fun wire_obs :: "kv_obs \<Rightarrow> kv_obs" where
  "wire_obs (OValue v) = OValue (wire_bytes v)"
| "wire_obs ob = ob"

definition ring_allows :: "(bytes \<Rightarrow> u64) \<Rightarrow> store \<Rightarrow> kv_cmd \<Rightarrow> store \<Rightarrow> kv_obs \<Rightarrow> bool" where
  "ring_allows hash st c st' ob \<longleftrightarrow> kv_allows hash st c st' ob \<or>
     (\<exists>ob'. kv_allows hash st (RemoteNode_request c) st' ob' \<and> ob = wire_obs ob')"

lemma wire_obs_same: "ob \<noteq> OValue (Some []) \<Longrightarrow> wire_obs ob = ob"
  by (cases ob) (auto simp: wire_bytes_def)

lemma ring_allows_exact:
  assumes "request_ok c" "no_empty st"
  shows "ring_allows hash st c st' ob \<longleftrightarrow> spec_cmd hash st c = (st', ob)"
proof -
  have "snd (spec_cmd hash st c) \<noteq> OValue (Some [])"
    using spec_entry_no_empty(2)[OF assms(1)] assms(2)
    by (simp add: spec_cmd_entry[OF request_ok_single[OF assms(1)]] no_empty_def)
  then show ?thesis
    using wire_obs_same by (auto simp: ring_allows_def request_ok_wire[OF assms(1)] kv_allows_exact[OF request_ok_not_liberal[OF assms(1)]])
qed

lemma request_no_empty:
  assumes "request_ok c" "no_empty st"
  shows "no_empty (fst (spec_cmd hash st c))"
  using spec_entry_no_empty(1)[OF assms(1)] assms(2)
  by (auto simp: spec_cmd_entry[OF request_ok_single[OF assms(1)]] no_empty_def)

text \<open>What comes back over the wire is what the owner answered.\<close>

lemma response_same:
  assumes "twirp_transport (env_wire env)" "\<And>e. ob = OError e \<Longrightarrow> \<exists>x. e = Chord x"
  shows "RemoteNode_response env (Server_response env key ob) = wire_obs ob"
  using assms(2) ErrorMapper_wire_KV[OF assms(1)] by (cases ob) (auto simp: wire_bytes_def)

lemma between_opposite:
  assumes "on_ring p" "on_ring n" "on_ring k" "p \<noteq> n" "Between p k n True"
  shows "\<not> Between n k p True"
proof -
  have "arc p k \<le> arc p n" "arc p n < arc p p"
    using assms Between_arc(2)[of p k n] cw_less[of p n] by (simp_all add: arc_def)
  then show ?thesis
    using assms arc_shift[of p n k] arc_shift[of p n p] arc_pos[of p k] Between_arc(2)[of n k p]
    by (simp add: arc_def[of p p])
qed

text \<open>
  A ring that serves requests: the members \<open>L\<close> are active, and their pointers are right for a ring \<open>R\<close>
  that may still count departed nodes.
\<close>

definition ring_serving :: "u64 set \<Rightarrow> u64 set \<Rightarrow> 'kv chord_net \<Rightarrow> bool" where
  "ring_serving R L net \<longleftrightarrow> L \<subseteq> R \<and> ring_known R net \<and> fingers_known R net \<and> (\<forall>n \<in> R - L. gone net n) \<and>
     (\<forall>n \<in> L. \<exists>ln. net_nodes net n = Some ln \<and> ln_ID ln = n \<and> Get (ln_state ln) = Active \<and>
        (case ln_predecessor ln of None \<Rightarrow> True | Some p \<Rightarrow> adjacent R p n) \<and>
        (case ln_surrogate ln of None \<Rightarrow> True | Some q \<Rightarrow> q \<noteq> n \<and> adjacent R q n))"

lemma ring_core_serving:
  assumes core: "ring_core env U R net"
  shows "ring_serving R R net"
proof -
  have "\<exists>ln. net_nodes net n = Some ln \<and> ln_ID ln = n \<and> Get (ln_state ln) = Active \<and>
      (case ln_predecessor ln of None \<Rightarrow> True | Some p \<Rightarrow> adjacent R p n) \<and>
      (case ln_surrogate ln of None \<Rightarrow> True | Some q \<Rightarrow> q \<noteq> n \<and> adjacent R q n)" if "n \<in> R" for n
    using core that by (fastforce simp: ring_core_def ring_state_def pointers_ok_def departing_def)
  then show ?thesis
    using ring_ok_known[OF ring_core_member_ok[OF core]] ring_core_fingers[OF core] by (simp add: ring_serving_def)
qed

lemma ring_serving_on: "ring_serving R L net \<Longrightarrow> r \<in> R \<Longrightarrow> on_ring r"
  by (simp add: ring_serving_def ring_known_def)

lemma ring_serving_lookup:
  assumes "ring_serving R L net" "n \<in> R" "on_ring key" "FindSuccessor env net hops n key = Inr s"
  shows "is_owner R key s"
  using assms lookup_safe[of R net key n env hops s] by (simp add: ring_serving_def)

lemma serve_own:
  assumes serving: "ring_serving R L net" and ln: "net_nodes net n = Some ln" and n: "n \<in> L"
    and own: "is_owner R (Hash (env_xxh3 env) (cmd_key c)) n"
    and find: "FindSuccessor env net (env_hops env) n (Hash (env_xxh3 env) (cmd_key c)) = Inr n"
  shows "kvMiddleware env kv UNKNOWN (Suc fuel) n c net = local_kv kv net n ln c"
proof -
  let ?id = "Hash (env_xxh3 env) (cmd_key c)"
  note ring = ring_serving_on[OF serving]
  have nR: "n \<in> R" using serving n by (auto simp: ring_serving_def)
  have p: "Get (ln_state ln) = Active" "ln_ID ln = n" "\<And>p. ln_predecessor ln = Some p \<Longrightarrow> adjacent R p n"
    "\<And>q. ln_surrogate ln = Some q \<Longrightarrow> q \<noteq> n \<and> adjacent R q n"
    using serving n ln by (fastforce simp: ring_serving_def split: option.splits)+
  have btw: "Between p ?id n True" if "adjacent R p n" for p
    using owner_iff[OF ring on_ring_Hash that] own by blast
  have "\<not> Between n ?id q True" if q: "adjacent R q n" "q \<noteq> n" for q
  proof -
    have "q \<in> R" using q(1) by (simp add: adjacent_def)
    then show ?thesis using between_opposite[OF ring ring[OF nR] on_ring_Hash q(2) btw[OF q(1)]] by blast
  qed
  then show ?thesis using ln p find btw by (auto simp: Let_def simp del: FindSuccessor.simps split: option.splits)
qed

lemma forward_step:
  assumes "net_nodes net n = Some ln" "ln_ID ln = n" "s \<noteq> n"
    and "FindSuccessor env net (env_hops env) n (Hash (env_xxh3 env) (cmd_key c)) = Inr s"
    and "net_nodes net s = Some ls" "kvMiddleware env kv UNKNOWN fuel s (RemoteNode_request c) net = (net', ob)"
  shows "kvMiddleware env kv UNKNOWN (Suc fuel) n c net =
    (net', RemoteNode_response env (Server_response env (cmd_key c) ob))"
  by (subst kvMiddleware.simps(2)) (simp add: assms forward_kv_def del: kvMiddleware.simps)

lemma request_gone:
  assumes "gone net s" "kvMiddleware env kv UNKNOWN fuel s c net = (net', ob)"
  shows "\<exists>e. ob = OError e \<and> net' = net"
proof (cases fuel)
  case (Suc fuel')
  obtain e where "FindSuccessor env net (env_hops env) s (Hash (env_xxh3 env) (cmd_key c)) = Inl e"
    using FindSuccessor_gone[OF assms(1)] by blast
  then show ?thesis using assms(2) Suc by (cases "net_nodes net s") (auto simp: Let_def simp del: FindSuccessor.simps)
qed (use assms(2) in auto)

text \<open>A request at a member fails without effect, or is served by the owner of its key - by the member
  itself as it is, by another member as it arrives over the wire.\<close>

lemma request_routed:
  assumes serving: "ring_serving R L net" and n: "n \<in> L"
    and run: "kvMiddleware env kv UNKNOWN fuel n c net = (net', ob)"
  obtains e where "ob = OError e" "net' = net"
  | s ls c' ob' where "s \<in> L" "is_owner R (Hash (env_xxh3 env) (cmd_key c)) s" "net_nodes net s = Some ls"
      "local_kv kv net s ls c' = (net', ob')" "c' = c \<and> ob = ob' \<or>
        c' = RemoteNode_request c \<and> ob = RemoteNode_response env (Server_response env (cmd_key c) ob')"
proof (cases fuel)
  case 0
  then show thesis using run that(1) by auto
next
  case (Suc fuel')
  let ?id = "Hash (env_xxh3 env) (cmd_key c)"
  have LR: "L \<subseteq> R" using serving by (simp add: ring_serving_def)
  obtain ln where ln: "net_nodes net n = Some ln" "ln_ID ln = n" using serving n by (fastforce simp: ring_serving_def)
  show thesis
  proof (cases "FindSuccessor env net (env_hops env) n ?id")
    case (Inl e)
    then show thesis using run Suc ln that(1) by auto
  next
    case (Inr s)
    have own: "is_owner R ?id s" using ring_serving_lookup[OF serving _ on_ring_Hash Inr] n LR by blast
    show thesis
    proof (cases "s = n")
      case True
      then have "local_kv kv net n ln c = (net', ob)" using serve_own[OF serving ln(1) n] own Inr run Suc by metis
      then show thesis using that(2)[OF n own[unfolded True] ln(1)] by blast
    next
      case False
      show thesis
      proof (cases "net_nodes net s")
        case None
        then show thesis using run Suc ln Inr False that(1)
          by (auto simp: forward_kv_def simp del: FindSuccessor.simps)
      next
        case (Some ls)
        obtain net2 ob2 where inner: "kvMiddleware env kv UNKNOWN fuel' s (RemoteNode_request c) net = (net2, ob2)"
          by fastforce
        have fw: "net' = net2" "ob = RemoteNode_response env (Server_response env (cmd_key c) ob2)"
          using forward_step[OF ln False Inr Some inner] run Suc by simp_all
        have "(\<exists>e. ob2 = OError e \<and> net2 = net) \<or>
            s \<in> L \<and> local_kv kv net s ls (RemoteNode_request c) = (net2, ob2)"
        proof (cases "s \<in> L")
          case sL: True
          show ?thesis
          proof (cases fuel')
            case (Suc fuel2)
            obtain l where l: "net_nodes net s = Some l" "ln_ID l = s" using serving sL by (fastforce simp: ring_serving_def)
            show ?thesis
            proof (cases "FindSuccessor env net (env_hops env) s ?id")
              case (Inl e)
              then show ?thesis using inner Suc l by (auto simp: Let_def)
            next
              case (Inr s')
              then have "is_owner R ?id s'" using ring_serving_lookup[OF serving _ on_ring_Hash] sL LR by blast
              then have "s' = s" using is_owner_unique[OF _ own ring_serving_on[OF serving] on_ring_Hash] by blast
              then show ?thesis
                using serve_own[OF serving Some sL, of env "RemoteNode_request c"] own Inr inner Suc sL by simp
            qed
          qed (use inner in auto)
        next
          case sL: False
          then have "gone net s" using serving own by (auto simp: ring_serving_def is_owner_def)
          then show ?thesis using request_gone[OF _ inner] by blast
        qed
        then show thesis
        proof
          assume "\<exists>e. ob2 = OError e \<and> net2 = net"
          then show thesis using fw that(1) by auto
        next
          assume "s \<in> L \<and> local_kv kv net s ls (RemoteNode_request c) = (net2, ob2)"
          then show thesis using that(2)[OF _ own Some] fw by blast
        qed
      qed
    qed
  qed
qed

subsection \<open>Requests at any member\<close>

context kv_provider
begin

lemma serve_refines:
  assumes ring: "\<And>r. r \<in> L \<Longrightarrow> on_ring r" and holds: "ring_holds hash abs inv L net st" and n: "n \<in> L"
    and ln: "net_nodes net n = Some ln" and key: "on_ring (hash (cmd_key c))" and c: "single_key c"
    and own: "is_owner L (hash (cmd_key c)) n" and run: "local_kv kv net n ln c = (net', ob)"
  obtains kv' st' where "net' = set_node net n (ln\<lparr>ln_kv := kv'\<rparr>)" "kv_allows hash st c st' ob"
    "ring_holds hash abs inv L net' st'"
proof -
  let ?k = "cmd_key c"
  obtain kv' where kv': "exec_cmd kv (ln_kv ln) c = (kv', ob)" "net' = set_node net n (ln\<lparr>ln_kv := kv'\<rparr>)"
    using run by (auto simp: local_kv_def split: prod.splits)
  have h: "inv (ln_kv ln)" "\<And>k. abs (ln_kv ln) k = (if is_owner L (hash k) n then st k else no_entry)"
    using holds n ln by (auto simp: ring_holds_def)
  have step: "inv kv'" "kv_allows hash (abs (ln_kv ln)) c (abs kv') ob"
    using exec_cmd_allowed[OF h(1) single_key_cmd_ok[OF c]] kv'(1) by auto
  obtain e where e: "abs kv' = (abs (ln_kv ln))(?k := e)" "kv_allows hash st c (st(?k := e)) ob"
    by (rule kv_allows_entry[OF step(2) c]) (use h(2) own in auto)
  have "ring_holds hash abs inv L net' (st(?k := e))"
    unfolding ring_holds_def
  proof (intro ballI allI impI)
    fix m l assume m: "m \<in> L" "net_nodes net' m = Some l"
    show "inv (ln_kv l) \<and> (\<forall>k. abs (ln_kv l) k = (if is_owner L (hash k) m then (st(?k := e)) k else no_entry))"
    proof (cases "m = n")
      case True
      then have "ln_kv l = kv'" using m kv'(2) by auto
      then show ?thesis using True step(1) h(2) own e(1) by auto
    next
      case False
      then have "\<not> is_owner L (hash ?k) m" using is_owner_unique[OF own _ ring key] by blast
      moreover have "net_nodes net m = Some l" using m kv'(2) False by auto
      ultimately show ?thesis using holds m by (auto simp: ring_holds_def)
    qed
  qed
  then show thesis using that kv'(2) e(2) by blast
qed

text \<open>A request either has an effect and a result the ring allows, or it fails without effect.\<close>

lemma request_refines:
  assumes serving: "ring_serving R L net" and holds: "ring_holds hash abs inv L net st" and n: "n \<in> L"
    and hash: "hash = Hash (env_xxh3 env)" and c: "single_key c" and wire: "twirp_transport (env_wire env)"
    and run: "kvMiddleware env kv UNKNOWN fuel n c net = (net', ob)"
  obtains e where "ob = OError e" "net' = net"
  | s ls kv' st' where "s \<in> L" "net_nodes net s = Some ls" "net' = set_node net s (ls\<lparr>ln_kv := kv'\<rparr>)"
      "ring_allows hash st c st' ob" "ring_holds hash abs inv L net' st'"
  using serving n run
proof (cases rule: request_routed)
  case (1 e)
  then show thesis by (rule that(1))
next
  case (2 s ls c' ob')
  have key: "single_key c'" "cmd_key c' = cmd_key c" using 2(5) c by auto
  have ring: "\<And>r. r \<in> L \<Longrightarrow> on_ring r" using ring_serving_on[OF serving] serving by (auto simp: ring_serving_def)
  have own: "is_owner L (hash (cmd_key c')) s"
    unfolding key hash using is_owner_subset[OF 2(2) _ 2(1)] serving by (auto simp: ring_serving_def)
  obtain kv' st' where st': "net' = set_node net s (ls\<lparr>ln_kv := kv'\<rparr>)" "kv_allows hash st c' st' ob'"
    "ring_holds hash abs inv L net' st'"
    by (rule serve_refines[OF ring holds 2(1,3) _ key(1) own 2(4)]) (auto simp: hash on_ring_Hash)
  have "RemoteNode_response env (Server_response env (cmd_key c) ob') = wire_obs ob'"
    by (rule response_same[OF wire]) (use kv_allows_error[OF _ key(1)] st'(2) in blast)
  then have "ring_allows hash st c st' ob" using 2(5) st'(2) by (auto simp: ring_allows_def)
  then show thesis using that(2) 2(1,3) st' by blast
qed

text \<open>When the fingers name members and the budget suffices, every request is answered.\<close>

lemma request_answered:
  assumes core: "ring_core env U R net" and holds: "ring_holds hash abs inv R net st" and n: "n \<in> R"
    and hash: "hash = Hash (env_xxh3 env)" and c: "single_key c"
    and wire: "twirp_transport (env_wire env)" and live: "fingers_live R net" and hops: "card R \<le> env_hops env"
    and run: "kvMiddleware env kv UNKNOWN (Suc (Suc fuel)) n c net = (net', ob)"
  obtains st' where "ring_core env U R net'" "ring_allows hash st c st' ob" "ring_holds hash abs inv R net' st'"
proof -
  let ?id = "Hash (env_xxh3 env) (cmd_key c)"
  note serving = ring_core_serving[OF core]
  have find: "\<exists>s. FindSuccessor env net (env_hops env) m ?id = Inr s \<and> is_owner R ?id s" if "m \<in> R" for m
    using lookup_terminates[OF ring_core_member_ok[OF core] live on_ring_Hash that]
      card_ahead[OF ring_coreD(1)[OF core] that ring_coreD(5)[OF core that]] hops
    by (metis less_le_trans)
  obtain s where s: "FindSuccessor env net (env_hops env) n ?id = Inr s" "is_owner R ?id s" using find[OF n] by blast
  have sR: "s \<in> R" using s(2) by (simp add: is_owner_def)
  obtain s' where s': "FindSuccessor env net (env_hops env) s ?id = Inr s'" "is_owner R ?id s'"
    using find[OF sR] by blast
  then have "s' = s" using is_owner_unique[OF s'(2) s(2)] ring_coreD(5)[OF core] on_ring_Hash by blast
  obtain ln where ln: "net_nodes net n = Some ln" "ln_ID ln = n" using ring_core_node[OF core n] by metis
  obtain ls where ls: "net_nodes net s = Some ls" using ring_core_node[OF core sR] by metis
  obtain c' ob' where l: "local_kv kv net s ls c' = (net', ob')" "c' = c \<and> ob = ob' \<or>
      c' = RemoteNode_request c \<and> ob = RemoteNode_response env (Server_response env (cmd_key c) ob')"
  proof (cases "s = n")
    case True
    then have "local_kv kv net s ls c = (net', ob)" using serve_own[OF serving ls sR] s run by metis
    then show thesis using that by blast
  next
    case False
    obtain net2 ob2 where l: "local_kv kv net s ls (RemoteNode_request c) = (net2, ob2)" by fastforce
    then have "kvMiddleware env kv UNKNOWN (Suc fuel) s (RemoteNode_request c) net = (net2, ob2)"
      using serve_own[OF serving ls sR, of env "RemoteNode_request c" kv fuel] s(2) s'(1) \<open>s' = s\<close> by simp
    then have "net' = net2" "ob = RemoteNode_response env (Server_response env (cmd_key c) ob2)"
      using forward_step[OF ln False s(1) ls, of kv "Suc fuel" net2 ob2] run by simp_all
    then show thesis using that l by blast
  qed
  have key: "single_key c'" "cmd_key c' = cmd_key c" using l(2) c by auto
  obtain kv' st' where st': "net' = set_node net s (ls\<lparr>ln_kv := kv'\<rparr>)" "kv_allows hash st c' st' ob'"
    "ring_holds hash abs inv R net' st'"
    by (rule serve_refines[OF _ holds sR ls _ key(1) _ l(1)])
      (use ring_coreD(5)[OF core] s(2) key(2) in \<open>auto simp: hash on_ring_Hash\<close>)
  have "RemoteNode_response env (Server_response env (cmd_key c) ob') = wire_obs ob'"
    by (rule response_same[OF wire]) (use kv_allows_error[OF _ key(1)] st'(2) in blast)
  then have "ring_allows hash st c st' ob" using l(2) st'(2) by (auto simp: ring_allows_def)
  moreover have "ring_core env U R net'"
    unfolding st'(1) using core sR ls by (intro ring_core_update) (auto simp: ring_core_def ring_state_def)
  ultimately show thesis using that st'(3) by blast
qed

end

end
