(* ===== verification/Chord_Transfer.thy ===== *)
theory Chord_Transfer
  imports Chord_Storage
begin

text \<open>
  What the operations of a node do to the stores of the nodes: maintenance and state changes leave
  them alone, and a transfer moves a set of keys from one node to its neighbour without losing or
  changing an entry.
\<close>

definition kvs :: "'kv chord_net \<Rightarrow> u64 \<Rightarrow> 'kv option" where
  "kvs net n = map_option ln_kv (net_nodes net n)"

lemma kvs_set_node: "kvs (set_node net n ln) = (kvs net)(n \<mapsto> ln_kv ln)"
  by (auto simp: kvs_def fun_eq_iff)

lemma kvs_same: "net_nodes net n = Some ln \<Longrightarrow> ln_kv ln' = ln_kv ln \<Longrightarrow> kvs (set_node net n ln') = kvs net"
  by (auto simp: kvs_def fun_eq_iff)

lemma ring_holds_kvs:
  "ring_holds hash abstr good R net st \<longleftrightarrow>
     (\<forall>n \<in> R. \<forall>kv. kvs net n = Some kv \<longrightarrow>
        good kv \<and> (\<forall>k. abstr kv k = (if is_owner R (hash k) n then st k else no_entry)))"
  by (auto simp: ring_holds_def kvs_def)

lemma ring_holds_cong: "kvs net = kvs net' \<Longrightarrow> ring_holds hash abstr good R net st = ring_holds hash abstr good R net' st"
  by (simp add: ring_holds_kvs)

subsection \<open>Operations that leave the stores alone\<close>

lemma kvs_LocalNode_Notify [simp]: "kvs (fst (LocalNode_Notify env n p net)) = kvs net"
  by (auto simp: LocalNode_Notify_def Let_def kvs_same split: option.splits)

lemma kvs_tell: "(\<And>net. kvs (fst (h net)) = kvs net) \<Longrightarrow> kvs (fst (tell env net n h)) = kvs net"
  by (simp add: tell_def case_prod_beta split: option.splits)

lemma kvs_Notify [simp]: "kvs (fst (Notify env net caller n p)) = kvs net"
  by (simp add: Notify_def RemoteNode_Notify_def kvs_tell Server_Notify_def case_prod_beta)

lemma kvs_stabilize [simp]: "kvs (fst (stabilize env n net)) = kvs net"
proof (cases "net_nodes net n")
  case (Some ln)
  show ?thesis
  proof (cases "stabilize_loop env net (ln_ID ln) (ln_successors ln)")
    case (Some sl)
    let ?ln = "adopt env sl ln"
    let ?N = "Notify env (set_node net n ?ln) n (hd sl) n"
    have a: "kvs (set_node net n ?ln) = kvs net" using \<open>net_nodes net n = Some ln\<close> by (simp add: kvs_same)
    then have b: "kvs (fst ?N) = kvs net" by simp
    have "kvs (fst (stabilize env n net)) = kvs (set_node net n ?ln) \<or>
        kvs (fst (stabilize env n net)) = kvs (fst ?N)"
      using Some \<open>net_nodes net n = Some ln\<close>
      by (auto simp: stabilize_def adopt_def Let_def case_prod_beta kvs_same
          split: prod.splits sum.splits option.splits if_splits)
    then show ?thesis using a b by metis
  qed (simp add: stabilize_def Some)
qed (simp add: stabilize_def)

lemma kvs_fixK [simp]: "kvs (fst (fixK env n k net)) = kvs net"
  by (auto simp: fixK_def kvs_same split: option.splits sum.splits)

lemma kvs_fix_fingers [simp]: "kvs (fix_fingers env n ks net) = kvs net"
  by (induction ks arbitrary: net) simp_all

lemma kvs_fixFinger [simp]: "kvs (fixFinger env n net) = kvs net"
  by (simp add: fixFinger_def)

lemma kvs_startTasks [simp]: "kvs (startTasks env n net) = kvs net"
  by (simp add: startTasks_def)

lemma kvs_set_state [simp]: "kvs (set_state net n v) = kvs net"
  by (auto simp: set_state_def kvs_same split: option.splits)

lemma kvs_transition: "net_nodes net n = Some ln \<Longrightarrow> kvs (fst (transition net n ln a b)) = kvs net"
  by (simp add: transition_def case_prod_beta kvs_same)

lemma kvs_FinishJoin [simp]: "kvs (fst (FinishJoin env n b r net)) = kvs net"
proof -
  let ?net1 = "if b then fixFinger env n (fst (stabilize env n net)) else net"
  have "kvs ?net1 = kvs net" by simp
  then show ?thesis
    unfolding FinishJoin_def by (auto simp: Let_def case_prod_beta kvs_transition split: option.splits)
qed

lemma kvs_FinishLeave [simp]: "kvs (fst (FinishLeave env n b r net)) = kvs net"
proof -
  let ?net1 = "if b then fixFinger env n (fst (stabilize env n net)) else net"
  have "kvs ?net1 = kvs net" by simp
  then show ?thesis
    unfolding FinishLeave_def by (auto simp: Let_def case_prod_beta kvs_transition split: option.splits)
qed

lemma kvs_VNode_FinishJoin [simp]: "kvs (fst (VNode_FinishJoin env net c n b r)) = kvs net"
  by (simp add: VNode_FinishJoin_def RemoteNode_FinishJoin_def kvs_tell Server_FinishJoin_def case_prod_beta)

lemma kvs_VNode_FinishLeave [simp]: "kvs (fst (VNode_FinishLeave env net c n b r)) = kvs net"
  by (simp add: VNode_FinishLeave_def RemoteNode_FinishLeave_def kvs_tell Server_FinishLeave_def case_prod_beta)

subsection \<open>Moving keys\<close>

lemma import_exported:
  assumes "map transfer_entry ts = map f ks" "distinct ks"
  shows "import_entries st ks ts k = (if k \<in> set ks then f k else st k)"
  using assms
proof (induction ks arbitrary: ts st)
  case (Cons a ks)
  then obtain t ts' where ts: "ts = t # ts'" "transfer_entry t = f a" "map transfer_entry ts' = map f ks"
    by (cases ts) auto
  then show ?case using Cons.IH[OF ts(3)] Cons.prems(2) by auto
qed simp

lemma VNode_Import_ok:
  assumes "net_nodes net j = Some lj" "answers (Get (ln_state lj))" "Get (ln_state lj) \<noteq> Leaving"
    and "op_Import P (ln_kv lj) ks vs = (kv', Inr ())"
  shows "VNode_Import env P net n j ks vs = (set_node net j (lj\<lparr>ln_kv := kv'\<rparr>), Inr ())"
proof -
  have "LocalNode_Import env P j ks vs net = (set_node net j (lj\<lparr>ln_kv := kv'\<rparr>), Inr ())"
    using assms by (auto simp: LocalNode_Import_def answers_def)
  then show ?thesis
    using assms(1) by (auto simp: VNode_Import_def RemoteNode_Import_def tell_def Server_Import_def)
qed

context kv_provider
begin

lemma move_keys:
  assumes inv: "inv a" "inv b" and ks: "distinct ks" "\<And>k. k \<in> set ks \<Longrightarrow> live (abs a k) \<and> abs b k = no_entry"
  obtains ts a' b' where "op_Export kv a ks = Inr ts" "op_Import kv b ks (map Some ts) = (b', Inr ())"
    "op_RemoveKeys kv a ks = (a', Inr ())" "inv a'" "inv b'"
    "\<And>k. abs b' k = (if k \<in> set ks then abs a k else abs b k)"
    "\<And>k. abs a' k = (if k \<in> set ks then no_entry else abs a k)"
proof -
  obtain ts where ts: "op_Export kv a ks = Inr ts" "map transfer_entry ts = map (abs a) ks"
    using Export_ok[OF inv(1), of ks] by blast
  have len: "length ks = length ts" using ts(2) by (metis length_map)
  have good: "live (transfer_entry t) \<and> token_ok (LeaseToken t)" if "t \<in> set ts" for t
  proof -
    have "transfer_entry t \<in> abs a ` set ks" using that ts(2) by (metis image_eqI list.set_map)
    then obtain k where k: "k \<in> set ks" "transfer_entry t = abs a k" by auto
    then have "LeaseToken t = e_lease (abs a k)" by (metis entry.select_convs(3) transfer_entry_def)
    then show ?thesis using ks(2)[OF k(1)] k(2) tokens_ok[OF inv(1), of k] by simp
  qed
  obtain b' r where b': "op_Import kv b ks (map Some ts) = (b', r)" by fastforce
  then have imp: "inv b'" "r = Inr ()" "abs b' = import_entries (abs b) ks ts"
    using Import_ok[OF inv(2) len ks(1) good _ b'] ks(2) by auto
  obtain a' r' where a': "op_RemoveKeys kv a ks = (a', r')" by fastforce
  then have rem: "inv a'" "r' = Inr ()" "abs a' = remove_entries (abs a) ks"
    using RemoveKeys_ok[OF inv(1) a'] by auto
  show thesis
    by (rule that[of ts b' a']) (use ts(1) a' b' imp rem import_exported[OF ts(2) ks(1)] in
        \<open>simp_all add: remove_entries_def\<close>)
qed

text \<open>A joining node receives the keys between the old predecessor and itself.\<close>

lemma transfer_up:
  assumes new: "new_member R p j s" and hash: "\<And>k. on_ring (hash k)"
    and s: "net_nodes net s = Some ls'" "ln_kv ls' = ln_kv ls" "ln_ID ls = s" "inv (ln_kv ls)"
    and abs_s: "\<And>k. abs (ln_kv ls) k = (if is_owner R (hash k) s then st k else no_entry)"
    and j: "net_nodes net j = Some lj" "Get (ln_state lj) = Joining" "inv (ln_kv lj)" "\<And>k. abs (ln_kv lj) k = no_entry"
  obtains kj ks where "transferKeysUpward env kv net s ls (Some p) j =
      (set_node (set_node net j (lj\<lparr>ln_kv := kj\<rparr>)) s (ls'\<lparr>ln_kv := ks\<rparr>), Inr ())"
    "inv kj" "inv ks" "\<And>k. abs kj k = (if is_owner (insert j R) (hash k) j then st k else no_entry)"
    "\<And>k. abs ks k = (if is_owner (insert j R) (hash k) s then st k else no_entry)"
proof -
  note D = new_memberD[OF new]
  have split: "is_owner (insert j R) (hash k) j \<longleftrightarrow> Between p (hash k) j True"
    "is_owner (insert j R) (hash k) s \<longleftrightarrow> is_owner R (hash k) s \<and> \<not> Between p (hash k) j True"
    "Between p (hash k) j True \<Longrightarrow> is_owner R (hash k) s" for k
    using new_member_owns[OF new hash] new_member_split[OF new hash] by blast+
  obtain ks where ks: "op_RangeKeys kv (ln_kv ls) p j = Inr ks" "distinct ks"
    "set ks = {k. live (abs (ln_kv ls) k) \<and> Between p (hash k) j True}"
    using RangeKeys_ok[OF s(4) D(4,3)] by blast
  have side: "\<And>k. k \<in> set ks \<Longrightarrow> live (abs (ln_kv ls) k) \<and> abs (ln_kv lj) k = no_entry"
    using ks(3) j(4) by auto
  obtain ts a' b' where mv: "op_Export kv (ln_kv ls) ks = Inr ts" "op_Import kv (ln_kv lj) ks (map Some ts) = (b', Inr ())"
    "op_RemoveKeys kv (ln_kv ls) ks = (a', Inr ())" "inv a'" "inv b'"
    "\<And>k. abs b' k = (if k \<in> set ks then abs (ln_kv ls) k else abs (ln_kv lj) k)"
    "\<And>k. abs a' k = (if k \<in> set ks then no_entry else abs (ln_kv ls) k)"
    by (rule move_keys[OF s(4) j(3) ks(2) side]) (assumption | rule that)+
  have dead: "Between p (hash k) j True \<Longrightarrow> k \<notin> set ks \<Longrightarrow> st k = no_entry" for k
    using ks(3) split(3)[of k] abs_s[of k] by (auto simp: live_iff)
  note btw = new_member_between[OF new]
  show thesis
  proof (cases "ks = []")
    case True
    have "ls'\<lparr>ln_kv := ln_kv ls\<rparr> = ls'" unfolding s(2)[symmetric] by simp
    then have "set_node (set_node net j (lj\<lparr>ln_kv := ln_kv lj\<rparr>)) s (ls'\<lparr>ln_kv := ln_kv ls\<rparr>) = net"
      using s(1) j(1) by (simp add: set_node_same)
    moreover have "transferKeysUpward env kv net s ls (Some p) j = (net, Inr ())"
      using ks(1) True s(3) D(12) btw by (simp add: transferKeysUpward_def)
    moreover have "abs (ln_kv lj) k = (if is_owner (insert j R) (hash k) j then st k else no_entry)" for k
      using j(4)[of k] dead[of k] split(1)[of k] True by simp
    moreover have "abs (ln_kv ls) k = (if is_owner (insert j R) (hash k) s then st k else no_entry)" for k
      using abs_s[of k] dead[of k] split(2)[of k] True by simp
    ultimately show thesis using that[of "ln_kv lj" "ln_kv ls"] j(3) s(4) by simp
  next
    case False
    have "VNode_Import env kv net s j ks (map Some ts) = (set_node net j (lj\<lparr>ln_kv := b'\<rparr>), Inr ())"
      using VNode_Import_ok[OF j(1) _ _ mv(2)] j(2) by simp
    then have "transferKeysUpward env kv net s ls (Some p) j =
        (set_node (set_node net j (lj\<lparr>ln_kv := b'\<rparr>)) s (ls'\<lparr>ln_kv := a'\<rparr>), Inr ())"
      using ks(1) False s D(12) btw mv(1,3) by (simp add: transferKeysUpward_def remove_local_def)
    moreover have "abs b' k = (if is_owner (insert j R) (hash k) j then st k else no_entry)" for k
      using mv(6)[of k] abs_s[of k] j(4)[of k] split(1,3)[of k] dead[of k] ks(3) by auto
    moreover have "abs a' k = (if is_owner (insert j R) (hash k) s then st k else no_entry)" for k
      using mv(7)[of k] abs_s[of k] split(2)[of k] dead[of k] ks(3) by auto
    ultimately show thesis using that mv(4,5) by blast
  qed
qed

text \<open>A leaving node hands all its keys to its successor.\<close>

lemma transfer_down:
  assumes old: "old_member R p n s" and hash: "\<And>k. on_ring (hash k)"
    and n: "net_nodes net n = Some ln" "inv (ln_kv ln)"
    and abs_n: "\<And>k. abs (ln_kv ln) k = (if is_owner R (hash k) n then st k else no_entry)"
    and s: "net_nodes net s = Some ls" "Get (ln_state ls) = Transferring" "inv (ln_kv ls)"
    and abs_s: "\<And>k. abs (ln_kv ls) k = (if is_owner R (hash k) s then st k else no_entry)"
  obtains kn ks where "transferKeysDownward env kv net n ln s =
      (set_node (set_node net s (ls\<lparr>ln_kv := ks\<rparr>)) n (ln\<lparr>ln_kv := kn\<rparr>), Inr ())" "inv ks"
    "\<And>k. abs ks k = (if is_owner (R - {n}) (hash k) s then st k else no_entry)"
proof -
  note D = old_memberD[OF old]
  have split: "is_owner (R - {n}) (hash k) s \<longleftrightarrow> is_owner R (hash k) s \<or> is_owner R (hash k) n" for k
    using old_member_split[OF old hash] .
  have excl: "\<not> (is_owner R (hash k) s \<and> is_owner R (hash k) n)" for k
    using is_owner_unique[of R "hash k" s n] D(1,12) hash by blast
  obtain ks where ks: "op_RangeKeys kv (ln_kv ln) 0 0 = Inr ks" "distinct ks"
    "set ks = {k. live (abs (ln_kv ln) k)}"
    using RangeKeys_ok[OF n(2), of 0 0] by (auto simp: on_ring_def)
  have absent: "abs (ln_kv ls) k = no_entry" if "k \<in> set ks" for k
    using that ks(3) abs_n[of k] abs_s[of k] excl[of k] by (auto split: if_splits)
  have side: "\<And>k. k \<in> set ks \<Longrightarrow> live (abs (ln_kv ln) k) \<and> abs (ln_kv ls) k = no_entry"
    using ks(3) absent by auto
  obtain ts a' b' where mv: "op_Export kv (ln_kv ln) ks = Inr ts" "op_Import kv (ln_kv ls) ks (map Some ts) = (b', Inr ())"
    "op_RemoveKeys kv (ln_kv ln) ks = (a', Inr ())" "inv a'" "inv b'"
    "\<And>k. abs b' k = (if k \<in> set ks then abs (ln_kv ln) k else abs (ln_kv ls) k)"
    "\<And>k. abs a' k = (if k \<in> set ks then no_entry else abs (ln_kv ln) k)"
    by (rule move_keys[OF n(2) s(3) ks(2) side]) (assumption | rule that)+
  have dead: "is_owner R (hash k) n \<Longrightarrow> k \<notin> set ks \<Longrightarrow> st k = no_entry" for k
    using ks(3) abs_n[of k] by (auto simp: live_iff)
  show thesis
  proof (cases "ks = []")
    case True
    have "transferKeysDownward env kv net n ln s =
        (set_node (set_node net s (ls\<lparr>ln_kv := ln_kv ls\<rparr>)) n (ln\<lparr>ln_kv := ln_kv ln\<rparr>), Inr ())"
      using ks(1) True s n by (simp add: transferKeysDownward_def set_node_same)
    moreover have "abs (ln_kv ls) k = (if is_owner (R - {n}) (hash k) s then st k else no_entry)" for k
      using abs_s[of k] dead[of k] split[of k] True by auto
    ultimately show thesis using that s(3) by blast
  next
    case False
    have "VNode_Import env kv net n s ks (map Some ts) = (set_node net s (ls\<lparr>ln_kv := b'\<rparr>), Inr ())"
      using VNode_Import_ok[OF s(1) _ _ mv(2)] s(2) by simp
    then have "transferKeysDownward env kv net n ln s =
        (set_node (set_node net s (ls\<lparr>ln_kv := b'\<rparr>)) n (ln\<lparr>ln_kv := a'\<rparr>), Inr ())"
      using ks(1) False n D(12) mv(1,3) by (simp add: transferKeysDownward_def remove_local_def)
    moreover have "abs b' k = (if is_owner (R - {n}) (hash k) s then st k else no_entry)" for k
      using mv(6)[of k] abs_n[of k] abs_s[of k] excl[of k] split[of k] dead[of k] ks(3) by (auto split: if_splits)
    ultimately show thesis using that mv(5) by blast
  qed
qed

end

end
