(* ===== verification/Chord_Join.thy ===== *)
theory Chord_Join
  imports Chord_Transfer
begin

text \<open>
  A node joins a ring at rest: the ring with the new member is at rest again, and the store of the
  ring is what it was. The lookups of the request may run into departed nodes; then the join fails
  and nothing has changed.
\<close>

definition fresh_node :: "('kv \<Rightarrow> store) \<Rightarrow> ('kv \<Rightarrow> bool) \<Rightarrow> u64 \<Rightarrow> 'kv LocalNode \<Rightarrow> bool" where
  "fresh_node abstr good j ln \<longleftrightarrow> ln_ID ln = j \<and> Get (ln_state ln) = Inactive \<and>
     ln_predecessor ln = None \<and> ln_surrogate ln = None \<and> ln_fingers ln = (\<lambda>_. None) \<and>
     good (ln_kv ln) \<and> (\<forall>k. abstr (ln_kv ln) k = no_entry)"

text \<open>No two successor lists of the nodes in \<open>U\<close> have the same hash.\<close>

definition hash_free :: "chord_env \<Rightarrow> u64 set \<Rightarrow> bool" where
  "hash_free env U \<longleftrightarrow>
     inj_on (list_hash env) {l. set l \<subseteq> U \<and> length l \<le> ExtendedSuccessorEntries}"

subsection \<open>State changes\<close>

lemma transition_ok:
  assumes "Get (ln_state ln) = exp" "named exp" "named nxt"
  obtains st where "transition net n ln exp nxt = (set_node net n (ln\<lparr>ln_state := st\<rparr>), True)" "Get st = nxt"
proof -
  have "transition net n ln exp nxt =
      (set_node net n (ln\<lparr>ln_state := fst (Transition (ln_state ln) exp nxt)\<rparr>), True)"
    using assms by (simp add: transition_def Transition_eq)
  then show thesis using that Get_Transition[OF assms(2,3), of "ln_state ln"] assms(1) by simp
qed

lemma ring_state_transition:
  assumes "ring_state env U R states stale net" "n \<in> R" "states n = exp" "named exp" "named nxt"
    "net_nodes net n = Some ln" "exp \<notin> {Leaving, Left}"
  obtains net' where "transition net n ln exp nxt = (net', True)"
    "ring_state env U R (states(n := nxt)) stale net'"
proof -
  have ln: "Get (ln_state ln) = states n" "pointers_ok env U R (stale n) n ln"
    using ring_state_node[OF assms(1,2)] assms(6) by (metis option.inject)+
  obtain st where st: "transition net n ln exp nxt = (set_node net n (ln\<lparr>ln_state := st\<rparr>), True)" "Get st = nxt"
    using transition_ok[OF _ assms(4,5), of ln net n] ln assms(3) by blast
  have "ring_state env U R (states(n := nxt)) stale (set_node net n (ln\<lparr>ln_state := st\<rparr>))"
    using ring_state_update[OF assms(1,2), of "stale n" "ln\<lparr>ln_state := st\<rparr>"]
      pointers_ok_state[OF ln(2), of st] ln(1) st(2) assms(3,7) by (simp add: departing_def)
  with st(1) show thesis using that by blast
qed

lemma ring_state_set_state:
  assumes "ring_state env U R states stale net" "n \<in> R" "named (states n)" "named v"
    "states n \<in> {Leaving, Left} \<Longrightarrow> v \<in> {Leaving, Left}"
  shows "ring_state env U R (states(n := v)) stale (set_state net n v)"
proof -
  obtain ln where ln: "net_nodes net n = Some ln" "Get (ln_state ln) = states n" "pointers_ok env U R (stale n) n ln"
    using ring_state_node[OF assms(1,2)] by metis
  then show ?thesis
    using ring_state_update[OF assms(1,2), of "stale n" "ln\<lparr>ln_state := state_set (ln_state ln) v\<rparr>"]
      pointers_ok_state[OF ln(3), of "state_set (ln_state ln) v"] assms(3-5)
    by (simp add: set_state_def departing_def)
qed

subsection \<open>The new member in the pointers of the others\<close>

lemma pointers_ok_grow:
  assumes new: "new_member R p j s" and ok: "pointers_ok env U R None m ln" and m: "m \<in> R" "m \<noteq> s"
  shows "pointers_ok env (insert j U) (insert j R) (if m = p then Some s else None) m ln"
proof -
  note D = new_memberD[OF new]
  obtain t where t: "getSuccessor ln = Some t" "adjacent R m t" using ok by (auto simp: pointers_ok_def)
  obtain q where q: "ln_predecessor ln = Some q" "adjacent R q m"
    "ln_surrogate ln = None \<or> q \<noteq> m \<and> ln_surrogate ln = Some q \<or> departing ln"
    using ok by (auto simp: pointers_ok_def)
  have "q \<noteq> p" using adjacent_succ_unique[OF D(1) q(2)] D(7) m(2) by blast
  then have q': "adjacent (insert j R) q m" using new_member_other[OF new q(2)] by blast
  have t': "case if m = p then Some s else None of None \<Rightarrow> adjacent (insert j R) m t | Some s' \<Rightarrow> t = s'"
    using adjacent_succ_unique[OF D(1) t(2)] D(7) new_member_other[OF new t(2)] by auto
  have "fingers_within (\<lambda>f. f \<in> insert j U) ln"
    using ok by (fastforce simp: pointers_ok_def fingers_within_def split: option.splits)
  then show ?thesis using ok t(1) t' q(1,3) q' unfolding pointers_ok_def by blast
qed

lemma pointers_ok_accept:
  assumes new: "new_member R p j s" and ok: "pointers_ok env U R None s ln"
  shows "pointers_ok env (insert j U) (insert j R) (if s = p then Some s else None) s
    (ln\<lparr>ln_surrogate := Some j, ln_predecessor := Some j\<rparr>)"
proof -
  note D = new_memberD[OF new]
  obtain t where t: "getSuccessor ln = Some t" "adjacent R s t" using ok by (auto simp: pointers_ok_def)
  have t': "case if s = p then Some s else None of None \<Rightarrow> adjacent (insert j R) s t | Some s' \<Rightarrow> t = s'"
    using adjacent_succ_unique[OF D(1) t(2)] D(7) new_member_other[OF new t(2)] by auto
  have "fingers_within (\<lambda>f. f \<in> insert j U) ln"
    using ok by (fastforce simp: pointers_ok_def fingers_within_def split: option.splits)
  then show ?thesis using ok t(1) t' new_member_succ[OF new] D(12) unfolding pointers_ok_def
    by (auto simp: getSuccessor_def fingers_within_def)
qed

text \<open>The predecessor learns of the new member when it next stabilizes.\<close>

lemma stabilize_link:
  assumes state: "ring_state env U R states stale net" and p: "p \<in> R" "stale p = Some s"
    and up: "\<And>m. m \<in> R \<Longrightarrow> answers (states m)" "states p \<noteq> Leaving"
    and adj: "adjacent R p j" "adjacent R j s" "Between p j s False" "stale j = None" and free: "hash_free env U"
  obtains ln ln' where "net_nodes net p = Some ln" "stabilize env p net = (set_node net p ln', Inr ())"
    "ring_state env U R states (stale(p := None)) (set_node net p ln')"
proof -
  note ring = ring_stateD(5)[OF state]
  have R: "j \<in> R" "s \<in> R" using adj by (auto simp: adjacent_def)
  obtain ln rest where ln: "net_nodes net p = Some ln" "Get (ln_state ln) = states p"
    "pointers_ok env U R (Some s) p ln" "ln_ID ln = p" "ln_successors ln = s # rest"
    using ring_state_stale[OF state p] by metis
  obtain ls q t rest' where ls: "net_nodes net s = Some ls" "Get (ln_state ls) = states s"
    "ln_successors ls = t # rest'" "ln_predecessor ls = Some q" "adjacent R q s"
    using ring_state_node[OF state R(2)] by metis
  obtain lj q' s' rj where lj: "net_nodes net j = Some lj" "Get (ln_state lj) = states j"
    "pointers_ok env U R None j lj" "ln_successors lj = s' # rj" "ln_predecessor lj = Some q'" "adjacent R q' j"
    "adjacent R j s'"
    using ring_state_known[OF state R(1) adj(4)] by metis
  have "s' = s" using adjacent_succ_unique[OF ring lj(7) adj(2)] by blast
  note lj = lj[unfolded this]
  have q: "q = j" "q' = p" using adjacent_pred_unique[OF ring] ls(5) lj(6) adj by blast+
  have chk: "checkNodeState ls False = None" "checkNodeState lj False = None"
    using answers_check up(1) R ls(2) lj(2) by metis+
  have g: "GetPredecessor env net p s = Inr (Some j)" "GetSuccessors env net p s = Inr (t # rest')"
    "GetSuccessors env net p j = Inr (s # rj)"
    using ls lj q chk by (simp_all add: GetPredecessor_Inr GetSuccessors_Inr)
  have loop: "stabilize_loop env net p (ln_successors ln) = Some (MakeSuccList j (s # rj))"
    unfolding ln(5) stabilize_loop_head[OF g(1,2)] using adj(3) g(3) by simp
  let ?sl = "MakeSuccList j (s # rj)"
  obtain ys where ys: "?sl = j # ys" using MakeSuccList_props(1) by blast
  have sub: "set ?sl \<subseteq> U" "length ?sl \<le> ExtendedSuccessorEntries"
    using MakeSuccList_props(2,3)[of j "s # rj"] lj(3,4) R(1) ring_stateD(3)[OF state]
    by (auto simp: pointers_ok_def)
  have js: "j \<noteq> s" using adj(3) by (auto simp: Between_def split: if_splits)
  then have "list_hash env (ln_successors ln) \<noteq> list_hash env ?sl"
    using inj_onD[OF free[unfolded hash_free_def], of "ln_successors ln" ?sl] sub ln(3,5) ys
    by (auto simp: pointers_ok_def)
  then have ad: "adopt env ?sl ln = updateSuccessorsList (list_hash env ?sl) ?sl ln"
    using ln(3) by (simp add: adopt_def pointers_ok_def)
  have ok: "pointers_ok env U R None p (adopt env ?sl ln)"
    unfolding ad unfolding ys by (rule pointers_ok_successors[OF ln(3) adj(1)]) (use sub ys in simp_all)
  have pj: "p \<noteq> j" using Between_not_low[OF ring[OF p(1)]] adj(3) by blast
  have "Notify env (set_node net p (adopt env ?sl ln)) p (hd ?sl) p = (set_node net p (adopt env ?sl ln), Inr ())"
    using Notify_same[of "set_node net p (adopt env ?sl ln)" j lj p env p] lj chk q pj by simp
  moreover have "checkNodeState ln True = None"
    using up(1)[OF p(1)] up(2) ln(2) by (auto simp: answers_def checkNodeState_simps)
  ultimately have st: "stabilize env p net =
      (set_node net p ((adopt env ?sl ln)\<lparr>ln_lastStabilized := net_now net\<rparr>), Inr ())"
    using stabilize_eq[OF ln(1,4) _ loop] by simp
  have "ring_state env U R states (stale(p := None))
      (set_node net p ((adopt env ?sl ln)\<lparr>ln_lastStabilized := net_now net\<rparr>))"
    using ring_state_update[OF state p(1), of None "(adopt env ?sl ln)\<lparr>ln_lastStabilized := net_now net\<rparr>"] ln(2) ok
    by (simp add: fun_upd_idem)
  with st ln(1) show thesis using that by blast
qed

subsection \<open>The request\<close>

definition adopted :: "chord_env \<Rightarrow> u64 \<Rightarrow> u64 list \<Rightarrow> 'kv LocalNode \<Rightarrow> 'kv LocalNode" where
  "adopted env p sl ln =
     ln\<lparr>ln_succListHash := list_hash env sl, ln_successors := sl, ln_predecessor := Some p\<rparr>"

definition join_states :: "u64 \<Rightarrow> u64 \<Rightarrow> u64 \<Rightarrow> State" where
  "join_states j s = (\<lambda>_. Active)(j := Joining, s := Transferring)"

lemma ring_state_joined:
  assumes core: "ring_core env U R net" and new: "new_member R p j s" and jU: "j \<notin> U"
    and s: "net_nodes net s = Some ls"
    and j: "ln_ID lj = j" "Get (ln_state lj) = Joining" "ln_surrogate lj = None" "ln_fingers lj = (\<lambda>_. None)"
    and net': "\<And>m. m \<noteq> j \<Longrightarrow> m \<noteq> s \<Longrightarrow> net_nodes net' m = net_nodes net m"
    "net_nodes net' j = Some (adopted env p (MakeSuccList s (ln_successors ls)) lj)"
    "net_nodes net' s = Some (ls\<lparr>ln_state := st', ln_kv := ks, ln_surrogate := Some j, ln_predecessor := Some j\<rparr>)"
    "Get st' = Transferring"
  shows "ring_state env (insert j U) (insert j R) (join_states j s) ((\<lambda>_. None)(p := Some s)) net'"
  unfolding ring_state_def
proof (intro conjI ballI)
  note D = new_memberD[OF new]
  show "finite (insert j R)" "insert j R \<noteq> {}" "insert j R \<subseteq> insert j U" using ring_coreD[OF core] by auto
  show "on_ring u" if "u \<in> insert j U" for u using that ring_coreD(4)[OF core] D(3) by auto
  show "gone net' u" if "u \<in> insert j U - insert j R" for u
  proof -
    have "gone net u" "u \<noteq> j" "u \<noteq> s" using that ring_coreD(6)[OF core] D(10) by auto
    then show ?thesis using net'(1)[of u] by (simp add: gone_def)
  qed
  fix m assume m: "m \<in> insert j R"
  have ls: "pointers_ok env U R None s ls" and ls_Active: "Get (ln_state ls) = Active"
    using ring_core_node[OF core D(10)] s by (metis option.inject)+
  consider "m = j" | "m = s" "s \<noteq> j" | "m \<in> R" "m \<noteq> s" "m \<noteq> j" using m D(6) by auto
  then show "\<exists>ln. net_nodes net' m = Some ln \<and> Get (ln_state ln) = join_states j s m \<and>
      pointers_ok env (insert j U) (insert j R) (((\<lambda>_. None)(p := Some s)) m) m ln"
  proof cases
    case 1
    let ?sl = "MakeSuccList s (ln_successors ls)"
    obtain ys where ys: "?sl = s # ys" using MakeSuccList_props(1) by blast
    have sub: "set ?sl \<subseteq> insert j U" "length ?sl \<le> ExtendedSuccessorEntries"
      using MakeSuccList_props(2,3)[of s "ln_successors ls"] ls D(10) ring_coreD(3)[OF core]
      by (auto simp: pointers_ok_def)
    have "pointers_ok env (insert j U) (insert j R) None j (adopted env p ?sl lj)"
      using j sub new_member_pred[OF new] new_member_succ[OF new] ys
      by (auto simp: pointers_ok_def adopted_def getSuccessor_def fingers_within_def)
    then show ?thesis using 1 net'(2) j(2) D(11,12) by (simp add: join_states_def adopted_def)
  next
    case 2
    have "pointers_ok env (insert j U) (insert j R) (if s = p then Some s else None) s
        (ls\<lparr>ln_state := st', ln_kv := ks, ln_surrogate := Some j, ln_predecessor := Some j\<rparr>)"
      using pointers_ok_accept[OF new, of env U "ls\<lparr>ln_state := st', ln_kv := ks\<rparr>"]
        pointers_ok_state[OF ls, of st'] ls_Active by (simp add: departing_def)
    then show ?thesis using 2 net'(3,4) by (auto simp: join_states_def split: if_splits)
  next
    case 3
    then obtain ln where ln: "net_nodes net m = Some ln" "Get (ln_state ln) = Active" "pointers_ok env U R None m ln"
      using ring_core_node[OF core] by metis
    then have "pointers_ok env (insert j U) (insert j R) (if m = p then Some s else None) m ln"
      using pointers_ok_grow[OF new] 3 by blast
    then show ?thesis using 3 ln net'(1)[of m] by (auto simp: join_states_def split: if_splits)
  qed
qed

lemma VNode_FinishJoin_fst:
  assumes "net_nodes net n = Some ln"
  shows "fst (VNode_FinishJoin env net caller n stab release) = fst (FinishJoin env n stab release net)"
  using assms
  by (simp add: VNode_FinishJoin_def RemoteNode_FinishJoin_def tell_def Server_FinishJoin_def case_prod_beta)

text \<open>From the accepted request to the ring at rest.\<close>

definition finish_join :: "chord_env \<Rightarrow> u64 \<Rightarrow> u64 \<Rightarrow> u64 \<Rightarrow> 'kv chord_net \<Rightarrow> 'kv chord_net" where
  "finish_join env j p s net =
     (let net3 = startTasks env j net;
          net4 = fst (VNode_FinishJoin env net3 j p True False);
          net5 = set_state net4 j Active
      in fst (VNode_FinishJoin env net5 j s False True))"

lemma finish_join_core:
  assumes state: "ring_state env U R (join_states j s) ((\<lambda>_. None)(p := Some s)) net"
    and adj: "adjacent R p j" "adjacent R j s" "Between p j s False" and neq: "j \<noteq> p" "j \<noteq> s"
    and free: "hash_free env U"
  shows "ring_core env U R (finish_join env j p s net)"
proof -
  let ?st = "join_states j s" and ?stale = "(\<lambda>_. None)(p := Some s)"
  have R: "p \<in> R" "j \<in> R" "s \<in> R" using adj by (auto simp: adjacent_def)
  have up: "answers (?st m)" "?st m \<noteq> Leaving" for m by (auto simp: join_states_def)
  have stale: "?stale n = Some t \<Longrightarrow> t \<in> R" for n t using R by (auto split: if_splits)
  have "ring_state env U R ?st ?stale (fst (stabilize env j net))"
    by (rule stabilize_rest[OF state R(2) _ up]) (use neq in simp_all)
  then have n3: "ring_state env U R ?st ?stale (startTasks env j net)"
    unfolding startTasks_def by (rule fixFinger_state[OF _ R(2)]) (use stale in auto)
  obtain lp where lp: "net_nodes (startTasks env j net) p = Some lp" using ring_state_node[OF n3 R(1)] by metis
  have "ring_state env U R ?st (\<lambda>_. None) (fst (stabilize env p (startTasks env j net)))"
    by (rule stabilize_link[OF n3 R(1) _ up adj _ free]) (use neq in \<open>auto simp: fun_upd_idem\<close>)
  then have n4: "ring_state env U R ?st (\<lambda>_. None) (fixFinger env p (fst (stabilize env p (startTasks env j net))))"
    by (rule fixFinger_state[OF _ R(1)]) auto
  moreover have "fst (VNode_FinishJoin env (startTasks env j net) j p True False) =
      fixFinger env p (fst (stabilize env p (startTasks env j net)))"
    using VNode_FinishJoin_fst[OF lp] by (simp add: FinishJoin_def)
  ultimately have n5: "ring_state env U R (?st(j := Active)) (\<lambda>_. None)
      (set_state (fst (VNode_FinishJoin env (startTasks env j net) j p True False)) j Active)" (is "ring_state _ _ _ _ _ ?n5")
    using ring_state_set_state[OF n4 R(2)] neq by (simp add: join_states_def)
  obtain ls where ls: "net_nodes ?n5 s = Some ls" using ring_state_node[OF n5 R(3)] by metis
  obtain net6 where tr: "transition ?n5 s ls Transferring Active = (net6, True)"
    "ring_state env U R ((?st(j := Active))(s := Active)) (\<lambda>_. None) net6"
    using ring_state_transition[OF n5 R(3) _ _ _ ls, of Transferring Active] neq by (auto simp: join_states_def)
  have "(?st(j := Active))(s := Active) = (\<lambda>_. Active)" by (auto simp: join_states_def)
  moreover have "fst (VNode_FinishJoin env ?n5 j s False True) = net6"
    using VNode_FinishJoin_fst[OF ls] ls tr(1) by (simp add: FinishJoin_def)
  ultimately show ?thesis using tr(2) by (simp add: finish_join_def ring_core_def)
qed

lemma kvs_finish_join [simp]: "kvs (finish_join env j p s net) = kvs net"
  by (simp add: finish_join_def Let_def)

lemma retries_const:
  assumes "retries retrier" "f s = (s, Inl e)" "0 < n"
  shows "retrier n retryIf f s = (s, Inl e)"
  using assms(3)
proof (induction n)
  case (Suc n)
  then show ?case using assms(1,2) by (cases "n = 0") (simp_all add: retries_def)
qed simp

text \<open>Lookups cannot fail when the fingers name members and the hop budget covers the ring.\<close>

definition lookups_work :: "chord_env \<Rightarrow> u64 set \<Rightarrow> 'kv chord_net \<Rightarrow> bool" where
  "lookups_work env R net \<longleftrightarrow> fingers_live R net \<and> card R \<le> env_hops env \<and> 2 \<le> env_hops env"

lemma lookups_work_Inr:
  assumes core: "ring_core env U R net" and work: "lookups_work env R net" and m: "m \<in> R" and key: "on_ring key"
  shows "FindSuccessor env net (env_hops env) m key \<noteq> Inl e"
  using lookup_terminates[OF ring_core_member_ok[OF core] _ key m, of "env_hops env" env]
    card_ahead[OF ring_coreD(1)[OF core] m ring_coreD(5)[OF core m], of key] work
  by (auto simp: lookups_work_def)

context kv_provider
begin

lemma accept_join_ok:
  assumes core: "ring_core env U R net" and holds: "ring_holds hash abs inv R net st"
    and hash: "\<And>k. on_ring (hash k)" and jU: "j \<notin> U" "on_ring j" and own: "is_owner R j s"
    and s: "net_nodes net s = Some ls"
    and j: "net_nodes net j = Some lj" "ln_ID lj = j" "Get (ln_state lj) = Joining" "ln_surrogate lj = None"
      "ln_fingers lj = (\<lambda>_. None)" "inv (ln_kv lj)" "\<And>k. abs (ln_kv lj) k = no_entry"
  obtains p lj2 net2 where "accept_join env kv s j ls net = (net2, Inr (p, MakeSuccList s (ln_successors ls)))"
    "new_member R p j s" "net_nodes net2 j = Some lj2"
    "ring_state env (insert j U) (insert j R) (join_states j s) ((\<lambda>_. None)(p := Some s))
       (set_node net2 j (adopted env p (MakeSuccList s (ln_successors ls)) lj2))"
    "ring_holds hash abs inv (insert j R) net2 st"
proof -
  have sR: "s \<in> R" using own by (simp add: is_owner_def)
  have jR: "j \<notin> R" using jU ring_coreD(3)[OF core] by blast
  obtain p where p: "ln_predecessor ls = Some p" "adjacent R p s" "ln_ID ls = s" "Get (ln_state ls) = Active"
    using ring_core_node[OF core sR] s by (metis option.inject)
  have new: "new_member R p j s"
    using p(2) own jU jR ring_coreD(5)[OF core] by (auto simp: new_member_def)
  note D = new_memberD[OF new]
  obtain st' where tr: "transition net s ls Active Transferring = (set_node net s (ls\<lparr>ln_state := st'\<rparr>), True)"
    "Get st' = Transferring" using transition_ok[OF p(4), of Transferring net s] by auto
  let ?net1 = "set_node net s (ls\<lparr>ln_state := st'\<rparr>)"
  have kvs_s: "inv (ln_kv ls)" "\<And>k. abs (ln_kv ls) k = (if is_owner R (hash k) s then st k else no_entry)"
    using holds sR s by (auto simp: ring_holds_def)
  have s1: "net_nodes ?net1 s = Some (ls\<lparr>ln_state := st'\<rparr>)" "ln_kv (ls\<lparr>ln_state := st'\<rparr>) = ln_kv ls"
    and j1: "net_nodes ?net1 j = Some lj" using j(1) D(12) by auto
  obtain kj ks where tf: "transferKeysUpward env kv ?net1 s ls (Some p) j =
      (set_node (set_node ?net1 j (lj\<lparr>ln_kv := kj\<rparr>)) s (ls\<lparr>ln_state := st', ln_kv := ks\<rparr>), Inr ())"
    "inv kj" "inv ks" "\<And>k. abs kj k = (if is_owner (insert j R) (hash k) j then st k else no_entry)"
    "\<And>k. abs ks k = (if is_owner (insert j R) (hash k) s then st k else no_entry)"
    by (rule transfer_up[OF new hash s1 p(3) kvs_s j1 j(3) j(6,7)]) (assumption | rule that)+
  let ?ls = "ls\<lparr>ln_state := st', ln_kv := ks, ln_surrogate := Some j, ln_predecessor := Some j\<rparr>"
  let ?net2 = "set_node (set_node ?net1 j (lj\<lparr>ln_kv := kj\<rparr>)) s ?ls"
  have acc: "accept_join env kv s j ls net = (?net2, Inr (p, MakeSuccList s (ln_successors ls)))"
    using tr(1) p tf(1) new_member_between[OF new] by (simp add: accept_join_def)
  have "ring_state env (insert j U) (insert j R) (join_states j s) ((\<lambda>_. None)(p := Some s))
      (set_node ?net2 j (adopted env p (MakeSuccList s (ln_successors ls)) (lj\<lparr>ln_kv := kj\<rparr>)))"
    by (rule ring_state_joined[OF core new jU(1) s, where lj = "lj\<lparr>ln_kv := kj\<rparr>" and st' = st' and ks = ks])
      (use j tr(2) D(12) in auto)
  moreover have "ring_holds hash abs inv (insert j R) ?net2 st"
    unfolding ring_holds_kvs
  proof (intro ballI allI impI)
    fix m kv assume m: "m \<in> insert j R" "kvs ?net2 m = Some kv"
    consider "m = j" "kv = kj" | "m = s" "kv = ks" | "m \<in> R" "m \<noteq> s" "m \<noteq> j" "kvs net m = Some kv"
      using m D(12) by (auto simp: kvs_set_node split: if_splits)
    then show "inv kv \<and> (\<forall>k. abs kv k = (if is_owner (insert j R) (hash k) m then st k else no_entry))"
    proof cases
      case 3
      obtain q where "adjacent R q m" using ring_core_node[OF core 3(1)] by metis
      then have "is_owner (insert j R) (hash k) m = is_owner R (hash k) m" for k
        using new_member_owner_other[OF new hash _ 3(2)] by blast
      then show ?thesis using holds 3 by (auto simp: ring_holds_kvs)
    qed (use tf in auto)
  qed
  ultimately show thesis using that[of ?net2 p] acc new D(12) by simp
qed

text \<open>A request to join either fails in its lookups, with nothing changed, or is accepted by the
  owner of the joiner's identifier.\<close>

lemma RequestToJoin_cases:
  assumes core: "ring_core env U R net" and jU: "j \<notin> U" "on_ring j" and peer: "peer \<in> R"
    and acc: "\<And>s ls. is_owner R j s \<Longrightarrow> net_nodes net s = Some ls \<Longrightarrow>
      \<exists>net' v. accept_join env kv s j ls net = (net', Inr v)"
  obtains e where "RequestToJoin env kv fuel peer j net = (net, Inl e)" "\<not> (lookups_work env R net \<and> 2 \<le> fuel)"
  | s ls where "is_owner R j s" "net_nodes net s = Some ls"
      "RequestToJoin env kv fuel peer j net = accept_join env kv s j ls net"
proof (cases fuel)
  case 0
  then show thesis using that(1) by simp
next
  case (Suc fuel')
  note find = ring_core_lookup[OF core _ jU(2), of _ env "env_hops env"]
  have notin: "is_owner R j s \<Longrightarrow> s \<noteq> j" for s using jU ring_coreD(3)[OF core] by (auto simp: is_owner_def)
  obtain lp where lp: "net_nodes net peer = Some lp" "ln_ID lp = peer" using ring_core_node[OF core peer] by metis
  show thesis
  proof (cases "FindSuccessor env net (env_hops env) peer j")
    case (Inl e)
    then show thesis using that(1) lp Suc lookups_work_Inr[OF core _ peer jU(2)] by auto
  next
    case (Inr s)
    then have own: "is_owner R j s" using find[OF peer] by blast
    then have sR: "s \<in> R" by (simp add: is_owner_def)
    obtain ls where ls: "net_nodes net s = Some ls" "ln_ID ls = s" using ring_core_node[OF core sR] by metis
    show thesis
    proof (cases "s = peer")
      case True
      then show thesis using that(2)[OF own ls(1)] Inr lp Suc ls notin[OF own] by simp
    next
      case False
      have outer: "RequestToJoin env kv fuel peer j net =
          tell env net s (\<lambda>net. let (net', r) = RequestToJoin env kv fuel' s j net in (net', wrapped env r))"
        using Inr lp Suc False notin[OF own] by (simp del: RequestToJoin.simps add: RequestToJoin.simps(2))
      have "(\<exists>e. RequestToJoin env kv fuel' s j net = (net, Inl e) \<and> \<not> (lookups_work env R net \<and> 2 \<le> fuel)) \<or>
          RequestToJoin env kv fuel' s j net = accept_join env kv s j ls net"
      proof (cases fuel')
        case (Suc fuel2)
        show ?thesis
        proof (cases "FindSuccessor env net (env_hops env) s j")
          case (Inr s')
          then have "s' = s" using is_owner_unique[OF find[OF sR] own] ring_coreD(5)[OF core] jU(2) by blast
          then show ?thesis using Inr ls Suc notin[OF own] by simp
        qed (use ls Suc lookups_work_Inr[OF core _ sR jU(2)] in auto)
      qed (use Suc in simp)
      then show thesis
      proof
        assume "\<exists>e. RequestToJoin env kv fuel' s j net = (net, Inl e) \<and> \<not> (lookups_work env R net \<and> 2 \<le> fuel)"
        then show thesis using that(1) outer ls(1) by (auto simp: tell_def)
      next
        assume a: "RequestToJoin env kv fuel' s j net = accept_join env kv s j ls net"
        obtain net' v where "accept_join env kv s j ls net = (net', Inr v)" using acc[OF own ls(1)] by blast
        then have "RequestToJoin env kv fuel peer j net = accept_join env kv s j ls net"
          using outer a ls(1) by (simp add: tell_def)
        then show thesis using that(2)[OF own ls(1)] by blast
      qed
    qed
  qed
qed

text \<open>The whole join.\<close>

lemma Join_cases:
  assumes core: "ring_core env U R net" and holds: "ring_holds hash abs inv R net st"
    and hash: "\<And>k. on_ring (hash k)" and jU: "j \<notin> U" "on_ring j" and peer: "peer \<in> R"
    and j: "net_nodes net j = Some lj" "fresh_node abs inv j lj"
    and free: "hash_free env (insert j U)" and retr: "retries retrier"
  obtains (failed) e net' where "Join env kv retrier j peer net = (net', Inl e)" "\<not> lookups_work env R net"
      "ring_core env U R net'" "ring_holds hash abs inv R net' st"
  | (joined) net' where "Join env kv retrier j peer net = (net', Inr ())"
      "ring_core env (insert j U) (insert j R) net'" "ring_holds hash abs inv (insert j R) net' st"
proof -
  have f: "ln_ID lj = j" "Get (ln_state lj) = Inactive" "ln_predecessor lj = None" "ln_surrogate lj = None"
    "ln_fingers lj = (\<lambda>_. None)" "inv (ln_kv lj)" "\<And>k. abs (ln_kv lj) k = no_entry"
    using j(2) by (auto simp: fresh_node_def)
  obtain sj where tr: "transition net j lj Inactive Joining = (set_node net j (lj\<lparr>ln_state := sj\<rparr>), True)"
    "Get sj = Joining" using transition_ok[OF f(2), of Joining net j] by auto
  let ?lj = "lj\<lparr>ln_state := sj\<rparr>" and ?net1 = "set_node net j (lj\<lparr>ln_state := sj\<rparr>)"
  have jR: "j \<notin> R" using jU(1) ring_coreD(3)[OF core] by blast
  have core1: "ring_core env U R ?net1" using core by (simp add: ring_core_def ring_state_frame[OF jU(1)])
  have holds1: "ring_holds hash abs inv R ?net1 st"
    using holds ring_holds_cong[of ?net1 net] kvs_same[OF j(1), of ?lj] by simp
  have j1: "net_nodes ?net1 j = Some ?lj" "ln_ID ?lj = j" "Get (ln_state ?lj) = Joining" "ln_surrogate ?lj = None"
    "ln_fingers ?lj = (\<lambda>_. None)" "inv (ln_kv ?lj)" "\<And>k. abs (ln_kv ?lj) k = no_entry"
    using f tr(2) by auto
  note accept = accept_join_ok[OF core1 holds1 hash jU _ _ j1]
  have acc: "\<exists>net' v. accept_join env kv s j ls ?net1 = (net', Inr v)"
    if "is_owner R j s" "net_nodes ?net1 s = Some ls" for s ls
    by (rule accept[OF that]) blast
  have jp: "peer \<noteq> j" and pn: "\<exists>lp. net_nodes ?net1 peer = Some lp"
    using peer jR ring_core_node[OF core1 peer] by metis+
  let ?f = "\<lambda>net. RemoteNode_RequestToJoin env kv (env_hops env) net peer j"
  have remote: "?f ?net1 = (net', mapped env (wrapped env r))"
    if "RequestToJoin env kv (env_hops env) peer j ?net1 = (net', r)" for net' r
    using that pn by (auto simp: RemoteNode_RequestToJoin_def tell_def Server_RequestToJoin_def)
  have live1: "lookups_work env R ?net1 = lookups_work env R net"
    using jR by (auto simp: lookups_work_def fingers_live_def split: option.splits)
  consider e where "RequestToJoin env kv (env_hops env) peer j ?net1 = (?net1, Inl e)" "\<not> lookups_work env R net"
    | s ls where "is_owner R j s" "net_nodes ?net1 s = Some ls"
        "RequestToJoin env kv (env_hops env) peer j ?net1 = accept_join env kv s j ls ?net1"
    by (rule RequestToJoin_cases[OF core1 jU peer, where fuel = "env_hops env"])
      (use acc live1 lookups_work_def in blast)+
  then show thesis
  proof cases
    case (1 e)
    then have "?f ?net1 = (?net1, Inl (ErrorMapper (env_twirp_text env) (env_wire env (WrapError (env_twirp_text env) e))))"
      using remote by simp
    then obtain e' where "executeJoin env kv retrier j peer ?net1 = (?net1, Inl e')"
      unfolding executeJoin_def using retries_const[OF retr] by (simp add: maxAttempts_def)
    then have "Join env kv retrier j peer net = (set_state ?net1 j Inactive, Inl e')"
      using j(1) tr(1) by (simp add: Join_def)
    moreover have "ring_core env U R (set_state ?net1 j Inactive)"
      using core1 by (simp add: ring_core_def set_state_def ring_state_frame[OF jU(1)])
    moreover have "ring_holds hash abs inv R (set_state ?net1 j Inactive) st"
      using holds1 ring_holds_cong[of "set_state ?net1 j Inactive" ?net1] by simp
    ultimately show thesis using failed 1(2) by blast
  next
    case (2 s ls)
    let ?sl = "MakeSuccList s (ln_successors ls)"
    obtain p lj2 net2 where a: "accept_join env kv s j ls ?net1 = (net2, Inr (p, ?sl))"
      "new_member R p j s" "net_nodes net2 j = Some lj2"
      "ring_state env (insert j U) (insert j R) (join_states j s) ((\<lambda>_. None)(p := Some s))
         (set_node net2 j (adopted env p ?sl lj2))"
      "ring_holds hash abs inv (insert j R) net2 st"
      by (rule accept[OF 2(1,2)]) (assumption | rule that)+
    note D = new_memberD[OF a(2)]
    have "?f ?net1 = (net2, Inr (p, ?sl))" using remote 2(3) a(1) by simp
    then have "executeJoin env kv retrier j peer ?net1 = (net2, Inr (p, ?sl))"
      unfolding executeJoin_def by (intro retries_first[OF retr]) (simp_all add: maxAttempts_def)
    then have run: "Join env kv retrier j peer net =
        (finish_join env j p s (set_node net2 j (adopted env p ?sl lj2)), Inr ())"
      using j(1) tr(1) a(3) by (simp add: Join_def finish_join_def adopted_def Let_def)
    moreover have "ring_core env (insert j U) (insert j R)
        (finish_join env j p s (set_node net2 j (adopted env p ?sl lj2)))"
      by (rule finish_join_core[OF a(4) new_member_pred[OF a(2)] new_member_succ[OF a(2)]
            new_member_between[OF a(2)] D(11,12) free])
    moreover have "ring_holds hash abs inv (insert j R)
        (finish_join env j p s (set_node net2 j (adopted env p ?sl lj2))) st"
      using a(5) ring_holds_cong[of "set_node net2 j (adopted env p ?sl lj2)" net2]
        kvs_same[OF a(3), of "adopted env p ?sl lj2"]
        ring_holds_cong[of "finish_join env j p s (set_node net2 j (adopted env p ?sl lj2))"]
      by (simp add: adopted_def)
    ultimately show thesis by (rule joined)
  qed
qed

end

end
