(* ===== verification/Chord_Leave.thy ===== *)
theory Chord_Leave
  imports Chord_Join
begin

text \<open>
  A node leaves a ring at rest. It takes the leave locks, hands its keys to its successor and
  departs; when its predecessor next stabilizes, the ring without the node is at rest again and
  its store is what it was.
\<close>

definition leave_states :: "u64 \<Rightarrow> u64 \<Rightarrow> u64 \<Rightarrow> State" where
  "leave_states n s = (\<lambda>_. Active)(n := Leaving, s := Transferring)"

lemma VNode_RequestToLeave_ok:
  assumes "ring_state env U R states stale net" "s \<in> R" "states s = Active"
  obtains net' where "VNode_RequestToLeave env net n s = (net', Inr ())"
    "ring_state env U R (states(s := Transferring)) stale net'" "kvs net' = kvs net"
proof -
  obtain ls where ls: "net_nodes net s = Some ls" using ring_state_node[OF assms(1,2)] by metis
  obtain net' where tr: "transition net s ls Active Transferring = (net', True)"
    "ring_state env U R (states(s := Transferring)) stale net'"
    using ring_state_transition[OF assms(1,2,3) _ _ ls, of Transferring] by auto
  have "kvs net' = kvs net" using kvs_transition[OF ls, of Active Transferring] tr(1) by simp
  moreover have "VNode_RequestToLeave env net n s = (net', Inr ())"
    using ls tr(1) by (auto simp: VNode_RequestToLeave_def RemoteNode_RequestToLeave_def tell_def
        Server_RequestToLeave_def RequestToLeave_def)
  ultimately show thesis using that tr(2) by blast
qed

lemma leave_locks_ok:
  assumes core: "ring_core env U R net" and old: "old_member R p n s" and ln: "net_nodes net n = Some ln"
  obtains net' where "leave_locks env n ln s net = (net', Inr ())"
    "ring_state env U R (leave_states n s) (\<lambda>_. None) net'" "kvs net' = kvs net"
proof -
  note D = old_memberD[OF old]
  note state = core[unfolded ring_core_def]
  have id: "ln_ID ln = n" using ring_core_node[OF core D(10)] ln by (metis option.inject)
  show thesis
  proof (cases "n > s")
    case True
    obtain net1 where n1: "VNode_RequestToLeave env net n s = (net1, Inr ())"
      "ring_state env U R ((\<lambda>_. Active)(s := Transferring)) (\<lambda>_. None) net1" "kvs net1 = kvs net"
      using VNode_RequestToLeave_ok[OF state D(11)] by blast
    obtain ln1 where ln1: "net_nodes net1 n = Some ln1" using ring_state_node[OF n1(2) D(10)] by metis
    obtain net2 where tr: "transition net1 n ln1 Active Leaving = (net2, True)"
      "ring_state env U R ((\<lambda>_. Active)(s := Transferring, n := Leaving)) (\<lambda>_. None) net2"
      using ring_state_transition[OF n1(2) D(10) _ _ _ ln1, of Active Leaving] D(12) by auto
    have "kvs net2 = kvs net" using kvs_transition[OF ln1, of Active Leaving] tr(1) n1(3) by simp
    moreover have "(\<lambda>_. Active)(s := Transferring, n := Leaving) = leave_states n s"
      using D(12) by (auto simp: leave_states_def)
    moreover have "leave_locks env n ln s net = (net2, Inr ())"
      using True id n1(1) ln1 tr(1) by (simp add: leave_locks_def)
    ultimately show thesis using that tr(2) by simp
  next
    case False
    obtain net1 where tr: "transition net n ln Active Leaving = (net1, True)"
      "ring_state env U R ((\<lambda>_. Active)(n := Leaving)) (\<lambda>_. None) net1"
      using ring_state_transition[OF state D(10) _ _ _ ln, of Active Leaving] by auto
    have k1: "kvs net1 = kvs net" using kvs_transition[OF ln, of Active Leaving] tr(1) by simp
    obtain net2 where n2: "VNode_RequestToLeave env net1 n s = (net2, Inr ())"
      "ring_state env U R ((\<lambda>_. Active)(n := Leaving, s := Transferring)) (\<lambda>_. None) net2" "kvs net2 = kvs net1"
      using VNode_RequestToLeave_ok[OF tr(2) D(11)] D(12) by auto
    then have "leave_locks env n ln s net = (net2, Inr ())"
      using False id tr(1) by (simp add: leave_locks_def)
    then show thesis using that n2 k1 by (simp add: leave_states_def)
  qed
qed

text \<open>Changes to a member that its pointers do not see.\<close>

lemma ring_state_kv:
  assumes "ring_state env U R states stale net" "n \<in> R" "net_nodes net n = Some ln"
  shows "ring_state env U R states stale (set_node net n (ln\<lparr>ln_kv := kv\<rparr>))"
proof -
  have "Get (ln_state ln) = states n" "pointers_ok env U R (stale n) n ln"
    using ring_state_node[OF assms(1,2)] assms(3) by (metis option.inject)+
  then show ?thesis
    using ring_state_update[OF assms(1,2), of "stale n" "ln\<lparr>ln_kv := kv\<rparr>"] by (simp add: fun_upd_idem)
qed

lemma ring_state_surrogate:
  assumes "ring_state env U R states stale net" "n \<in> R" "net_nodes net n = Some ln" "states n = Leaving"
  shows "ring_state env U R states stale (set_node net n (ln\<lparr>ln_surrogate := x\<rparr>))"
proof -
  have ln: "Get (ln_state ln) = states n" "pointers_ok env U R (stale n) n ln"
    using ring_state_node[OF assms(1,2)] assms(3) by (metis option.inject)+
  have "pointers_ok env U R (stale n) n (ln\<lparr>ln_surrogate := x\<rparr>)"
    using ln assms(4) by (auto simp: pointers_ok_def getSuccessor_def fingers_within_def departing_def)
  then show ?thesis
    using ring_state_update[OF assms(1,2), of "stale n" "ln\<lparr>ln_surrogate := x\<rparr>"] ln(1) by (simp add: fun_upd_idem)
qed

lemma adopt_list:
  assumes "hash_free env U" "pointers_ok env U R st n ln" "set sl \<subseteq> U" "length sl \<le> ExtendedSuccessorEntries"
  shows "ln_successors (adopt env sl ln) = sl"
  using inj_onD[OF assms(1)[unfolded hash_free_def], of "ln_successors ln" sl] assms(2-4)
  by (auto simp: adopt_def updateSuccessorsList_def pointers_ok_def)

lemma MakeSuccList_second: "s \<noteq> n \<Longrightarrow> \<exists>rest. MakeSuccList n (s # l) = n # s # rest"
  using succ_list_loop_prefix[of "\<lambda>n. n" ExtendedSuccessorEntries "[n, s]" "[s, n]" "map Some l"]
  by (auto simp: MakeSuccList_def MakeSuccListByID_def ExtendedSuccessorEntries_def)

lemma VNode_FinishLeave_fst:
  assumes "net_nodes net n = Some ln"
  shows "fst (VNode_FinishLeave env net caller n stab release) = fst (FinishLeave env n stab release net)"
  using assms
  by (simp add: VNode_FinishLeave_def RemoteNode_FinishLeave_def tell_def Server_FinishLeave_def case_prod_beta)

text \<open>The two closing calls of \<^verbatim>\<open>Leave\<close>. The advisory reaches the predecessor while the leaver still
  answers, so the predecessor refreshes its list but keeps the leaver at the head.\<close>

definition finish_leave :: "chord_env \<Rightarrow> u64 \<Rightarrow> u64 \<Rightarrow> u64 \<Rightarrow> 'kv chord_net \<Rightarrow> 'kv chord_net" where
  "finish_leave env n p s net =
     fst (VNode_FinishLeave env (set_state (fst (VNode_FinishLeave env net n p True False)) n Left) n s False True)"

lemma kvs_finish_leave [simp]: "kvs (finish_leave env n p s net) = kvs net"
  by (simp add: finish_leave_def)

lemma finish_leave_state:
  assumes state: "ring_state env U R (leave_states n s) (\<lambda>_. None) net" and old: "old_member R p n s"
    and free: "hash_free env U"
  shows "ring_state env U R ((\<lambda>_. Active)(n := Left)) (\<lambda>_. None) (finish_leave env n p s net)"
    and "\<exists>lp rest. net_nodes (finish_leave env n p s net) p = Some lp \<and> ln_successors lp = n # s # rest"
proof -
  note D = old_memberD[OF old]
  let ?st = "leave_states n s"
  have up: "answers (?st m)" "?st p \<noteq> Leaving" for m using D(8) by (auto simp: leave_states_def)
  obtain lp sp lsp lp' where s1: "net_nodes net p = Some lp" "adjacent R p sp" "net_nodes net sp = Some lsp"
    "lp' = (adopt env (MakeSuccList sp (ln_successors lsp)) lp)\<lparr>ln_lastStabilized := net_now net\<rparr>"
    "stabilize env p net = (set_node net p lp', Inr ())" "ring_state env U R ?st (\<lambda>_. None) (set_node net p lp')"
    by (rule stabilize_rest[OF state D(9) _ up]) (assumption | rule refl that)+
  have sp: "sp = n" using adjacent_succ_unique[OF D(1) s1(2) D(6)] by blast
  obtain ln t rest where ln: "net_nodes net n = Some ln" "ln_successors ln = t # rest" "adjacent R n t"
    "pointers_ok env U R None n ln" using ring_state_known[OF state D(10)] by metis
  have t: "t = s" using adjacent_succ_unique[OF D(1) ln(3) D(7)] by blast
  have lp: "pointers_ok env U R None p lp" using ring_state_known[OF state D(9)] s1(1) by (metis option.inject)
  have "set (MakeSuccList n (ln_successors ln)) \<subseteq> U"
    using MakeSuccList_props(2)[of n "ln_successors ln"] ln(4) D(10) ring_stateD(3)[OF state]
    by (auto simp: pointers_ok_def)
  then have "ln_successors lp' = MakeSuccList n (s # rest)"
    using adopt_list[OF free lp _ MakeSuccList_props(3)] s1(3,4) sp ln(1,2) t by simp
  then obtain rest' where lp': "ln_successors lp' = n # s # rest'" using MakeSuccList_second[OF D(12)] by metis
  obtain l fs where fx: "net_nodes (set_node net p lp') p = Some l"
    "fixFinger env p (set_node net p lp') = set_node (set_node net p lp') p (l\<lparr>ln_fingers := fs\<rparr>)"
    "ring_state env U R ?st (\<lambda>_. None) (set_node (set_node net p lp') p (l\<lparr>ln_fingers := fs\<rparr>))"
    by (rule fixFinger_state[OF s1(6) D(9)]) (assumption | rule that | simp)+
  let ?n2 = "set_node net p (lp'\<lparr>ln_fingers := fs\<rparr>)"
  have n2: "fst (VNode_FinishLeave env net n p True False) = ?n2" "ring_state env U R ?st (\<lambda>_. None) ?n2"
    using VNode_FinishLeave_fst[OF s1(1)] s1(5) fx by (simp_all add: FinishLeave_def)
  have n3: "ring_state env U R (?st(n := Left)) (\<lambda>_. None) (set_state ?n2 n Left)" (is "ring_state _ _ _ _ _ ?n3")
    using ring_state_set_state[OF n2(2) D(10)] D(12) by (simp add: leave_states_def)
  obtain ls where ls: "net_nodes ?n3 s = Some ls" using ring_state_node[OF n3 D(11)] by metis
  obtain net4 where tr: "transition ?n3 s ls Transferring Active = (net4, True)"
    "ring_state env U R (?st(n := Left, s := Active)) (\<lambda>_. None) net4"
    using ring_state_transition[OF n3 D(11) _ _ _ ls, of Transferring Active] D(12) by (auto simp: leave_states_def)
  have fin: "finish_leave env n p s net = net4"
    using VNode_FinishLeave_fst[OF ls] ls tr(1) n2(1) by (simp add: finish_leave_def FinishLeave_def)
  moreover have "?st(n := Left, s := Active) = (\<lambda>_. Active)(n := Left)" using D(12) by (auto simp: leave_states_def)
  ultimately show "ring_state env U R ((\<lambda>_. Active)(n := Left)) (\<lambda>_. None) (finish_leave env n p s net)"
    using tr(2) by simp
  have l3: "net_nodes ?n3 p = Some (lp'\<lparr>ln_fingers := fs\<rparr>)"
    using ln(1) D(8) by (simp add: set_state_def split: option.splits)
  have "\<exists>lp. net_nodes net4 p = Some lp \<and> ln_successors lp = n # s # rest'"
    using tr(1) l3 lp' ls by (cases "p = s") (auto simp: transition_def case_prod_beta)
  then show "\<exists>lp rest. net_nodes (finish_leave env n p s net) p = Some lp \<and> ln_successors lp = n # s # rest"
    unfolding fin by blast
qed

subsection \<open>A departure that is not noticed yet\<close>

text \<open>
  The ring between \<^verbatim>\<open>Leave\<close> and the next stabilization of the leaver's predecessor: \<open>L\<close> are the members
  that remain. The leaver \<open>n\<close> is gone; its predecessor \<open>p\<close> still has it as its successor, and its
  successor \<open>s\<close> still has it as its predecessor or has dropped it and has none.
\<close>

definition gap_node :: "chord_env \<Rightarrow> u64 set \<Rightarrow> u64 set \<Rightarrow> u64 \<Rightarrow> u64 \<Rightarrow> u64 \<Rightarrow> u64 \<Rightarrow> 'kv LocalNode \<Rightarrow> bool" where
  "gap_node env U R n p s m lm \<longleftrightarrow> Get (ln_state lm) = Active \<and>
     (m = s \<longrightarrow> ln_predecessor lm = None \<or> ln_predecessor lm = Some n) \<and>
     pointers_ok env U R None m (if m = s then lm\<lparr>ln_predecessor := Some n\<rparr> else lm) \<and>
     (m = p \<longrightarrow> (\<exists>rest. ln_successors lm = n # s # rest))"

definition ring_gap :: "chord_env \<Rightarrow> u64 set \<Rightarrow> u64 set \<Rightarrow> u64 \<Rightarrow> u64 \<Rightarrow> u64 \<Rightarrow> 'kv chord_net \<Rightarrow> bool" where
  "ring_gap env U L n p s net \<longleftrightarrow> n \<notin> L \<and> old_member (insert n L) p n s \<and> finite L \<and> insert n L \<subseteq> U \<and>
     (\<forall>u \<in> U. on_ring u) \<and> (\<forall>u \<in> U - L. gone net u) \<and>
     (\<forall>m \<in> L. \<exists>lm. net_nodes net m = Some lm \<and> gap_node env U (insert n L) n p s m lm)"

lemma ring_gapD:
  assumes "ring_gap env U L n p s net"
  shows "n \<notin> L" "old_member (insert n L) p n s" "finite L" "insert n L \<subseteq> U" "u \<in> U \<Longrightarrow> on_ring u"
    "u \<in> U \<Longrightarrow> u \<notin> L \<Longrightarrow> gone net u" "p \<in> L" "s \<in> L" "gone net n"
proof -
  show D: "n \<notin> L" "old_member (insert n L) p n s" "finite L" "insert n L \<subseteq> U" "u \<in> U \<Longrightarrow> on_ring u"
    "u \<in> U \<Longrightarrow> u \<notin> L \<Longrightarrow> gone net u" "gone net n" using assms by (auto simp: ring_gap_def)
  show "p \<in> L" "s \<in> L" using old_memberD(8,9,11,12)[OF D(2)] by auto
qed

lemma ring_gap_node:
  assumes "ring_gap env U L n p s net" "m \<in> L"
  obtains lm t rest where "net_nodes net m = Some lm" "gap_node env U (insert n L) n p s m lm"
    "Get (ln_state lm) = Active" "ln_ID lm = m" "ln_successors lm = t # rest" "adjacent (insert n L) m t"
proof -
  obtain lm where "net_nodes net m = Some lm" "gap_node env U (insert n L) n p s m lm"
    using assms by (auto simp: ring_gap_def)
  then show thesis using that
    by (fastforce simp: gap_node_def pointers_ok_def getSuccessor_def split: if_splits list.splits)
qed

lemma ring_gap_set:
  assumes "ring_gap env U L n p s net" "m \<in> L" "gap_node env U (insert n L) n p s m lm"
  shows "ring_gap env U L n p s (set_node net m lm)"
  using assms gone_set_node[of net _ m lm] by (auto simp: ring_gap_def)

lemma ring_gap_left:
  assumes state: "ring_state env U R ((\<lambda>_. Active)(n := Left)) (\<lambda>_. None) net" and old: "old_member R p n s"
    and lp: "\<exists>lp rest. net_nodes net p = Some lp \<and> ln_successors lp = n # s # rest"
  shows "ring_gap env U (R - {n}) n p s net"
proof -
  note D = old_memberD[OF old]
  have R: "insert n (R - {n}) = R" using D(10) by blast
  obtain ln where "net_nodes net n = Some ln" "Get (ln_state ln) = Left"
    using ring_state_node[OF state D(10)] by (metis fun_upd_same)
  then have gone: "gone net n" by (simp add: gone_def checkNodeState_simps)
  have "\<exists>lm. net_nodes net m = Some lm \<and> gap_node env U R n p s m lm" if m: "m \<in> R - {n}" for m
  proof -
    obtain lm q where lm: "net_nodes net m = Some lm" "Get (ln_state lm) = Active" "pointers_ok env U R None m lm"
      "ln_predecessor lm = Some q" "adjacent R q m"
      using ring_state_known[OF state, of m] m by (metis DiffE fun_upd_other insertCI)
    have q: "q = n" if "m = s" using adjacent_pred_unique[OF D(1) lm(5)] D(7) that by blast
    then have same: "(if m = s then lm\<lparr>ln_predecessor := Some n\<rparr> else lm) = lm" using lm(4) by (cases lm) simp
    have "gap_node env U R n p s m lm" unfolding gap_node_def same using lm(1-4) lp q by auto
    with lm(1) show ?thesis by blast
  qed
  moreover have "gone net u" if "u \<in> U - (R - {n})" for u using that ring_stateD(6)[OF state] gone by blast
  ultimately show ?thesis using ring_stateD[OF state] old unfolding ring_gap_def R by auto
qed

subsection \<open>The predecessor closes the gap\<close>

lemma pointers_ok_unlink:
  assumes old: "old_member R p n s" and m: "m \<in> R" "m \<noteq> n" and ok: "pointers_ok env U R None m lm"
    and active: "Get (ln_state lm) = Active" and id: "ln_ID lm' = ln_ID lm"
    and succ: "getSuccessor lm' = (if m = p then Some s else getSuccessor lm)"
    and pred: "ln_predecessor lm' = (if m = s then Some p else ln_predecessor lm)"
    and surr: "ln_surrogate lm' = (if m = s then (if p = s then None else Some p) else ln_surrogate lm)"
    and list: "ln_succListHash lm' = list_hash env (ln_successors lm')" "set (ln_successors lm') \<subseteq> U"
      "length (ln_successors lm') \<le> ExtendedSuccessorEntries"
    and fs: "ln_fingers lm' = ln_fingers lm"
  shows "pointers_ok env U (R - {n}) None m lm'"
proof -
  note D = old_memberD[OF old]
  obtain t where t: "getSuccessor lm = Some t" "adjacent R m t" using ok by (auto simp: pointers_ok_def)
  obtain q where q: "ln_predecessor lm = Some q" "adjacent R q m"
    "ln_surrogate lm = None \<or> q \<noteq> m \<and> ln_surrogate lm = Some q"
    using ok active by (auto simp: pointers_ok_def departing_def)
  have "adjacent (R - {n}) m (if m = p then s else t)"
    using old_member_closed[OF old] adjacent_kept[OF t(2) m(2)] adjacent_pred_unique[OF D(1) D(6)] t(2) by auto
  moreover have "adjacent (R - {n}) (if m = s then p else q) m"
    using old_member_closed[OF old] adjacent_kept[OF q(2) _ m(2)] adjacent_succ_unique[OF D(1) D(7)] q(2) by auto
  ultimately show ?thesis
    using ok t(1) q(1,3) succ pred surr list fs id
    by (auto simp: pointers_ok_def fingers_within_def split: if_splits)
qed

lemma stabilize_unlink:
  assumes gap: "ring_gap env U L n p s net" and free: "hash_free env U"
  obtains net' where "stabilize env p net = (net', Inr ())" "ring_core env U L net'"
proof -
  let ?R = "insert n L"
  note G = ring_gapD[OF gap] and old = ring_gapD(2)[OF gap]
  note D = old_memberD[OF old]
  have L: "?R - {n} = L" using G(1) by blast
  obtain lp where lp: "net_nodes net p = Some lp" "gap_node env U ?R n p s p lp" "Get (ln_state lp) = Active" "ln_ID lp = p"
    using ring_gap_node[OF gap G(7)] by metis
  obtain rest where rest: "ln_successors lp = n # s # rest" using lp(2) by (auto simp: gap_node_def)
  obtain ls where ls: "net_nodes net s = Some ls" "gap_node env U ?R n p s s ls" "Get (ln_state ls) = Active" "ln_ID ls = s"
    using ring_gap_node[OF gap G(8)] by metis
  have ps: "ln_predecessor ls = None \<or> ln_predecessor ls = Some n" using ls(2) by (simp add: gap_node_def)
  have lpok: "ln_succListHash lp = list_hash env (ln_successors lp)" "set (ln_successors lp) \<subseteq> U"
    "length (ln_successors lp) \<le> ExtendedSuccessorEntries"
    using lp(2) by (auto simp: gap_node_def pointers_ok_def split: if_splits)
  have lsok: "set (ln_successors ls) \<subseteq> U" using ls(2) by (simp add: gap_node_def pointers_ok_def)
  have chk: "checkNodeState lp b = None" "checkNodeState ls b = None" for b
    using lp(3) ls(3) by (simp_all add: checkNodeState_simps)
  let ?sl = "MakeSuccList s (ln_successors ls)"
  have "GetPredecessor env net p s = Inr (ln_predecessor ls)" "GetSuccessors env net p s = Inr (ln_successors ls)"
    using ls(1) chk by (simp_all add: GetPredecessor_Inr GetSuccessors_Inr)
  note head = stabilize_loop_head[OF this, of "rest"]
  have "GetSuccessors env net p n \<noteq> Inr l" for l using G(9) by (auto simp: GetSuccessors_Inr gone_def)
  then have loop: "stabilize_loop env net p (ln_successors lp) = Some ?sl"
    unfolding rest stabilize_loop_skip[OF G(9)] head using ps by (auto split: sum.splits)
  have sl: "set ?sl \<subseteq> U" "length ?sl \<le> ExtendedSuccessorEntries"
    using MakeSuccList_props[of s "ln_successors ls"] lsok G(4,8) by auto
  let ?lp = "adopt env ?sl lp" and ?n1 = "set_node net p (adopt env ?sl lp)"
  have alist: "ln_successors ?lp = ?sl"
    using inj_onD[OF free[unfolded hash_free_def], of "ln_successors lp" ?sl] lpok sl
    by (auto simp: adopt_def updateSuccessorsList_def)
  have ahash: "ln_succListHash ?lp = list_hash env ?sl" by (simp add: adopt_def updateSuccessorsList_def)
  obtain lt where lt: "net_nodes ?n1 s = Some lt" "lt = (if s = p then ?lp else ls)" using ls(1) by auto
  have lt': "checkNodeState lt False = None" "ln_predecessor lt = ln_predecessor ls" "ln_ID lt = s"
    using lt(2) chk ls lp(1,4) by (auto split: if_splits)
  have "gone ?n1 n" using gone_set_node[OF G(9), of p] D(8) by auto
  then have "\<not> is_ok (Ping env ?n1 s n)"
    by (auto simp: Ping_ok gone_def checkNodeState_def split: State.splits if_splits)
  then have "Notify env ?n1 p s p = (set_node ?n1 s (lt\<lparr>ln_surrogate := (if p = s then None else Some p),
      ln_predecessor := Some p\<rparr>), Inr ())" (is "_ = (set_node ?n1 s ?lt, _)")
    using Notify_replace[OF lt(1) lt'(1), of p env p] lt' D(8) ps by auto
  moreover have "hd ?sl = s" using MakeSuccList_props(1) by simp
  moreover obtain lp2 where lp2: "net_nodes (set_node ?n1 s ?lt) p = Some lp2" "lp2 = (if s = p then ?lt else ?lp)"
    by auto
  ultimately have stab: "stabilize env p net =
      (set_node (set_node ?n1 s ?lt) p (lp2\<lparr>ln_lastStabilized := net_now net\<rparr>), Inr ())" (is "_ = (?n2, _)")
    using stabilize_eq[OF lp(1,4) chk(1) loop, of "set_node ?n1 s ?lt" lp2] by simp
  have "\<exists>lm. net_nodes ?n2 m = Some lm \<and> Get (ln_state lm) = Active \<and> pointers_ok env U L None m lm"
    if m: "m \<in> L" for m
  proof -
    obtain lm where lm: "net_nodes net m = Some lm" "Get (ln_state lm) = Active" "gap_node env U ?R n p s m lm"
      using ring_gap_node[OF gap m] by metis
    define lo where "lo = (if m = s then lm\<lparr>ln_predecessor := Some n\<rparr> else lm)"
    have lo: "pointers_ok env U ?R None m lo" "Get (ln_state lo) = Active"
      using lm(2,3) by (auto simp: gap_node_def lo_def)
    have mn: "m \<in> ?R" "m \<noteq> n" using m G(1) by auto
    obtain lm' where lm': "net_nodes ?n2 m = Some lm'" using lm(1) by (cases "m = p"; cases "m = s") auto
    have p: "m = p \<Longrightarrow> lm = lp" and s: "m = s \<Longrightarrow> lm = ls" using lm(1) lp(1) ls(1) by auto
    have same: "Get (ln_state lm') = Active" "ln_ID lm' = ln_ID lo" "ln_fingers lm' = ln_fingers lo"
      "ln_predecessor lm' = (if m = s then Some p else ln_predecessor lo)"
      "ln_surrogate lm' = (if m = s then (if p = s then None else Some p) else ln_surrogate lo)"
      using lm' lm(1,2) p s lt(2) lp2(2) by (auto simp: lo_def split: if_splits)
    have succs: "ln_successors lm' = (if m = p then ?sl else ln_successors lo)"
      "ln_succListHash lm' = (if m = p then list_hash env ?sl else ln_succListHash lo)"
      using lm' lm(1) p s lt(2) lp2(2) alist ahash by (auto simp: lo_def split: if_splits)
    have "getSuccessor lm' = (if m = p then Some s else getSuccessor lo)"
      using succs(1) MakeSuccList_props(1)[of s "ln_successors ls"] by (auto simp: getSuccessor_def)
    moreover have "ln_succListHash lm' = list_hash env (ln_successors lm')" "set (ln_successors lm') \<subseteq> U"
      "length (ln_successors lm') \<le> ExtendedSuccessorEntries"
      using succs sl lo(1) by (auto simp: pointers_ok_def)
    ultimately have "pointers_ok env U (?R - {n}) None m lm'"
      using pointers_ok_unlink[OF old mn lo same(2)] same by blast
    with lm' same(1) show ?thesis unfolding L by blast
  qed
  moreover have "gone ?n2 u" if "u \<in> U - L" for u
    using that G(6-8) by (auto simp: gone_def)
  ultimately have "ring_core env U L ?n2"
    using G(3-5,7) by (auto simp: ring_core_def ring_state_def)
  with stab show thesis by (rule that)
qed

subsection \<open>The whole leave\<close>

context kv_provider
begin

lemma executeLeave_ok:
  assumes core: "ring_core env U R net" and holds: "ring_holds hash abs inv R net st"
    and hash: "\<And>k. on_ring (hash k)" and old: "old_member R p n s"
  obtains net' where "executeLeave env kv n net = (net', Inr (p, s))"
    "ring_state env U R (leave_states n s) (\<lambda>_. None) net'" "ring_holds hash abs inv (R - {n}) net' st"
proof -
  note D = old_memberD[OF old]
  obtain ln q t where ln: "net_nodes net n = Some ln" "ln_ID ln = n" "ln_predecessor ln = Some q" "adjacent R q n"
    "getSuccessor ln = Some t" "adjacent R n t"
  proof -
    obtain ln where "net_nodes net n = Some ln" "pointers_ok env U R None n ln"
      using ring_state_node[OF core[unfolded ring_core_def] D(10)] by metis
    then show thesis using that by (auto simp: pointers_ok_def)
  qed
  have qt: "q = p" "t = s"
    using adjacent_pred_unique[OF D(1) ln(4) D(6)] adjacent_succ_unique[OF D(1) ln(6) D(7)] by blast+
  obtain net1 where l: "leave_locks env n ln s net = (net1, Inr ())"
    "ring_state env U R (leave_states n s) (\<lambda>_. None) net1" "kvs net1 = kvs net"
    by (rule leave_locks_ok[OF core old ln(1)])
  have holds1: "ring_holds hash abs inv R net1 st" using holds ring_holds_cong[OF l(3)] by simp
  obtain ln1 where ln1: "net_nodes net1 n = Some ln1" "ln_ID ln1 = n"
    using ring_state_node[OF l(2) D(10)] by (metis pointers_ok_def)
  obtain ls where ls: "net_nodes net1 s = Some ls" "Get (ln_state ls) = Transferring"
    using ring_state_node[OF l(2) D(11)] by (metis leave_states_def fun_upd_same)
  note H = holds1[unfolded ring_holds_def, rule_format]
  obtain kn ks where tr: "transferKeysDownward env kv net1 n ln1 s =
      (set_node (set_node net1 s (ls\<lparr>ln_kv := ks\<rparr>)) n (ln1\<lparr>ln_kv := kn\<rparr>), Inr ())" "inv ks"
    "\<And>k. abs ks k = (if is_owner (R - {n}) (hash k) s then st k else no_entry)"
    by (rule transfer_down[OF old hash ln1(1) _ _ ls, of st env])
      (use H[OF D(10) ln1(1)] H[OF D(11) ls(1)] in \<open>(blast | rule that; assumption)+\<close>)
  let ?net2 = "set_node (set_node net1 s (ls\<lparr>ln_kv := ks\<rparr>)) n (ln1\<lparr>ln_kv := kn\<rparr>)"
  let ?net3 = "set_node ?net2 n (ln1\<lparr>ln_kv := kn, ln_surrogate := Some n\<rparr>)"
  have "ring_state env U R (leave_states n s) (\<lambda>_. None) ?net2"
    by (intro ring_state_kv l(2) D ls ln1) (use D(12) ln1 in auto)
  then have "ring_state env U R (leave_states n s) (\<lambda>_. None) ?net3"
    using ring_state_surrogate[of env U R "leave_states n s" "\<lambda>_. None" ?net2 n "ln1\<lparr>ln_kv := kn\<rparr>" "Some n"] D(10,12)
    by (simp add: leave_states_def)
  moreover have "ring_holds hash abs inv (R - {n}) ?net3 st"
    unfolding ring_holds_def
  proof (intro ballI allI impI)
    fix m lm assume m: "m \<in> R - {n}" "net_nodes ?net3 m = Some lm"
    obtain t where "adjacent R t m" using ring_state_node[OF l(2), of m] m(1) by blast
    with m show "inv (ln_kv lm) \<and> (\<forall>k. abs (ln_kv lm) k = (if is_owner (R - {n}) (hash k) m then st k else no_entry))"
      using tr(2,3) H[of m lm] old_member_owner_other[OF old hash, of t m] by (cases "m = s") auto
  qed
  moreover have "executeLeave env kv n net = (?net3, Inr (p, s))"
    using ln qt l(1) ln1 tr(1) D(8) by (simp add: executeLeave_def)
  ultimately show thesis using that by blast
qed

lemma Leave_ok:
  assumes core: "ring_core env U R net" and holds: "ring_holds hash abs inv R net st"
    and hash: "\<And>k. on_ring (hash k)" and old: "old_member R p n s"
    and free: "hash_free env U" and retr: "retries retrier"
  shows "ring_state env U R ((\<lambda>_. Active)(n := Left)) (\<lambda>_. None) (Leave env kv retrier n net)"
    and "ring_holds hash abs inv (R - {n}) (Leave env kv retrier n net) st"
    and "\<exists>lp rest. net_nodes (Leave env kv retrier n net) p = Some lp \<and> ln_successors lp = n # s # rest"
proof -
  note D = old_memberD[OF old]
  obtain ln where ln: "net_nodes net n = Some ln" "Get (ln_state ln) = Active" "ln_ID ln = n"
    using ring_core_node[OF core D(10)] by metis
  obtain net1 where n1: "executeLeave env kv n net = (net1, Inr (p, s))"
    "ring_state env U R (leave_states n s) (\<lambda>_. None) net1" "ring_holds hash abs inv (R - {n}) net1 st"
    by (rule executeLeave_ok[OF core holds hash old])
  have eq: "Leave env kv retrier n net = finish_leave env n p s net1"
    using ln retries_first[where f = "executeLeave env kv n", OF retr n1(1)] D(8,12) by (simp add: Leave_def finish_leave_def maxAttempts_def)
  show "ring_state env U R ((\<lambda>_. Active)(n := Left)) (\<lambda>_. None) (Leave env kv retrier n net)"
    "\<exists>lp rest. net_nodes (Leave env kv retrier n net) p = Some lp \<and> ln_successors lp = n # s # rest"
    unfolding eq by (rule finish_leave_state[OF n1(2) old free])+
  show "ring_holds hash abs inv (R - {n}) (Leave env kv retrier n net) st"
    unfolding eq using n1(3) ring_holds_cong[of "finish_leave env n p s net1" net1] by simp
qed

lemma Leave_gap:
  assumes core: "ring_core env U R net" and holds: "ring_holds hash abs inv R net st"
    and hash: "\<And>k. on_ring (hash k)" and old: "old_member R p n s"
    and free: "hash_free env U" and retr: "retries retrier"
  shows "ring_gap env U (R - {n}) n p s (Leave env kv retrier n net)"
  by (rule ring_gap_left[OF Leave_ok(1)[OF assms] old Leave_ok(3)[OF assms]])

lemma Leave_stabilize:
  assumes core: "ring_core env U R net" and holds: "ring_holds hash abs inv R net st"
    and hash: "\<And>k. on_ring (hash k)" and old: "old_member R p n s"
    and free: "hash_free env U" and retr: "retries retrier"
  obtains net' where "stabilize env p (Leave env kv retrier n net) = (net', Inr ())"
    "ring_core env U (R - {n}) net'" "ring_holds hash abs inv (R - {n}) net' st"
proof -
  obtain net' where n': "stabilize env p (Leave env kv retrier n net) = (net', Inr ())"
    "ring_core env U (R - {n}) net'" by (rule stabilize_unlink[OF Leave_gap[OF assms] free])
  have "kvs net' = kvs (Leave env kv retrier n net)"
    using kvs_stabilize[of env p "Leave env kv retrier n net"] n'(1) by simp
  then show thesis using that n' Leave_ok(2)[OF assms] ring_holds_cong by metis
qed

end

end
