(* ===== verification/Chord_Gap.thy ===== *)
theory Chord_Gap
  imports Chord_Leave
begin

text \<open>
  The ring while a departure is not noticed yet: the members that remain serve requests, and the
  maintenance tasks keep the ring in this state until the predecessor of the departed node
  stabilizes.
\<close>

lemma gap_pred:
  assumes gap: "ring_gap env U L n p s net" and m: "m \<in> L" "m \<noteq> s" and lm: "net_nodes net m = Some lm"
  shows "\<exists>q. ln_predecessor lm = Some q \<and> q \<in> L \<and> adjacent (insert n L) q m"
proof -
  note D = old_memberD[OF ring_gapD(2)[OF gap]]
  obtain q where q: "ln_predecessor lm = Some q" "adjacent (insert n L) q m"
    using ring_gap_node[OF gap m(1)] lm m(2) by (auto simp: gap_node_def pointers_ok_def)
  have "q \<noteq> n" using adjacent_succ_unique[OF D(1) _ D(7)] q(2) m(2) by blast
  then show ?thesis using q by (auto simp: adjacent_def)
qed

lemma gap_succ:
  assumes gap: "ring_gap env U L n p s net" and m: "m \<in> L" "m \<noteq> p" and t: "adjacent (insert n L) m t"
  shows "t \<in> L" "t \<noteq> s"
proof -
  note G = ring_gapD[OF gap] and D = old_memberD[OF ring_gapD(2)[OF gap]]
  have "t \<noteq> n" using adjacent_pred_unique[OF D(1) _ D(6)] t m(2) by blast
  then show "t \<in> L" using t by (auto simp: adjacent_def)
  show "t \<noteq> s" using adjacent_pred_unique[OF D(1) _ D(7)] t m(1) G(1) by blast
qed

subsection \<open>Requests\<close>

lemma gap_serving:
  assumes gap: "ring_gap env U L n p s net"
  shows "ring_serving (insert n L) L net"
proof -
  note G = ring_gapD[OF gap] and D = old_memberD[OF ring_gapD(2)[OF gap]]
  let ?R = "insert n L"
  have node: "\<exists>lm. net_nodes net m = Some lm \<and> ln_ID lm = m \<and> Get (ln_state lm) = Active \<and>
      (case ln_predecessor lm of None \<Rightarrow> True | Some p \<Rightarrow> adjacent ?R p m) \<and>
      (case ln_surrogate lm of None \<Rightarrow> True | Some q \<Rightarrow> q \<noteq> m \<and> adjacent ?R q m) \<and>
      (\<exists>t. getSuccessor lm = Some t \<and> adjacent ?R m t) \<and> fingers_within (\<lambda>f. f \<in> U) lm" if m: "m \<in> L" for m
  proof -
    obtain lm where lm: "net_nodes net m = Some lm" "gap_node env U ?R n p s m lm" "Get (ln_state lm) = Active"
      using ring_gap_node[OF gap m] by metis
    have "\<not> departing lm" using lm(3) by (simp add: departing_def)
    then show ?thesis using lm D(7)
      by (auto simp: gap_node_def pointers_ok_def departing_def getSuccessor_def fingers_within_def split: if_splits)
  qed
  have "ring_known ?R net"
    unfolding ring_known_def
  proof (intro conjI ballI)
    fix m assume m: "m \<in> ?R"
    show "gone net m \<or> (case net_nodes net m of None \<Rightarrow> False | Some lm \<Rightarrow> member_ok ?R m lm)"
    proof (cases "m = n")
      case False
      then obtain lm where "net_nodes net m = Some lm" "ln_ID lm = m" "Get (ln_state lm) = Active"
        "case ln_predecessor lm of None \<Rightarrow> True | Some p \<Rightarrow> adjacent ?R p m"
        "\<exists>t. getSuccessor lm = Some t \<and> adjacent ?R m t"
        using node m by blast
      then show ?thesis by (auto simp: member_ok_def checkNodeState_simps)
    qed (simp add: G(9))
  qed (use D(1) in blast)
  moreover have "fingers_known ?R net"
    unfolding fingers_known_def
  proof (intro ballI allI impI)
    fix m lm assume m: "m \<in> ?R" "net_nodes net m = Some lm"
    have known: "f \<in> U \<Longrightarrow> f \<in> ?R \<or> gone net f" for f using G(6) by blast
    show "gone net m \<or> fingers_within (\<lambda>f. f \<in> ?R \<or> gone net f) lm"
    proof (cases "m = n")
      case False
      then have "fingers_within (\<lambda>f. f \<in> U) lm" using node m by fastforce
      then show ?thesis using known by (fastforce simp: fingers_within_def split: option.splits)
    qed (simp add: G(9))
  qed
  moreover have "\<exists>lm. net_nodes net m = Some lm \<and> ln_ID lm = m \<and> Get (ln_state lm) = Active \<and>
      (case ln_predecessor lm of None \<Rightarrow> True | Some p \<Rightarrow> adjacent ?R p m) \<and>
      (case ln_surrogate lm of None \<Rightarrow> True | Some q \<Rightarrow> q \<noteq> m \<and> adjacent ?R q m)" if "m \<in> L" for m
    using node[OF that] by blast
  ultimately show ?thesis unfolding ring_serving_def using G(1,9) by auto
qed

subsection \<open>Tasks\<close>

lemma gap_fingers:
  assumes "gap_node env U R n p s m lm" "finger_step R (ln_fingers lm) fs" "R \<subseteq> U"
  shows "gap_node env U R n p s m (lm\<lparr>ln_fingers := fs\<rparr>)"
  using assms finger_step_within[of R lm fs U]
  by (auto simp: gap_node_def pointers_ok_def getSuccessor_def departing_def fingers_within_def split: if_splits)

lemma gap_fixK:
  assumes gap: "ring_gap env U L n p s net" and m: "m \<in> L"
  shows "ring_gap env U L n p s (fst (fixK env' m k net))"
proof -
  obtain lm where lm: "net_nodes net m = Some lm" "gap_node env U (insert n L) n p s m lm" "ln_ID lm = m"
    using ring_gap_node[OF gap m] by metis
  let ?key = "ModuloSum (ln_ID lm) (push_bit (k - 1) 1)"
  show ?thesis
  proof (cases "FindSuccessor env' net (env_hops env') m ?key")
    case (Inl e)
    then show ?thesis using gap lm(1) by (simp add: fixK_def)
  next
    case (Inr f)
    then have "f \<in> insert n L"
      using ring_serving_lookup[OF gap_serving[OF gap] _ on_ring_ModuloSum Inr] m by (auto simp: is_owner_def)
    then have "finger_step (insert n L) (ln_fingers lm) ((ln_fingers lm)(k \<mapsto> f))" by (auto simp: finger_step_def)
    from ring_gap_set[OF gap m gap_fingers[OF lm(2) this ring_gapD(4)[OF gap]]]
    show ?thesis using gap Inr lm(1) by (auto simp: fixK_def)
  qed
qed

lemma gap_fixFinger:
  assumes "ring_gap env U L n p s net" "m \<in> L"
  shows "ring_gap env U L n p s (fixFinger env' m net)"
proof -
  have "ring_gap env U L n p s (fix_fingers env' m ks net)" for ks
    using assms(1) by (induction ks arbitrary: net) (simp_all add: gap_fixK[OF _ assms(2)])
  then show ?thesis by (simp add: fixFinger_def)
qed

lemma gap_checkPredecessor:
  assumes gap: "ring_gap env U L n p s net" and m: "m \<in> L"
  shows "ring_gap env U L n p s (fst (checkPredecessor env' m net))" "kvs (fst (checkPredecessor env' m net)) = kvs net"
proof -
  obtain lm where lm: "net_nodes net m = Some lm" "gap_node env U (insert n L) n p s m lm" "ln_ID lm = m"
    using ring_gap_node[OF gap m] by metis
  show "kvs (fst (checkPredecessor env' m net)) = kvs net"
    using lm(1) by (auto simp: checkPredecessor_def kvs_same split: option.splits sum.splits)
  show "ring_gap env U L n p s (fst (checkPredecessor env' m net))"
  proof (cases "m = s")
    case True
    then have "gap_node env U (insert n L) n p s m (lm\<lparr>ln_predecessor := None\<rparr>)"
      using lm(2) by (auto simp: gap_node_def)
    from ring_gap_set[OF gap m this] show ?thesis
      using gap lm(1) by (auto simp: checkPredecessor_def split: option.splits sum.splits)
  next
    case False
    obtain q where q: "ln_predecessor lm = Some q" "q \<in> L" using gap_pred[OF gap m False lm(1)] by blast
    obtain lq where "net_nodes net q = Some lq" "Get (ln_state lq) = Active" using ring_gap_node[OF gap q(2)] by metis
    then have "is_ok (Ping env' net m q)" by (simp add: Ping_ok checkNodeState_simps)
    then have "Ping env' net m q = Inr ()" unfolding is_ok_iff by simp
    then show ?thesis using gap lm(1) q(1) by (simp add: checkPredecessor_def)
  qed
qed

lemma gap_stabilize:
  assumes gap: "ring_gap env U L n p s net" and m: "m \<in> L" "m \<noteq> p"
  shows "ring_gap env U L n p s (fst (stabilize env m net))"
proof -
  note D = old_memberD[OF ring_gapD(2)[OF gap]]
  let ?R = "insert n L"
  obtain lm t rest where lm: "net_nodes net m = Some lm" "gap_node env U ?R n p s m lm" "Get (ln_state lm) = Active"
    "ln_ID lm = m" "ln_successors lm = t # rest" "adjacent ?R m t"
    by (rule ring_gap_node[OF gap m(1)])
  note t = gap_succ[OF gap m lm(6)]
  obtain lt where lt: "net_nodes net t = Some lt" "gap_node env U ?R n p s t lt" "Get (ln_state lt) = Active"
    using ring_gap_node[OF gap t(1)] by metis
  obtain q where q: "ln_predecessor lt = Some q" "adjacent ?R q t" using gap_pred[OF gap t lt(1)] by blast
  then have "ln_predecessor lt = Some m" using adjacent_pred_unique[OF D(1) q(2) lm(6)] by simp
  then have st: "fst (stabilize env m net) =
      set_node net m ((adopt env (MakeSuccList t (ln_successors lt)) lm)\<lparr>ln_lastStabilized := net_now net\<rparr>)" (is "_ = set_node net m ?lm")
    using stabilize_keeps[OF lm(1,4) _ lm(5) lt(1), of env] D(1) m(1) lm(3) lt(3) by (simp add: checkNodeState_simps)
  obtain ys where ys: "MakeSuccList t (ln_successors lt) = t # ys" using MakeSuccList_props(1) by blast
  have "set (ln_successors lt) \<subseteq> U" using lt(2) by (auto simp: gap_node_def pointers_ok_def split: if_splits)
  then have sub: "set (t # ys) \<subseteq> U" "length (t # ys) \<le> ExtendedSuccessorEntries"
    using MakeSuccList_props(2,3)[of t "ln_successors lt"] t(1) ring_gapD(4)[OF gap] unfolding ys by auto
  have pre: "adopt env sl (lm\<lparr>ln_predecessor := x\<rparr>) = (adopt env sl lm)\<lparr>ln_predecessor := x\<rparr>" for sl x
    by (simp add: adopt_def updateSuccessorsList_def)
  have "pointers_ok env U ?R None m (if m = s then lm\<lparr>ln_predecessor := Some n\<rparr> else lm)"
    using lm(2) by (simp add: gap_node_def)
  from pointers_ok_adopt[OF this lm(6) sub]
  have "pointers_ok env U ?R None m (if m = s then ?lm\<lparr>ln_predecessor := Some n\<rparr> else ?lm)"
    unfolding ys by (auto simp: pre pointers_ok_def getSuccessor_def fingers_within_def departing_def split: if_splits)
  then have "gap_node env U ?R n p s m ?lm" using lm(2,3) m(2) by (simp add: gap_node_def)
  from ring_gap_set[OF gap m(1) this] show ?thesis unfolding st .
qed

lemma gap_now [simp]: "ring_gap env U L n p s (net\<lparr>net_now := t\<rparr>) = ring_gap env U L n p s net"
  by (simp add: ring_gap_def gone_def)

lemma gap_kv:
  assumes "ring_gap env U L n p s net" "m \<in> L" "net_nodes net m = Some lm"
  shows "ring_gap env U L n p s (set_node net m (lm\<lparr>ln_kv := kv\<rparr>))"
proof -
  have "gap_node env U (insert n L) n p s m lm" using ring_gap_node[OF assms(1,2)] assms(3) by (metis option.inject)
  then have "gap_node env U (insert n L) n p s m (lm\<lparr>ln_kv := kv\<rparr>)"
    by (auto simp: gap_node_def pointers_ok_def getSuccessor_def fingers_within_def departing_def split: if_splits)
  then show ?thesis by (rule ring_gap_set[OF assms(1,2)])
qed

end
