(* ===== verification/Chord_Run.thy ===== *)
theory Chord_Run
  imports Chord_Gap
begin

text \<open>
  Runs of a whole ring: a node creates it, nodes join and leave, the periodic tasks run, clocks
  advance, and clients send requests to any member. Through all of it the ring is at rest after
  each event, or one departure is not noticed yet, and answers as one store does.
\<close>

subsection \<open>Creating a ring\<close>

lemma MakeSuccList_self: "MakeSuccList n [] = [n]" "MakeSuccList n [n] = [n]"
  by (simp_all add: MakeSuccList_def MakeSuccListByID_def ExtendedSuccessorEntries_def)

lemma adjacent_alone: "adjacent {n} n n"
  by (auto simp: adjacent_def Between_def)

lemma Create_ok:
  assumes n: "on_ring n" "net_nodes net n = Some ln" "fresh_node abstr good n ln"
  obtains net' where "Create env n net = (net', Inr ())" "ring_core env {n} {n} net'" "kvs net' = kvs net"
proof -
  have f: "ln_ID ln = n" "Get (ln_state ln) = Inactive" "ln_predecessor ln = None" "ln_surrogate ln = None"
    using n(3) by (auto simp: fresh_node_def)
  obtain sj where tr: "transition net n ln Inactive Joining = (set_node net n (ln\<lparr>ln_state := sj\<rparr>), True)"
    "Get sj = Joining" using transition_ok[OF f(2), of Joining net n] by auto
  let ?l = "ln\<lparr>ln_state := sj, ln_succListHash := list_hash env [n], ln_successors := [n],
      ln_fingers := (\<lambda>i. if 1 \<le> i \<and> i \<le> MaxFingerEntries then Some n else ln_fingers ln i)\<rparr>"
  let ?n1 = "set_node net n ?l"
  have chk: "checkNodeState ?l b = None" for b using tr(2) by (simp add: checkNodeState_simps)
  have "GetPredecessor env ?n1 n n = Inr None" "GetSuccessors env ?n1 n n = Inr [n]"
    using chk f by (simp_all add: GetPredecessor_Inr GetSuccessors_Inr)
  from stabilize_loop_head[OF this, of "[]"]
  have loop: "stabilize_loop env ?n1 n (ln_successors ?l) = Some [n]" by (simp add: MakeSuccList_self)
  have same: "adopt env [n] ?l = ?l" by (simp add: adopt_def)
  let ?l2 = "?l\<lparr>ln_surrogate := None, ln_predecessor := Some n\<rparr>"
  have "Notify env ?n1 n n n = (set_node ?n1 n ?l2, Inr ())"
    using Notify_replace[of ?n1 n ?l n env n] chk f by simp
  then have stab: "stabilize env n ?n1 = (set_node net n (?l2\<lparr>ln_lastStabilized := net_now net\<rparr>), Inr ())" (is "_ = (?n2, _)")
    using stabilize_eq[of ?n1 n ?l env "[n]" "set_node ?n1 n ?l2" ?l2] chk f loop same by simp
  have "ring_state env {n} {n} (\<lambda>_. Joining) (\<lambda>_. None) ?n2"
    using n(1) f tr(2) n(3) adjacent_alone[of n]
    by (auto simp: ring_state_def pointers_ok_def getSuccessor_def fingers_within_def ExtendedSuccessorEntries_def
        fresh_node_def)
  then obtain l fs where fx: "fixFinger env n ?n2 = set_node ?n2 n (l\<lparr>ln_fingers := fs\<rparr>)"
    "ring_state env {n} {n} (\<lambda>_. Joining) (\<lambda>_. None) (set_node ?n2 n (l\<lparr>ln_fingers := fs\<rparr>))"
    by (rule fixFinger_state) ((assumption | rule that)+ | simp)+
  have act: "set_state (fixFinger env n ?n2) n Active = fst (Create env n net)" "snd (Create env n net) = Inr ()"
    using n(2) tr(1) f stab by (simp_all add: Create_def MakeSuccList_self startTasks_def Let_def cong: if_cong)
  have "ring_state env {n} {n} ((\<lambda>_. Joining)(n := Active)) (\<lambda>_. None) (set_state (fixFinger env n ?n2) n Active)"
    using ring_state_set_state[OF fx(2), of n Active] fx(1) by simp
  then have "ring_core env {n} {n} (fst (Create env n net))"
    unfolding act ring_core_def by (auto simp: ring_state_def)
  moreover have "kvs (fst (Create env n net)) = kvs net"
    unfolding act(1)[symmetric] using kvs_same[OF n(2), of "?l2\<lparr>ln_lastStabilized := net_now net\<rparr>"] by simp
  ultimately show thesis using that[of "fst (Create env n net)"] act(2) by (metis prod.collapse)
qed

subsection \<open>Runs\<close>

text \<open>
  \<open>U\<close> are the identifiers used so far and \<open>R\<close> the members; \<open>h\<close> is the history of the requests with
  their answers. Membership changes one at a time: after a node has left, \<open>w\<close> is the predecessor that
  has not noticed yet. Until it stabilizes no node joins or leaves, but requests are made and every
  member runs its tasks.
\<close>

inductive ring_run :: "chord_env \<Rightarrow> 'kv KVProvider \<Rightarrow> 'kv \<Rightarrow> ('kv chord_net, u64 \<times> u64 list) retrier \<Rightarrow>
    ('kv chord_net, u64 \<times> u64) retrier \<Rightarrow> u64 set \<Rightarrow> u64 set \<Rightarrow> u64 option \<Rightarrow> 'kv chord_net \<Rightarrow>
    (kv_cmd \<times> kv_obs) list \<Rightarrow> bool"
  for env P boot rj rl where
  create: "on_ring n \<Longrightarrow> Create env n (set_node \<lparr>net_nodes = (\<lambda>_. None), net_now = t\<rparr> n (NewLocalNode n boot)) = (net', r) \<Longrightarrow>
    ring_run env P boot rj rl {n} {n} None net' []"
| request: "ring_run env P boot rj rl U R w net h \<Longrightarrow> n \<in> R \<Longrightarrow> single_key c \<Longrightarrow>
    kvMiddleware env P UNKNOWN fuel n c net = (net', ob) \<Longrightarrow> ring_run env P boot rj rl U R w net' (h @ [(c, ob)])"
| stabilize: "ring_run env P boot rj rl U R w net h \<Longrightarrow> n \<in> R \<Longrightarrow>
    ring_run env P boot rj rl U R (if w = Some n then None else w) (fst (stabilize env n net)) h"
| fix_finger: "ring_run env P boot rj rl U R w net h \<Longrightarrow> n \<in> R \<Longrightarrow> ring_run env P boot rj rl U R w (fixFinger env n net) h"
| check: "ring_run env P boot rj rl U R w net h \<Longrightarrow> n \<in> R \<Longrightarrow>
    ring_run env P boot rj rl U R w (fst (checkPredecessor env n net)) h"
| clock: "ring_run env P boot rj rl U R w net h \<Longrightarrow> ring_run env P boot rj rl U R w (net\<lparr>net_now := t\<rparr>) h"
| join: "ring_run env P boot rj rl U R None net h \<Longrightarrow> j \<notin> U \<Longrightarrow> on_ring j \<Longrightarrow> peer \<in> R \<Longrightarrow> hash_free env (insert j U) \<Longrightarrow>
    Join env P rj j peer (set_node net j (NewLocalNode j boot)) = (net', Inr v) \<Longrightarrow>
    ring_run env P boot rj rl (insert j U) (insert j R) None net' h"
| join_failed: "ring_run env P boot rj rl U R None net h \<Longrightarrow> j \<notin> U \<Longrightarrow> on_ring j \<Longrightarrow> peer \<in> R \<Longrightarrow> hash_free env (insert j U) \<Longrightarrow>
    Join env P rj j peer (set_node net j (NewLocalNode j boot)) = (net', Inl e) \<Longrightarrow>
    ring_run env P boot rj rl U R None net' h"
| leave: "ring_run env P boot rj rl U R None net h \<Longrightarrow> net_nodes net n = Some ln \<Longrightarrow> n \<in> R \<Longrightarrow> ln_predecessor ln = Some p \<Longrightarrow>
    p \<noteq> n \<Longrightarrow> hash_free env U \<Longrightarrow>
    ring_run env P boot rj rl U (R - {n}) (Some p) (Leave env P rl n net) h"

text \<open>The histories one store allows: every request is answered by the store, or fails without effect.
  What the store may answer is a parameter.\<close>

inductive one_store :: "(store \<Rightarrow> kv_cmd \<Rightarrow> store \<Rightarrow> kv_obs \<Rightarrow> bool) \<Rightarrow> (kv_cmd \<times> kv_obs) list \<Rightarrow> store \<Rightarrow> bool"
  for allows where
  empty: "one_store allows [] (\<lambda>_. no_entry)"
| answered: "one_store allows h st \<Longrightarrow> allows st c st' ob \<Longrightarrow> one_store allows (h @ [(c, ob)]) st'"
| failed: "one_store allows h st \<Longrightarrow> one_store allows (h @ [(c, OError e)]) st"

text \<open>With requests that neither put an empty value or nil nor release with token zero, the history of
  a ring is one of the exact store.\<close>

abbreviation exact_store :: "(bytes \<Rightarrow> u64) \<Rightarrow> store \<Rightarrow> kv_cmd \<Rightarrow> store \<Rightarrow> kv_obs \<Rightarrow> bool" where
  "exact_store hash st c st' ob \<equiv> spec_cmd hash st c = (st', ob)"

lemma one_store_exact:
  "one_store (ring_allows hash) h st \<Longrightarrow> \<forall>(c, ob) \<in> set h. request_ok c \<Longrightarrow> one_store (exact_store hash) h st \<and> no_empty st"
proof (induction rule: one_store.induct)
  case empty
  then show ?case using one_store.empty[of "exact_store hash"] by (simp add: no_empty_def)
next
  case (answered h st c st' ob)
  then have c: "request_ok c" "no_empty st" "one_store (exact_store hash) h st" by auto
  then have "spec_cmd hash st c = (st', ob)" using answered(2) ring_allows_exact by blast
  then show ?case using one_store.answered[OF c(3)] request_no_empty[OF c(1,2), of hash] by simp
next
  case (failed h st c e)
  then show ?case by (simp add: one_store.failed)
qed

lemma fresh_NewLocalNode:
  "good kv \<Longrightarrow> (\<And>k. abstr kv k = no_entry) \<Longrightarrow> fresh_node abstr good j (NewLocalNode j kv)"
  by (simp add: fresh_node_def NewLocalNode_def)

text \<open>The ring between events: at rest, or with one departure that is not noticed.\<close>

definition ring_between :: "chord_env \<Rightarrow> u64 set \<Rightarrow> u64 set \<Rightarrow> u64 option \<Rightarrow> 'kv chord_net \<Rightarrow> bool" where
  "ring_between env U R w net \<longleftrightarrow>
     (case w of None \<Rightarrow> ring_core env U R net | Some p \<Rightarrow> hash_free env U \<and> (\<exists>n s. ring_gap env U R n p s net))"

lemma between_serving: "ring_between env U R w net \<Longrightarrow> \<exists>S. ring_serving S R net"
  using ring_core_serving gap_serving by (fastforce simp: ring_between_def split: option.splits)

lemma between_kv:
  assumes "ring_between env U R w net" "m \<in> R" "net_nodes net m = Some lm"
  shows "ring_between env U R w (set_node net m (lm\<lparr>ln_kv := kv\<rparr>))"
  using assms ring_state_kv[of env U R "\<lambda>_. Active" "\<lambda>_. None" net m lm kv] gap_kv
  by (fastforce simp: ring_between_def ring_core_def split: option.splits)

lemma between_stabilize:
  assumes "ring_between env U R w net" "n \<in> R"
  shows "ring_between env U R (if w = Some n then None else w) (fst (stabilize env n net))"
proof (cases w)
  case None
  then show ?thesis using assms stabilize_core[of env U R net n] by (simp add: ring_between_def)
next
  case (Some p)
  then obtain m s where gap: "ring_gap env U R m p s net" and free: "hash_free env U"
    using assms(1) by (auto simp: ring_between_def)
  show ?thesis
  proof (cases "n = p")
    case True
    show ?thesis by (rule stabilize_unlink[OF gap free]) (use Some True in \<open>simp add: ring_between_def\<close>)
  next
    case False
    then show ?thesis using gap_stabilize[OF gap assms(2)] Some free by (auto simp: ring_between_def)
  qed
qed

lemma between_fixFinger:
  assumes "ring_between env U R w net" "n \<in> R"
  shows "ring_between env U R w (fixFinger env n net)"
  using assms fixFinger_core gap_fixFinger by (fastforce simp: ring_between_def split: option.splits)

lemma between_check:
  assumes "ring_between env U R w net" "n \<in> R"
  shows "ring_between env U R w (fst (checkPredecessor env n net))"
    "kvs (fst (checkPredecessor env n net)) = kvs net"
  using assms checkPredecessor_core[of env U R net n] gap_checkPredecessor[of env U R _ _ _ net n env]
  by (fastforce simp: ring_between_def split: option.splits)+

context kv_provider
begin

lemma Join_step:
  assumes core: "ring_core env U R net" "ring_holds hash abs inv R net st" and on: "\<And>k. on_ring (hash k)"
    and boot: "inv boot" "\<And>k. abs boot k = no_entry" and j: "j \<notin> U" "on_ring j" "peer \<in> R" "hash_free env (insert j U)"
    and retr: "retries rj" and run: "Join env kv rj j peer (set_node net j (NewLocalNode j boot)) = (net', r)"
  shows "case r of
      Inl e \<Rightarrow> ring_core env U R net' \<and> ring_holds hash abs inv R net' st
    | Inr v \<Rightarrow> ring_core env (insert j U) (insert j R) net' \<and> ring_holds hash abs inv (insert j R) net' st"
proof -
  let ?net = "set_node net j (NewLocalNode j boot)"
  have "ring_core env U R ?net" using core(1) by (simp add: ring_core_def ring_state_frame[OF j(1)])
  moreover have "ring_holds hash abs inv R ?net st"
    using core(2) ring_coreD(3)[OF core(1)] j(1) by (auto simp: ring_holds_def)
  ultimately show ?thesis
    by (rule Join_cases[where j = j and peer = peer, OF _ _ on j(1-3) _ fresh_NewLocalNode[of inv boot abs, OF boot] j(4) retr])
      (use run in auto)
qed

lemma Join_works:
  assumes core: "ring_core env U R net" "ring_holds hash abs inv R net st" and on: "\<And>k. on_ring (hash k)"
    and boot: "inv boot" "\<And>k. abs boot k = no_entry" and j: "j \<notin> U" "on_ring j" "peer \<in> R" "hash_free env (insert j U)"
    and retr: "retries rj" and work: "lookups_work env R (set_node net j (NewLocalNode j boot))"
  shows "\<exists>net'. Join env kv rj j peer (set_node net j (NewLocalNode j boot)) = (net', Inr ())"
proof -
  let ?net = "set_node net j (NewLocalNode j boot)"
  have "ring_core env U R ?net" using core(1) by (simp add: ring_core_def ring_state_frame[OF j(1)])
  moreover have "ring_holds hash abs inv R ?net st"
    using core(2) ring_coreD(3)[OF core(1)] j(1) by (auto simp: ring_holds_def)
  ultimately show ?thesis
    by (rule Join_cases[where j = j and peer = peer, OF _ _ on j(1-3) _ fresh_NewLocalNode[of inv boot abs, OF boot] j(4) retr])
      (use work in auto)
qed

lemma Leave_step:
  assumes core: "ring_core env U R net" "ring_holds hash abs inv R net st" and on: "\<And>k. on_ring (hash k)"
    and n: "net_nodes net n = Some ln" "n \<in> R" "ln_predecessor ln = Some p" "p \<noteq> n" and free: "hash_free env U"
    and retr: "retries rl"
  shows "\<exists>s. ring_gap env U (R - {n}) n p s (Leave env kv rl n net)"
    and "ring_holds hash abs inv (R - {n}) (Leave env kv rl n net) st"
proof -
  obtain s where s: "adjacent R n s" "adjacent R p n" using ring_core_node[OF core(1) n(2)] n(1,3) by (metis option.inject)
  then have old: "old_member R p n s" using n(4) ring_coreD(5)[OF core(1)] by (simp add: old_member_def)
  show "\<exists>s. ring_gap env U (R - {n}) n p s (Leave env kv rl n net)" using Leave_gap[OF core on old free retr] by blast
  show "ring_holds hash abs inv (R - {n}) (Leave env kv rl n net) st" by (rule Leave_ok(2)[OF core on old free retr])
qed

lemma Create_step:
  assumes "on_ring n" and boot: "inv boot" "\<And>k. abs boot k = no_entry"
    and run: "Create env n (set_node \<lparr>net_nodes = (\<lambda>_. None), net_now = t\<rparr> n (NewLocalNode n boot)) = (net', r)"
  shows "ring_core env {n} {n} net'" "ring_holds hash abs inv {n} net' (\<lambda>_. no_entry)"
proof -
  let ?net = "set_node \<lparr>net_nodes = (\<lambda>_. None), net_now = t\<rparr> n (NewLocalNode n boot)"
  have "net_nodes ?net n = Some (NewLocalNode n boot)" by simp
  then obtain net'' where c: "Create env n ?net = (net'', Inr ())" "ring_core env {n} {n} net''" "kvs net'' = kvs ?net"
    using Create_ok[OF assms(1) _ fresh_NewLocalNode[of inv boot abs, OF boot]] by blast
  then show "ring_core env {n} {n} net'" "ring_holds hash abs inv {n} net' (\<lambda>_. no_entry)"
    using run boot by (auto simp: ring_holds_kvs kvs_set_node NewLocalNode_def split: if_splits)
qed

lemma request_step:
  assumes "one_store (ring_allows hash) h st" "ring_between env U R w net" "ring_holds hash abs inv R net st" "n \<in> R"
    "single_key c" "hash = Hash (env_xxh3 env)" "twirp_transport (env_wire env)"
    and run: "kvMiddleware env kv UNKNOWN fuel n c net = (net', ob)"
  shows "\<exists>st'. one_store (ring_allows hash) (h @ [(c, ob)]) st' \<and> ring_between env U R w net' \<and> ring_holds hash abs inv R net' st'"
proof -
  obtain S where "ring_serving S R net" using between_serving[OF assms(2)] by blast
  from this assms(3,4,6,5,7) run show ?thesis
  proof (cases rule: request_refines)
    case (1 e)
    then show ?thesis using assms one_store.failed by blast
  next
    case (2 s ls kv' st')
    then show ?thesis using one_store.answered[OF assms(1) 2(4)] between_kv[OF assms(2) 2(1,2)] by blast
  qed
qed

lemma ring_run_refines:
  assumes "ring_run env kv boot rj rl U R w net h"
    and boot: "inv boot" "\<And>k. abs boot k = no_entry"
    and retr: "retries rj" "retries rl" and hash: "hash = Hash (env_xxh3 env)" and wire: "twirp_transport (env_wire env)"
  shows "\<exists>st. one_store (ring_allows hash) h st \<and> ring_between env U R w net \<and> ring_holds hash abs inv R net st"
  using assms(1)
proof induction
  case (create n t net' r)
  then show ?case using Create_step[OF create(1) boot create(2)] one_store.empty by (fastforce simp: ring_between_def)
next
  case (request U R w net h n c fuel net' ob)
  then show ?case using request_step[OF _ _ _ _ _ hash wire] by blast
next
  case (stabilize U R w net h n)
  then show ?case using between_stabilize ring_holds_cong[OF kvs_stabilize] by metis
next
  case (fix_finger U R w net h n)
  then show ?case using between_fixFinger ring_holds_cong[OF kvs_fixFinger] by metis
next
  case (check U R w net h n)
  then show ?case using between_check ring_holds_cong by metis
next
  case (clock U R w net h t)
  moreover have "ring_between env U R w (net\<lparr>net_now := t\<rparr>) = ring_between env U R w net"
    by (simp add: ring_between_def split: option.splits)
  moreover have "kvs (net\<lparr>net_now := t\<rparr>) = kvs net" by (simp add: kvs_def fun_eq_iff)
  ultimately show ?case using ring_holds_cong by metis
next
  case (join U R net h j peer net' v)
  then obtain st where "one_store (ring_allows hash) h st" "ring_core env U R net" "ring_holds hash abs inv R net st"
    by (auto simp: ring_between_def)
  moreover have "on_ring (hash k)" for k unfolding hash by (rule on_ring_Hash)
  ultimately show ?case using Join_step[OF _ _ _ boot join.hyps(2-5) retr(1) join.hyps(6)] by (fastforce simp: ring_between_def)
next
  case (join_failed U R net h j peer net' e)
  then obtain st where "one_store (ring_allows hash) h st" "ring_core env U R net" "ring_holds hash abs inv R net st"
    by (auto simp: ring_between_def)
  moreover have "on_ring (hash k)" for k unfolding hash by (rule on_ring_Hash)
  ultimately show ?case using Join_step[OF _ _ _ boot join_failed.hyps(2-5) retr(1) join_failed.hyps(6)] by (fastforce simp: ring_between_def)
next
  case (leave U R net h n ln p)
  then obtain st where "one_store (ring_allows hash) h st" "ring_core env U R net" "ring_holds hash abs inv R net st"
    by (auto simp: ring_between_def)
  moreover have "on_ring (hash k)" for k unfolding hash by (rule on_ring_Hash)
  ultimately show ?case using Leave_step[OF _ _ _ leave.hyps(2-6) retr(2)] leave.hyps(6) by (fastforce simp: ring_between_def)
qed

end

end
