(* ===== verification/Chord_Repair.thy ===== *)
theory Chord_Repair
  imports Chord_Invariant
begin

text \<open>
  Finger repair converges. In a ring at rest whose fingers may be missing, out of date or name
  departed nodes, \<open>MaxFingerEntries\<close> rounds of \<^verbatim>\<open>fixFinger\<close> at every member make every finger the
  owner of its target: round \<open>j + 1\<close> can rely on the fingers up to \<open>j\<close>.
\<close>

definition exact_finger :: "u64 set \<Rightarrow> 'kv chord_net \<Rightarrow> u64 \<Rightarrow> nat \<Rightarrow> bool" where
  "exact_finger R net n k \<longleftrightarrow>
     (\<exists>ln f. net_nodes net n = Some ln \<and> ln_fingers ln k = Some f \<and> is_owner R (ModuloSum n (push_bit (k - 1) 1)) f)"

definition exact_upto :: "u64 set \<Rightarrow> nat \<Rightarrow> 'kv chord_net \<Rightarrow> bool" where
  "exact_upto R j net \<longleftrightarrow> (\<forall>n \<in> R. \<forall>k \<in> {1..j}. exact_finger R net n k)"

text \<open>A finger was once the owner of its target, so it lies beyond it or is the node itself.\<close>

definition fingers_forward :: "u64 set \<Rightarrow> 'kv chord_net \<Rightarrow> bool" where
  "fingers_forward R net \<longleftrightarrow>
     (\<forall>n \<in> R. \<forall>ln. net_nodes net n = Some ln \<longrightarrow>
        (\<forall>k \<in> {1..MaxFingerEntries}. \<forall>f. ln_fingers ln k = Some f \<longrightarrow> f = n \<or> 2 ^ (k - 1) \<le> cw n f))"

lemma exact_upto_all: "ring_ok R net \<Longrightarrow> exact_upto R MaxFingerEntries net \<Longrightarrow> fingers_exact R net"
  by (fastforce simp: exact_upto_def exact_finger_def fingers_exact_def ring_ok_def split: option.splits)

subsection \<open>Lookups of near keys\<close>

lemma near_hop:
  assumes ok: "ring_ok R net" and fwd: "fingers_forward R net" and ex: "exact_upto R j net" and n: "n \<in> R"
    and ln: "net_nodes net n = Some ln" and key: "on_ring key" and d: "0 < cw n key" "cw n key \<le> 2 ^ j"
    and adj: "adjacent R n s" and h: "h = s \<or> (\<exists>k \<in> {1..MaxFingerEntries}. ln_fingers ln k = Some h)"
    and btw: "Between n h key False" and hr: "on_ring h"
  shows "h \<in> R" "0 < cw h key" "cw h key \<le> 2 ^ j"
proof -
  have ring: "on_ring n" using ok n by (simp add: ring_ok_def)
  have "arc n key = cw n key" using d(1) cw_eq_0[OF ring key] by (auto simp: arc_def)
  then have c: "0 < cw n h" "cw n h < cw n key" using btw Between_cw[of n h key False] ring key hr by auto
  then have "cw n key = cw n h + cw h key" using cw_split[of n h key] ring key hr by simp
  then show "0 < cw h key" "cw h key \<le> 2 ^ j" using c d(2) by linarith+
  show "h \<in> R"
  proof (cases "h = s")
    case True
    then show ?thesis using adj by (simp add: adjacent_def)
  next
    case False
    then obtain k where k: "k \<in> {1..MaxFingerEntries}" "ln_fingers ln k = Some h" using h by blast
    moreover have "h \<noteq> n" using c(1) ring by auto
    ultimately have "2 ^ (k - 1) \<le> cw n h" using fwd n ln unfolding fingers_forward_def by blast
    then have "(2::nat) ^ (k - 1) < 2 ^ j" using c(2) d(2) by linarith
    then have "k \<le> j" using k(1) by simp
    then have "exact_finger R net n k" using ex n k(1) by (simp add: exact_upto_def)
    then show ?thesis using k(2) ln by (auto simp: exact_finger_def is_owner_def)
  qed
qed

lemma lookup_near:
  assumes core: "ring_core env U R net" and fwd: "fingers_forward R net" and ex: "exact_upto R j net"
    and key: "on_ring key"
  shows "n \<in> R \<Longrightarrow> 0 < cw n key \<Longrightarrow> cw n key \<le> 2 ^ j \<Longrightarrow> card (ahead R n key) < hops \<Longrightarrow>
    \<exists>s. FindSuccessor env net hops n key = Inr s \<and> is_owner R key s"
proof (induction hops arbitrary: n)
  case (Suc hops)
  note ok = ring_core_member_ok[OF core] and ring = ring_coreD(5)[OF core]
  from ok Suc.prems(1) key show ?case
  proof (cases rule: FindSuccessor_step[where env = env])
    case (found s)
    then show ?thesis by blast
  next
    case (hop ln s)
    let ?h = "next_hop ln s key"
    have "s \<in> R" using hop(2) by (simp add: adjacent_def)
    moreover have "fingers_within (\<lambda>f. f \<in> U) ln"
      using ring_core_node[OF core Suc.prems(1)] hop(1) by (metis option.inject pointers_ok_def)
    ultimately have "?h \<in> U"
      using hop(3) ring_coreD(3)[OF core] by (auto simp: fingers_within_def split: option.splits)
    then have "on_ring ?h" by (rule ring_coreD(4)[OF core])
    note near = near_hop[OF ok fwd ex Suc.prems(1) hop(1) key Suc.prems(2,3) hop(2,3,4) this]
    have "?h \<in> ahead R n key" using hop near by (simp add: ahead_def)
    then have "ahead R ?h key \<subset> ahead R n key" using ahead_hop(1)[OF ring key Suc.prems(1)] by blast
    then have "card (ahead R ?h key) < card (ahead R n key)"
      by (rule psubset_card_mono[rotated]) (simp add: ahead_def ring_coreD(1)[OF core])
    then have "\<exists>s. FindSuccessor env net hops ?h key = Inr s \<and> is_owner R key s"
      using Suc.IH[OF near] Suc.prems(4) by simp
    moreover obtain ln' where "net_nodes net ?h = Some ln'"
      using ring_core_node[OF core near(1)] by metis
    ultimately show ?thesis using hop(6) lookup_reply_Inr by metis
  qed
qed simp

subsection \<open>Repairing one finger\<close>

text \<open>What every repair keeps: the ring at rest, forward fingers, and the fingers that are exact.\<close>

definition repairs :: "chord_env \<Rightarrow> u64 set \<Rightarrow> u64 set \<Rightarrow> 'kv chord_net \<Rightarrow> 'kv chord_net \<Rightarrow> bool" where
  "repairs env U R net net' \<longleftrightarrow>
     (ring_core env U R net \<and> fingers_forward R net \<longrightarrow>
        ring_core env U R net' \<and> fingers_forward R net' \<and>
        (\<forall>m \<in> R. \<forall>i. exact_finger R net m i \<longrightarrow> exact_finger R net' m i))"

lemma repairs_refl [simp]: "repairs env U R net net"
  by (simp add: repairs_def)

lemma repairs_trans: "repairs env U R a b \<Longrightarrow> repairs env U R b c \<Longrightarrow> repairs env U R a c"
  by (simp add: repairs_def)

lemma repairs_upto: "repairs env U R a b \<Longrightarrow> ring_core env U R a \<Longrightarrow> fingers_forward R a \<Longrightarrow> exact_upto R j a \<Longrightarrow> exact_upto R j b"
  by (simp add: repairs_def exact_upto_def)

lemma repair_one:
  assumes core: "ring_core env U R net" and fwd: "fingers_forward R net" and n: "n \<in> R" and ln: "net_nodes net n = Some ln"
    and k: "k \<in> {1..MaxFingerEntries}" and f: "is_owner R (ModuloSum n (push_bit (k - 1) 1)) f"
  shows "repairs env U R net (set_node net n (ln\<lparr>ln_fingers := (ln_fingers ln)(k \<mapsto> f)\<rparr>))" (is "repairs _ _ _ _ ?net")
proof -
  have fR: "f \<in> R" using f by (simp add: is_owner_def)
  have "finger_step R (ln_fingers ln) ((ln_fingers ln)(k \<mapsto> f))" using fR by (auto simp: finger_step_def)
  moreover have l: "Get (ln_state ln) = Active" "pointers_ok env U R None n ln"
    using ring_core_node[OF core n] ln by (metis option.inject)+
  ultimately have "ring_core env U R ?net"
    using ring_core_update[OF core n, of "ln\<lparr>ln_fingers := (ln_fingers ln)(k \<mapsto> f)\<rparr>"] pointers_ok_fingers[OF l(2)]
      ring_coreD(3)[OF core] by simp
  moreover have "f = n \<or> 2 ^ (k - 1) \<le> cw n f"
    using finger_far(1)[OF ring_coreD(5)[OF core] n _ f] k by (cases "f = n") (auto simp: MaxFingerEntries_def)
  then have "fingers_forward R ?net" using fwd ln by (auto simp: fingers_forward_def)
  moreover have "exact_finger R ?net m i" if "exact_finger R net m i" for m i
    using that f ln by (auto simp: exact_finger_def)
  ultimately show ?thesis by (simp add: repairs_def)
qed

lemma fixK_repairs:
  assumes n: "n \<in> R" and k: "k \<in> {1..MaxFingerEntries}"
  shows "repairs env U R net (fst (fixK env n k net))"
proof (cases "ring_core env U R net \<and> fingers_forward R net")
  case True
  then obtain ln where ln: "net_nodes net n = Some ln" "ln_ID ln = n" using ring_core_node n by metis
  let ?key = "ModuloSum n (push_bit (k - 1) 1)"
  show ?thesis
  proof (cases "FindSuccessor env net (env_hops env) n ?key")
    case (Inr f)
    then have "is_owner R ?key f" using ring_core_lookup[OF conjunct1[OF True] n on_ring_ModuloSum] by blast
    then show ?thesis
      using repair_one[OF _ _ n ln(1) k] True Inr ln by (auto simp: fixK_def)
  qed (use ln in \<open>simp add: fixK_def\<close>)
qed (auto simp: repairs_def)

lemma fixK_exact:
  assumes core: "ring_core env U R net" and fwd: "fingers_forward R net" and ex: "exact_upto R j net"
    and hops: "card R \<le> env_hops env" and n: "n \<in> R" and k: "k \<in> {1..MaxFingerEntries}" "k \<le> Suc j"
  shows "exact_finger R (fst (fixK env n k net)) n k"
proof -
  obtain ln where ln: "net_nodes net n = Some ln" "ln_ID ln = n" using ring_core_node[OF core n] by metis
  let ?key = "ModuloSum n (push_bit (k - 1) 1)"
  note ring = ring_coreD(5)[OF core]
  have "cw n ?key = 2 ^ (k - 1)" using cw_ModuloSum[OF ring[OF n]] k(1) by (auto simp: MaxFingerEntries_def)
  moreover have "(2::nat) ^ (k - 1) \<le> 2 ^ j" using k(2) by (intro power_increasing) auto
  ultimately have "\<exists>s. FindSuccessor env net (env_hops env) n ?key = Inr s \<and> is_owner R ?key s"
    using card_ahead[OF ring_coreD(1)[OF core] n ring[OF n], of ?key] hops
    by (intro lookup_near[OF core fwd ex on_ring_ModuloSum n]) simp_all
  then show ?thesis using ln by (auto simp: fixK_def exact_finger_def)
qed

subsection \<open>Rounds\<close>

lemma fix_fingers_repairs:
  "n \<in> R \<Longrightarrow> set ks \<subseteq> {1..MaxFingerEntries} \<Longrightarrow> repairs env U R net (fix_fingers env n ks net)"
  by (induction ks arbitrary: net) (auto intro: repairs_trans[OF fixK_repairs])

lemma fix_fingers_exact:
  assumes "ring_core env U R net" "fingers_forward R net" "exact_upto R j net" "card R \<le> env_hops env" "n \<in> R"
    "set ks \<subseteq> {1..MaxFingerEntries}" "k \<in> set ks" "k \<le> Suc j"
  shows "exact_finger R (fix_fingers env n ks net) n k"
  using assms
proof (induction ks arbitrary: net)
  case (Cons i ks)
  let ?net = "fst (fixK env n i net)"
  have r: "repairs env U R net ?net" by (rule fixK_repairs) (use Cons.prems in auto)
  then have I: "ring_core env U R ?net" "fingers_forward R ?net" "exact_upto R j ?net"
    using Cons.prems repairs_upto[OF r] by (auto simp: repairs_def)
  show ?case
  proof (cases "k \<in> set ks")
    case True
    then show ?thesis using Cons.IH[OF I] Cons.prems by simp
  next
    case False
    then have "exact_finger R ?net n k" using fixK_exact[OF Cons.prems(1-5), of i] Cons.prems by auto
    moreover have "repairs env U R ?net (fix_fingers env n ks ?net)" by (rule fix_fingers_repairs) (use Cons.prems in auto)
    ultimately show ?thesis using I Cons.prems(5) by (simp add: repairs_def)
  qed
qed simp

fun fix_round :: "chord_env \<Rightarrow> u64 list \<Rightarrow> 'kv chord_net \<Rightarrow> 'kv chord_net" where
  "fix_round env [] net = net"
| "fix_round env (n # ns) net = fix_round env ns (fixFinger env n net)"

lemma fixFinger_repairs: "n \<in> R \<Longrightarrow> repairs env U R net (fixFinger env n net)"
  unfolding fixFinger_def by (rule fix_fingers_repairs) auto

lemma fix_round_repairs: "set ns \<subseteq> R \<Longrightarrow> repairs env U R net (fix_round env ns net)"
  by (induction ns arbitrary: net) (auto intro: repairs_trans[OF fixFinger_repairs])

lemma fix_round_exact:
  assumes "ring_core env U R net" "fingers_forward R net" "exact_upto R j net" "card R \<le> env_hops env"
    "set ns \<subseteq> R" "n \<in> set ns" "k \<in> {1..MaxFingerEntries}" "k \<le> Suc j"
  shows "exact_finger R (fix_round env ns net) n k"
  using assms
proof (induction ns arbitrary: net)
  case (Cons m ns)
  let ?net = "fixFinger env m net"
  have r: "repairs env U R net ?net" by (rule fixFinger_repairs) (use Cons.prems in auto)
  then have I: "ring_core env U R ?net" "fingers_forward R ?net" "exact_upto R j ?net"
    using Cons.prems repairs_upto[OF r] by (auto simp: repairs_def)
  show ?case
  proof (cases "n \<in> set ns")
    case True
    then show ?thesis using Cons.IH[OF I] Cons.prems by simp
  next
    case False
    then have "n = m" using Cons.prems by simp
    then have "exact_finger R ?net n k"
      unfolding fixFinger_def using fix_fingers_exact[OF Cons.prems(1-4), of m "[1..<Suc MaxFingerEntries]" k] Cons.prems
      by (simp add: atLeastLessThanSuc_atLeastAtMost del: upt_Suc)
    moreover have "repairs env U R ?net (fix_round env ns ?net)" by (rule fix_round_repairs) (use Cons.prems in auto)
    ultimately show ?thesis using I \<open>n = m\<close> Cons.prems(5) by (auto simp: repairs_def)
  qed
qed simp

lemma fix_rounds:
  assumes "ring_core env U R net" "fingers_forward R net" "card R \<le> env_hops env" "set ns = R"
  shows "ring_core env U R ((fix_round env ns ^^ j) net) \<and> fingers_forward R ((fix_round env ns ^^ j) net) \<and>
    (j \<le> MaxFingerEntries \<longrightarrow> exact_upto R j ((fix_round env ns ^^ j) net))"
proof (induction j)
  case 0
  then show ?case using assms by (simp add: exact_upto_def)
next
  case (Suc j)
  let ?net = "(fix_round env ns ^^ j) net"
  have "repairs env U R ?net (fix_round env ns ?net)" by (rule fix_round_repairs) (simp add: assms(4))
  moreover have "exact_finger R (fix_round env ns ?net) n k"
    if "Suc j \<le> MaxFingerEntries" "n \<in> R" "k \<in> {1..Suc j}" for n k
    using fix_round_exact[of env U R ?net j ns n k] Suc assms(3,4) that by auto
  ultimately show ?case using Suc by (auto simp: repairs_def exact_upto_def)
qed

end
