(* ===== verification/Chord_Example.thy ===== *)
theory Chord_Example
  imports Chord_Run Chord_Repair
begin

text \<open>
  A concrete environment and a ring of two members, on which the theorems about whole rings are
  instantiated. The hash of the environment is a sum of powers of four: it has no collisions on
  the successor lists of the nodes 1 and 2.
\<close>

definition toy_xxh3 :: "bytes \<Rightarrow> u64" where
  "toy_xxh3 b = foldl (\<lambda>acc c. if c = CHR 0x00 then acc else 4 * acc + of_char c) 0 b"

definition twirp_wire :: "error \<Rightarrow> error" where
  "twirp_wire e = (case e of Twirp c m w \<Rightarrow> Twirp c m None | _ \<Rightarrow> Twirp Internal (err_text (\<lambda>code msg. msg) e) None)"

definition two_env :: chord_env where
  "two_env = \<lparr>env_xxh3 = toy_xxh3, env_wire = twirp_wire, env_twirp_text = (\<lambda>_ m. m),
     env_unreachable = Opaque ''timeout'', env_hops = 8\<rparr>"

lemma two_env_wire: "twirp_transport (env_wire two_env)"
  by (auto simp: twirp_transport_def two_env_def twirp_wire_def split: error.splits)

definition base4 :: "u64 list \<Rightarrow> nat" where
  "base4 l = foldl (\<lambda>acc u. 4 * acc + unat u) 0 l"

lemma small_bytes: "byte_of 0 = CHR 0x00" "byte_of 1 = CHR 0x01" "byte_of 2 = CHR 0x02"
proof -
  have "char_of (0::nat) = CHR 0x00" "char_of (1::nat) = CHR 0x01" "char_of (2::nat) = CHR 0x02"
    by code_simp+
  then show "byte_of 0 = CHR 0x00" "byte_of 1 = CHR 0x01" "byte_of 2 = CHR 0x02"
    by (simp_all add: byte_of_def)
qed

lemma drop_small: "drop_bit (8 * i) (1::u64) = (if i = 0 then 1 else 0)" "drop_bit (8 * i) (2::u64) = (if i = 0 then 2 else 0)"
proof -
  show "drop_bit (8 * i) (1::u64) = (if i = 0 then 1 else 0)" by (cases i) (simp_all add: drop_bit_of_1)
  have "drop_bit (Suc n) (2::u64) = drop_bit n 1" for n by (simp add: drop_bit_Suc)
  moreover have "8 * Suc j = Suc (7 + 8 * j)" for j by simp
  ultimately show "drop_bit (8 * i) (2::u64) = (if i = 0 then 2 else 0)"
    by (cases i) (simp_all only: drop_bit_of_1, simp_all)
qed

lemma be64_small: "u \<in> {1, 2} \<Longrightarrow> be64 u = [CHR 0x00, CHR 0x00, CHR 0x00, CHR 0x00, CHR 0x00, CHR 0x00, CHR 0x00, byte_of u]"
  unfolding be64_def by (elim insertE emptyE; hypsubst; unfold drop_small; simp add: small_bytes)

lemma foldl_be64:
  assumes "u \<in> {1, 2}"
  shows "foldl (\<lambda>acc c. if c = CHR 0x00 then acc else 4 * acc + of_char c) (a :: u64) (be64 u) = 4 * a + u"
  using assms unfolding be64_small[OF assms] by (elim insertE emptyE; hypsubst; simp add: small_bytes)

lemma base4_bound: "set l \<subseteq> {1, 2} \<Longrightarrow> base4 l < 4 ^ length l"
proof (induction l rule: rev_induct)
  case (snoc u l)
  then show ?case by (auto simp: base4_def)
qed (simp add: base4_def)

lemma base4_inj: "set l \<subseteq> {1, 2} \<Longrightarrow> set l' \<subseteq> {1, 2} \<Longrightarrow> base4 l = base4 l' \<Longrightarrow> l = l'"
proof (induction l arbitrary: l' rule: rev_induct)
  case Nil
  then show ?case by (cases l' rule: rev_cases) (auto simp: base4_def)
next
  case (snoc u l)
  then show ?case
  proof (cases l' rule: rev_cases)
    case (snoc l2 u2)
    then have "4 * base4 l + unat u = 4 * base4 l2 + unat u2" using snoc.prems by (simp add: base4_def)
    moreover have "unat u < 4" "unat u2 < 4" using snoc.prems snoc by auto
    ultimately have "base4 l = base4 l2" "unat u = unat u2" by presburger+
    then show ?thesis using snoc snoc.IH[of l2] snoc.prems by (simp add: word_unat_eq_iff)
  qed (auto simp: base4_def)
qed

lemma two_list_hash:
  assumes "set l \<subseteq> {1, 2}"
  shows "list_hash two_env l = of_nat (base4 l)"
proof -
  have "foldl (\<lambda>acc c. if c = CHR 0x00 then acc else 4 * acc + of_char c) (a :: u64) (concat (map be64 l)) =
      foldl (\<lambda>acc u. 4 * acc + u) a l" for a
    using assms by (induction l arbitrary: a) (simp_all add: foldl_be64)
  moreover have "foldl (\<lambda>acc u. 4 * acc + u) (of_nat n) l = of_nat (foldl (\<lambda>acc u. 4 * acc + unat u) n l)" for n
  proof (induction l arbitrary: n)
    case (Cons u l)
    then show ?case using Cons[of "4 * n + unat u"] by simp
  qed simp
  from this[of 0] calculation show ?thesis by (simp add: list_hash_def two_env_def toy_xxh3_def base4_def)
qed

lemma hash_free_mono: "hash_free env U \<Longrightarrow> U' \<subseteq> U \<Longrightarrow> hash_free env U'"
  unfolding hash_free_def by (erule inj_on_subset) auto

lemma two_hash_free: "hash_free two_env {1, 2}"
  unfolding hash_free_def
proof (rule inj_onI)
  fix l l' :: "u64 list"
  assume l: "l \<in> {l. set l \<subseteq> {1, 2} \<and> length l \<le> ExtendedSuccessorEntries}"
    and l': "l' \<in> {l. set l \<subseteq> {1, 2} \<and> length l \<le> ExtendedSuccessorEntries}"
    and eq: "list_hash two_env l = list_hash two_env l'"
  have "base4 x < 256" if "set x \<subseteq> {1, 2}" "length x \<le> 4" for x
    using base4_bound[OF that(1)] power_increasing[OF that(2), of "4::nat"] by simp
  then have "base4 l < 2 ^ 64" "base4 l' < 2 ^ 64" using l l' by (fastforce simp: ExtendedSuccessorEntries_def)+
  then have "base4 l = base4 l'"
    using arg_cong[OF eq, of unat] l l' by (simp add: two_list_hash unsigned_of_nat take_bit_nat_eq_self)
  then show "l = l'" using base4_inj l l' by simp
qed

subsection \<open>A ring of two\<close>

lemma fingers_live_all: "ring_core env R R net \<Longrightarrow> fingers_live R net"
  unfolding fingers_live_def by (auto elim!: ring_core_node simp: pointers_ok_def split: option.splits)

abbreviation "two_hash \<equiv> Hash (env_xxh3 two_env)"

lemma one_ring_lookups: "ring_core two_env {1} {1} net \<Longrightarrow> lookups_work two_env {1} net"
  by (simp add: lookups_work_def fingers_live_all two_env_def)

context kv_provider
begin

lemma one_ring:
  assumes boot: "inv boot" "\<And>k. abs boot k = no_entry"
  shows "\<exists>net. ring_core two_env {1} {1} net \<and> ring_holds hash abs inv {1} net (\<lambda>_. no_entry)"
proof -
  obtain net' r where "Create two_env 1 (set_node \<lparr>net_nodes = (\<lambda>_. None), net_now = 0\<rparr> 1 (NewLocalNode 1 boot)) = (net', r)"
    by fastforce
  from Create_step[OF _ boot this] show ?thesis by (auto simp: on_ring_def)
qed

lemma two_ring:
  assumes boot: "inv boot" "\<And>k. abs boot k = no_entry" and hash: "hash = two_hash"
  shows "\<exists>net. ring_core two_env {1, 2} {1, 2} net \<and> ring_holds hash abs inv {1, 2} net (\<lambda>_. no_entry)"
proof -
  obtain net where net: "ring_core two_env {1} {1} net" "ring_holds hash abs inv {1} net (\<lambda>_. no_entry)"
    using one_ring[OF boot] by blast
  let ?net = "set_node net 2 (NewLocalNode 2 boot)"
  have c: "ring_core two_env {1} {1} ?net" using net(1) by (simp add: ring_core_def ring_state_frame)
  have h: "ring_holds hash abs inv {1} ?net (\<lambda>_. no_entry)" using net(2) by (auto simp: ring_holds_def)
  have on: "on_ring (hash k)" for k unfolding hash by (rule on_ring_Hash)
  have f: "hash_free two_env (insert 2 {1})" using two_hash_free by (simp add: insert_commute)
  show ?thesis
    by (rule Join_cases[OF c h on _ _ _ _ fresh_NewLocalNode[of inv boot abs, OF boot] f retries_retry_Do, of 1])
      (use one_ring_lookups[OF c] in \<open>auto simp: on_ring_def insert_commute\<close>)
qed

end

end
