(* ===== verification/Chord_Theorems.thy ===== *)
theory Chord_Theorems
  imports Chord_Example
begin

text \<open>
  What the membership protocol, the maintenance tasks and the routing of requests guarantee of a
  whole ring, for nodes that keep their keys in the in-memory or in the SQLite store.
\<close>

lemmas mem_boot = mem_inv_WithHashFn mem_abs_WithHashFn[THEN fun_cong]

lemma sq_boot: "sq_inv (Hash x) (sqlite_New (Hash x))" "sq_abs (sqlite_New (Hash x)) k = no_entry"
  using sq_New[of "Hash x"] on_ring_Hash by auto


text \<open>A run of two nodes: node 2 joins node 1, an empty and a non-empty value are put, node 2 leaves,
  node 1 is asked before it notices, and then stabilizes.\<close>

lemma two_run:
  "\<exists>net ob1 ob2 ob3. ring_run two_env MemoryKV_ops (WithHashFn two_hash) retry_Do retry_Do {1, 2} {1} None net
    [(CPut ''key'' (Some []), ob1), (CPut ''other'' (Some ''value''), ob2), (CGet ''other'', ob3)]"
proof -
  let ?run = "ring_run two_env MemoryKV_ops (WithHashFn two_hash) retry_Do retry_Do"
  note rest = memkv.ring_run_refines[OF _ mem_boot retries_retry_Do retries_retry_Do refl two_env_wire]
  obtain net r where "Create two_env 1
      (set_node \<lparr>net_nodes = (\<lambda>_. None), net_now = 0\<rparr> 1 (NewLocalNode 1 (WithHashFn two_hash))) = (net, r)"
    by fastforce
  then have r1: "?run {1} {1} None net []" by (intro ring_run.create) (simp_all add: on_ring_def)
  obtain st where st: "ring_core two_env {1} {1} net" "ring_holds two_hash mem_abs (mem_inv two_hash) {1} net st"
    using rest[OF r1] by (auto simp: ring_between_def)
  have free: "hash_free two_env (insert 2 {1})" using two_hash_free by (simp add: insert_commute)
  have "lookups_work two_env {1} (set_node net 2 (NewLocalNode 2 (WithHashFn two_hash)))"
    by (rule one_ring_lookups) (use st(1) in \<open>simp add: ring_core_def ring_state_frame\<close>)
  from memkv.Join_works[OF st on_ring_Hash mem_boot _ _ _ free retries_retry_Do this] obtain net2 where
    "Join two_env MemoryKV_ops retry_Do 2 1 (set_node net 2 (NewLocalNode 2 (WithHashFn two_hash))) = (net2, Inr ())"
    by (auto simp: on_ring_def)
  then have r2: "?run {2, 1} {2, 1} None net2 []"
    by (rule ring_run.join[OF r1, rotated 4]) (use free in \<open>simp_all add: on_ring_def\<close>)
  obtain net3 ob1 where "kvMiddleware two_env MemoryKV_ops UNKNOWN 8 1 (CPut ''key'' (Some [])) net2 = (net3, ob1)" by fastforce
  from ring_run.request[OF r2 _ _ this] have r3: "?run {2, 1} {2, 1} None net3 [(CPut ''key'' (Some []), ob1)]" by simp
  obtain net4 ob2 where "kvMiddleware two_env MemoryKV_ops UNKNOWN 8 1 (CPut ''other'' (Some ''value'')) net3 = (net4, ob2)" by fastforce
  from ring_run.request[OF r3 _ _ this]
  have r4: "?run {2, 1} {2, 1} None net4 [(CPut ''key'' (Some []), ob1), (CPut ''other'' (Some ''value''), ob2)]" by simp
  have core: "ring_core two_env {2, 1} {2, 1} net4" using rest[OF r4] by (auto simp: ring_between_def)
  obtain ln p where ln: "net_nodes net4 2 = Some ln" "ln_predecessor ln = Some p" "adjacent {2, 1} p 2"
    using ring_core_node[OF core, of 2] by (metis insertCI)
  then have p: "p = 1" by (auto simp: adjacent_def Between_def)
  have "{2, 1} - {2} = {1 :: u64}" by auto
  then have r5: "?run {2, 1} {1} (Some 1) (Leave two_env MemoryKV_ops retry_Do 2 net4)
      [(CPut ''key'' (Some []), ob1), (CPut ''other'' (Some ''value''), ob2)]"
    using ring_run.leave[OF r4 ln(1) _ ln(2)] p free by simp
  obtain net6 ob3 where "kvMiddleware two_env MemoryKV_ops UNKNOWN 8 1 (CGet ''other'')
      (Leave two_env MemoryKV_ops retry_Do 2 net4) = (net6, ob3)" by fastforce
  from ring_run.request[OF r5 _ _ this]
  have "?run {2, 1} {1} (Some 1) net6
      [(CPut ''key'' (Some []), ob1), (CPut ''other'' (Some ''value''), ob2), (CGet ''other'', ob3)]" by simp
  from ring_run.stabilize[OF this, of 1] show ?thesis by (auto simp: insert_commute)
qed


text \<open>C2: a node joins. A fresh node with an empty SQLite store asks any member of a ring at rest to
  join; the hash of successor lists has no collisions on the identifiers used. If \<^verbatim>\<open>Join\<close> succeeds, the
  node is a member of a ring at rest, holds the keys it now owns, and the ring's store is what it was;
  if it fails, the ring and its store are what they were. It succeeds when the fingers of the members
  name members and the hop budget covers the ring.\<close>

theorem Join_correct:
  assumes "ring_core env U R net" "ring_holds (Hash (env_xxh3 env)) sq_abs (sq_inv (Hash (env_xxh3 env))) R net st"
    and "j \<notin> U" "on_ring j" "peer \<in> R"
    and "net_nodes net j = Some (NewLocalNode j (sqlite_New (Hash (env_xxh3 env))))"
    and "hash_free env (insert j U)" "retries retrier"
  shows "(case Join env SqliteKV_ops retrier j peer net of
      (net', Inr _) \<Rightarrow> ring_core env (insert j U) (insert j R) net' \<and>
        ring_holds (Hash (env_xxh3 env)) sq_abs (sq_inv (Hash (env_xxh3 env))) (insert j R) net' st
    | (net', Inl _) \<Rightarrow> ring_core env U R net' \<and>
        ring_holds (Hash (env_xxh3 env)) sq_abs (sq_inv (Hash (env_xxh3 env))) R net' st) \<and>
    (lookups_work env R net \<longrightarrow> is_ok (snd (Join env SqliteKV_ops retrier j peer net)))"
  by (rule sqkv.Join_cases[OF assms(1,2) on_ring_Hash assms(3-6) fresh_NewLocalNode assms(7,8)])
    (use sq_boot in auto)

theorem Join_correct_witness:
  "\<exists>net net'. ring_core two_env {1} {1} net \<and> Join two_env SqliteKV_ops retry_Do 2 1 net = (net', Inr ()) \<and>
    ring_core two_env {1, 2} {1, 2} net'"
proof -
  obtain net where net: "ring_core two_env {1} {1} net"
    "ring_holds two_hash sq_abs (sq_inv two_hash) {1} net (\<lambda>_. no_entry)"
    using sqkv.one_ring[OF sq_boot] by blast
  let ?net = "set_node net 2 (NewLocalNode 2 (sqlite_New two_hash))"
  have c: "ring_core two_env {1} {1} ?net" using net(1) by (simp add: ring_core_def ring_state_frame)
  have h: "ring_holds two_hash sq_abs (sq_inv two_hash) {1} ?net (\<lambda>_. no_entry)" using net(2) by (auto simp: ring_holds_def)
  obtain net' r where j: "Join two_env SqliteKV_ops retry_Do 2 1 ?net = (net', r)" by fastforce
  have "hash_free two_env (insert 2 {1})" using two_hash_free by (simp add: insert_commute)
  from Join_correct[OF c h _ _ _ _ this retries_retry_Do, of 1] j one_ring_lookups[OF c]
  have "is_ok r" "case r of Inr _ \<Rightarrow> ring_core two_env {2, 1} {2, 1} net' | Inl _ \<Rightarrow> True"
    by (auto simp: on_ring_def split: sum.splits)
  then show ?thesis using j c by (cases r) (auto simp: insert_commute)
qed

text \<open>C3: a node leaves. After \<^verbatim>\<open>Leave\<close> of a member of a ring at rest that has another member, and the next
  stabilization of the leaver's predecessor, the ring of the remaining members is at rest and its store
  is what it was. As an idealisation, the hash of successor lists has no collisions on the identifiers
  used.\<close>

theorem Leave_correct:
  assumes "ring_core env U R net" "ring_holds (Hash (env_xxh3 env)) mem_abs (mem_inv (Hash (env_xxh3 env))) R net st"
    and "net_nodes net n = Some ln" "n \<in> R" "ln_predecessor ln = Some p" "p \<noteq> n"
    and "hash_free env U" "retries retrier"
  shows "\<exists>net'. stabilize env p (Leave env MemoryKV_ops retrier n net) = (net', Inr ()) \<and>
    ring_core env U (R - {n}) net' \<and>
    ring_holds (Hash (env_xxh3 env)) mem_abs (mem_inv (Hash (env_xxh3 env))) (R - {n}) net' st"
proof -
  have "\<exists>s. old_member R p n s"
    using ring_core_node[OF assms(1,4)] assms(3,5,6) ring_coreD(5)[OF assms(1)]
    by (metis old_member_def option.inject)
  then show ?thesis
    using memkv.Leave_stabilize[OF assms(1,2) on_ring_Hash _ assms(7,8)] by metis
qed

theorem Leave_correct_witness:
  "\<exists>net net'. ring_core two_env {1, 2} {1, 2} net \<and>
    stabilize two_env 1 (Leave two_env MemoryKV_ops retry_Do 2 net) = (net', Inr ()) \<and>
    ring_core two_env {1, 2} {1} net'"
proof -
  obtain net where net: "ring_core two_env {1, 2} {1, 2} net"
    "ring_holds two_hash mem_abs (mem_inv two_hash) {1, 2} net (\<lambda>_. no_entry)"
    using memkv.two_ring[OF mem_boot refl] by blast
  obtain ln p where ln: "net_nodes net 2 = Some ln" "ln_predecessor ln = Some p" "adjacent {1, 2} p 2"
    using ring_core_node[OF net(1), of 2] by (metis insertCI)
  then have "p = 1" by (auto simp: adjacent_def Between_def)
  moreover have "{1, 2} - {2} = {1 :: u64}" by auto
  ultimately show ?thesis
    using Leave_correct[OF net ln(1) _ ln(2) _ two_hash_free retries_retry_Do] net(1) by auto
qed

text \<open>C30: the advisory to the predecessor comes too early. \<^verbatim>\<open>Leave\<close> asks the predecessor to
  stabilize while the leaver still answers as \<^verbatim>\<open>Leaving\<close>; when \<^verbatim>\<open>Leave\<close> returns, the leaver is gone
  and the predecessor's immediate successor is still the leaver.\<close>

theorem Leave_advisory_too_early:
  assumes "ring_core env U R net" "ring_holds (Hash (env_xxh3 env)) mem_abs (mem_inv (Hash (env_xxh3 env))) R net st"
    and "net_nodes net n = Some ln" "n \<in> R" "ln_predecessor ln = Some p" "p \<noteq> n"
    and "hash_free env U" "retries retrier"
  shows "gone (Leave env MemoryKV_ops retrier n net) n \<and>
    (\<exists>lp. net_nodes (Leave env MemoryKV_ops retrier n net) p = Some lp \<and> getSuccessor lp = Some n)"
proof -
  obtain s where old: "old_member R p n s"
    using ring_core_node[OF assms(1,4)] assms(3,5,6) ring_coreD(5)[OF assms(1)]
    by (metis old_member_def option.inject)
  note L = memkv.Leave_ok[OF assms(1,2) on_ring_Hash old assms(7,8)]
  obtain l where "net_nodes (Leave env MemoryKV_ops retrier n net) n = Some l" "Get (ln_state l) = Left"
    using ring_state_node[OF L(1) assms(4)] by (metis fun_upd_same)
  then show ?thesis using L(3) by (auto simp: gone_def checkNodeState_simps getSuccessor_def)
qed

theorem Leave_advisory_too_early_witness:
  "\<exists>net lp. ring_core two_env {1, 2} {1, 2} net \<and> gone (Leave two_env MemoryKV_ops retry_Do 2 net) 2 \<and>
    net_nodes (Leave two_env MemoryKV_ops retry_Do 2 net) 1 = Some lp \<and> getSuccessor lp = Some 2"
proof -
  obtain net where net: "ring_core two_env {1, 2} {1, 2} net"
    "ring_holds two_hash mem_abs (mem_inv two_hash) {1, 2} net (\<lambda>_. no_entry)"
    using memkv.two_ring[OF mem_boot refl] by blast
  obtain ln p where ln: "net_nodes net 2 = Some ln" "ln_predecessor ln = Some p" "adjacent {1, 2} p 2"
    using ring_core_node[OF net(1), of 2] by (metis insertCI)
  then have "p = 1" by (auto simp: adjacent_def Between_def)
  then show ?thesis
    using Leave_advisory_too_early[OF net ln(1) _ ln(2) _ two_hash_free retries_retry_Do] net(1) by auto
qed

text \<open>C4: requests are answered. In a ring at rest of nodes with SQLite stores, when the fingers name
  members and the hop budget covers the ring, every request on a key at any member is answered by the
  one store the ring implements, and the ring holds that store's next state. On the wire an empty
  value and nil are the same, and a release with token zero may fail (\<open>ring_allows\<close>); when the request
  neither puts an empty value or nil nor releases with token zero, and the store has no empty values,
  the answer and the next state are exactly those of the store.\<close>

theorem requests_answered:
  assumes "ring_core env U R net" "ring_holds (Hash (env_xxh3 env)) sq_abs (sq_inv (Hash (env_xxh3 env))) R net st"
    and "lookups_work env R net" "n \<in> R" "single_key c" "twirp_transport (env_wire env)"
  shows "\<exists>net' ob st'. kvMiddleware env SqliteKV_ops UNKNOWN (env_hops env) n c net = (net', ob) \<and>
    ring_allows (Hash (env_xxh3 env)) st c st' ob \<and>
    (request_ok c \<and> no_empty st \<longrightarrow> spec_cmd (Hash (env_xxh3 env)) st c = (st', ob)) \<and>
    ring_core env U R net' \<and> ring_holds (Hash (env_xxh3 env)) sq_abs (sq_inv (Hash (env_xxh3 env))) R net' st'"
proof -
  obtain fuel where f: "env_hops env = Suc (Suc fuel)"
    using assms(3) by (metis lookups_work_def add_2_eq_Suc le_iff_add)
  have w: "fingers_live R net" "card R \<le> env_hops env" using assms(3) by (auto simp: lookups_work_def)
  obtain net' ob where run: "kvMiddleware env SqliteKV_ops UNKNOWN (Suc (Suc fuel)) n c net = (net', ob)"
    by fastforce
  obtain st' where "ring_core env U R net'" "ring_allows (Hash (env_xxh3 env)) st c st' ob"
    "ring_holds (Hash (env_xxh3 env)) sq_abs (sq_inv (Hash (env_xxh3 env))) R net' st'"
    by (rule sqkv.request_answered[OF assms(1,2,4) refl assms(5,6) w run])
  then show ?thesis using run f ring_allows_exact[of c st "Hash (env_xxh3 env)" st' ob] by auto
qed

theorem requests_answered_witness:
  "\<exists>net net'. ring_core two_env {1, 2} {1, 2} net \<and>
    kvMiddleware two_env SqliteKV_ops UNKNOWN 8 1 (CPrefixAppend ''p'' ''c'') net = (net', ODone) \<and>
    ring_core two_env {1, 2} {1, 2} net'"
proof -
  obtain net where net: "ring_core two_env {1, 2} {1, 2} net"
    "ring_holds two_hash sq_abs (sq_inv two_hash) {1, 2} net (\<lambda>_. no_entry)"
    using sqkv.two_ring[OF sq_boot refl] by blast
  have "lookups_work two_env {1, 2} net"
    using fingers_live_all[OF net(1)] by (simp add: lookups_work_def two_env_def)
  from requests_answered[OF net this _ _ two_env_wire, of 1 "CPrefixAppend ''p'' ''c''"]
  show ?thesis using net(1) by (auto simp: no_empty_def no_entry_def two_env_def)
qed

text \<open>C5: finger repair converges. In a ring at rest whose fingers may be missing or name departed
  nodes beyond their targets, and whose hop budget covers the members, one round of \<^verbatim>\<open>fixFinger\<close> at every
  member per finger makes every finger the owner of its target.\<close>

theorem fingers_converge:
  assumes "ring_core env U R net" "fingers_forward R net" "card R \<le> env_hops env" "set ns = R"
  shows "fingers_exact R ((fix_round env ns ^^ MaxFingerEntries) net)"
  using fix_rounds[OF assms] exact_upto_all[OF ring_core_member_ok] by blast

definition no_fingers :: "'kv chord_net \<Rightarrow> u64 \<Rightarrow> 'kv chord_net" where
  "no_fingers net n = (case net_nodes net n of None \<Rightarrow> net | Some ln \<Rightarrow> set_node net n (ln\<lparr>ln_fingers := (\<lambda>_. None)\<rparr>))"

lemma no_fingers_core:
  assumes "ring_core env U R net" "n \<in> R"
  shows "ring_core env U R (no_fingers net n)"
proof -
  obtain ln where ln: "net_nodes net n = Some ln" "Get (ln_state ln) = Active" "pointers_ok env U R None n ln"
    using ring_core_node[OF assms] by metis
  then have "pointers_ok env U R None n (ln\<lparr>ln_fingers := (\<lambda>_. None)\<rparr>)"
    by (auto simp: pointers_ok_def fingers_within_def getSuccessor_def departing_def)
  then show ?thesis
    using ring_core_update[OF assms, of "ln\<lparr>ln_fingers := (\<lambda>_. None)\<rparr>"] ln by (simp add: no_fingers_def)
qed

theorem fingers_converge_witness:
  "\<exists>net :: MemoryKV chord_net. ring_core two_env {1, 2} {1, 2} net \<and>
    (\<forall>ln. net_nodes net 1 = Some ln \<longrightarrow> ln_fingers ln 5 = None) \<and>
    fingers_exact {1, 2} ((fix_round two_env [1, 2] ^^ MaxFingerEntries) net)"
proof -
  obtain net0 :: "MemoryKV chord_net" where net0: "ring_core two_env {1, 2} {1, 2} net0"
    using memkv.two_ring[OF mem_boot refl] by blast
  let ?net = "no_fingers (no_fingers net0 1) 2"
  have core: "ring_core two_env {1, 2} {1, 2} ?net" using net0 by (intro no_fingers_core) auto
  have none: "\<forall>n \<in> {1, 2}. \<forall>ln. net_nodes ?net n = Some ln \<longrightarrow> ln_fingers ln = (\<lambda>_. None)"
    by (auto simp: no_fingers_def split: option.splits if_splits)
  then have "fingers_forward {1, 2} ?net" by (simp add: fingers_forward_def)
  from fingers_converge[OF core this, of "[1, 2]"]
  have "fingers_exact {1, 2} ((fix_round two_env [1, 2] ^^ MaxFingerEntries) ?net)" by (simp add: two_env_def)
  then show ?thesis using core none by (intro exI[of _ ?net]) simp
qed

end
