(* ===== verification/KV_Lease.thy ===== *)
theory KV_Lease
  imports KV_Memory
begin

text \<open>
  The lease cell of the in-memory provider (\<^verbatim>\<open>kv/memory/lease.go\<close>) under any number of
  interleaved callers. A call is split at its shared-memory accesses: \<^verbatim>\<open>Acquire\<close> and
  \<^verbatim>\<open>Renew\<close> load the cell, then read the clock and decide, then compare-and-swap;
  \<^verbatim>\<open>Release\<close> is one compare-and-swap. A caller renews and releases with the token it holds.
\<close>

datatype lease_pc =
    LIdle
  | LAcquireLoaded int u64
  | LAcquireSwap u64 int u64
  | LRenewLoaded int u64
  | LRenewSwap u64 u64

record lease_sys =
  l_cell :: u64
  l_clock :: int
  l_pc :: "nat \<Rightarrow> lease_pc"
  l_held :: "nat \<Rightarrow> u64"

definition lease_init :: "int \<Rightarrow> lease_sys" where
  "lease_init now = \<lparr>l_cell = 0, l_clock = now, l_pc = (\<lambda>_. LIdle), l_held = (\<lambda>_. 0)\<rparr>"

text \<open>What \<^verbatim>\<open>Acquire\<close> and \<^verbatim>\<open>Renew\<close> decide once they have read the clock.\<close>

definition acquire_decide :: "int \<Rightarrow> int \<Rightarrow> u64 \<Rightarrow> lease_pc" where
  "acquire_decide now td cur =
     (case Next now td 0 of
        Inl _ \<Rightarrow> LIdle
      | Inr nx \<Rightarrow> if cur > word_of_int now then LIdle else LAcquireSwap cur now nx)"

definition renew_decide :: "int \<Rightarrow> int \<Rightarrow> u64 \<Rightarrow> u64 \<Rightarrow> lease_pc" where
  "renew_decide now td prevToken cur =
     (case Next now td prevToken of
        Inl _ \<Rightarrow> LIdle
      | Inr nx \<Rightarrow>
          if cur = 0 then LIdle
          else if now \<ge> sint cur then LIdle
          else if cur \<noteq> prevToken then LIdle
          else LRenewSwap cur nx)"

inductive lease_step :: "lease_sys \<Rightarrow> lease_sys \<Rightarrow> bool" where
  tick: "l_clock s \<le> now \<Longrightarrow> lease_step s (s\<lparr>l_clock := now\<rparr>)"
| acquire_load: "l_pc s t = LIdle \<Longrightarrow> durationGuard ttl = Some td \<Longrightarrow>
     lease_step s (s\<lparr>l_pc := (l_pc s)(t := LAcquireLoaded td (l_cell s))\<rparr>)"
| acquire_check: "l_pc s t = LAcquireLoaded td cur \<Longrightarrow>
     lease_step s (s\<lparr>l_pc := (l_pc s)(t := acquire_decide (l_clock s) td cur)\<rparr>)"
| acquire_swap: "l_pc s t = LAcquireSwap cur ref nx \<Longrightarrow> CompareAndSwap (l_cell s) cur nx = (cell, ok) \<Longrightarrow>
     lease_step s (s\<lparr>l_cell := cell, l_pc := (l_pc s)(t := LIdle),
                     l_held := (if ok then (l_held s)(t := nx) else l_held s)\<rparr>)"
| renew_load: "l_pc s t = LIdle \<Longrightarrow> durationGuard ttl = Some td \<Longrightarrow>
     lease_step s (s\<lparr>l_pc := (l_pc s)(t := LRenewLoaded td (l_cell s))\<rparr>)"
| renew_check: "l_pc s t = LRenewLoaded td cur \<Longrightarrow>
     lease_step s (s\<lparr>l_pc := (l_pc s)(t := renew_decide (l_clock s) td (l_held s t) cur)\<rparr>)"
| renew_swap: "l_pc s t = LRenewSwap cur nx \<Longrightarrow> CompareAndSwap (l_cell s) cur nx = (cell, ok) \<Longrightarrow>
     lease_step s (s\<lparr>l_cell := cell, l_pc := (l_pc s)(t := LIdle),
                     l_held := (if ok then (l_held s)(t := nx) else l_held s)\<rparr>)"
| release: "l_pc s t = LIdle \<Longrightarrow> l_held s t \<noteq> 0 \<Longrightarrow>
     CompareAndSwap (l_cell s) (l_held s t) 0 = (cell, ok) \<Longrightarrow>
     lease_step s (s\<lparr>l_cell := cell, l_held := (l_held s)(t := 0)\<rparr>)"

inductive lease_reachable :: "lease_sys \<Rightarrow> bool" where
  lease_start: "0 \<le> now \<Longrightarrow> lease_reachable (lease_init now)"
| lease_more: "lease_reachable s \<Longrightarrow> lease_step s s' \<Longrightarrow> lease_reachable s'"

text \<open>A caller holds the lease while the token it was given has not expired.\<close>

definition holds :: "lease_sys \<Rightarrow> nat \<Rightarrow> bool" where
  "holds s t \<longleftrightarrow> l_clock s < uint (l_held s t)"

subsection \<open>Invariant\<close>

definition pc_ok :: "int \<Rightarrow> u64 \<Rightarrow> lease_pc \<Rightarrow> bool" where
  "pc_ok clock h pc = (case pc of
     LAcquireSwap cur ref nx \<Rightarrow> uint cur \<le> clock
   | LRenewSwap cur nx \<Rightarrow> cur = h
   | _ \<Rightarrow> True)"

definition lease_inv :: "lease_sys \<Rightarrow> bool" where
  "lease_inv s \<longleftrightarrow> 0 \<le> l_clock s \<and>
     (\<forall>t. pc_ok (l_clock s) (l_held s t) (l_pc s t)) \<and>
     (\<forall>t. holds s t \<longrightarrow> l_held s t = l_cell s) \<and>
     (\<forall>t u. holds s t \<longrightarrow> holds s u \<longrightarrow> t = u)"

lemma acquire_decide_ok: "pc_ok now h (acquire_decide now td cur)"
proof (cases "Next now td 0")
  case (Inr nx)
  then have "0 \<le> now \<and> now \<le> MaxInt64" by (rule Next_range)
  then have "\<not> word_of_int now < cur \<Longrightarrow> uint cur \<le> now" by (simp add: word_less_nanos)
  then show ?thesis using Inr by (simp add: acquire_decide_def pc_ok_def)
qed (simp add: acquire_decide_def pc_ok_def)

lemma renew_decide_ok: "pc_ok now h (renew_decide now td h cur)"
  by (simp add: renew_decide_def pc_ok_def split: sum.split)

lemma pc_ok_mono: "pc_ok c h pc \<Longrightarrow> c \<le> c' \<Longrightarrow> pc_ok c' h pc"
  by (auto simp: pc_ok_def split: lease_pc.splits)

lemma pc_ok_simps [simp]: "pc_ok c h LIdle" "pc_ok c h (LAcquireLoaded td cur)"
  "pc_ok c h (LRenewLoaded td cur)"
  by (simp_all add: pc_ok_def)

lemma lease_inv_pc:
  assumes "lease_inv s" "pc_ok (l_clock s) (l_held s t) pc"
  shows "lease_inv (s\<lparr>l_pc := (l_pc s)(t := pc)\<rparr>)"
  using assms by (auto simp: lease_inv_def holds_def)

text \<open>A winning swap installs the caller's token as the only unexpired one.\<close>

lemma lease_inv_win:
  assumes inv: "lease_inv s" and free: "\<And>u. holds s u \<Longrightarrow> u = t"
  shows "lease_inv (s\<lparr>l_cell := nx, l_pc := (l_pc s)(t := LIdle), l_held := (l_held s)(t := nx)\<rparr>)"
  using assms unfolding lease_inv_def by (auto simp: holds_def)

lemma acquire_free:
  assumes "lease_inv s" "l_pc s t = LAcquireSwap (l_cell s) ref nx"
  shows "\<not> holds s u"
proof
  assume "holds s u"
  moreover have "pc_ok (l_clock s) (l_held s t) (l_pc s t)" using assms(1) by (simp add: lease_inv_def)
  then have "uint (l_cell s) \<le> l_clock s" using assms(2) by (simp add: pc_ok_def)
  ultimately show False using assms(1) by (auto simp: lease_inv_def holds_def)
qed

lemma renew_free:
  assumes "lease_inv s" "l_pc s t = LRenewSwap (l_cell s) nx" "holds s u"
  shows "u = t"
proof -
  have "pc_ok (l_clock s) (l_held s t) (l_pc s t)" using assms(1) by (simp add: lease_inv_def)
  then have "l_held s t = l_cell s" using assms(2) by (simp add: pc_ok_def)
  with assms(1,3) have "holds s t" by (auto simp: lease_inv_def holds_def)
  with assms(1,3) show ?thesis by (simp add: lease_inv_def)
qed

lemma lease_inv_release:
  assumes inv: "lease_inv s" and pc: "l_pc s t = LIdle"
    and c: "CompareAndSwap (l_cell s) (l_held s t) 0 = (cell, ok)"
  shows "lease_inv (s\<lparr>l_cell := cell, l_held := (l_held s)(t := 0)\<rparr>)"
proof -
  have "u = t \<or> cell = l_cell s" if "holds s u" for u
    using that inv c by (auto simp: lease_inv_def holds_def CompareAndSwap_def split: if_splits)
  then show ?thesis
    using inv pc unfolding lease_inv_def by (auto simp: holds_def)
qed

inductive_cases lease_stepE: "lease_step s s'"

lemma lease_inv_step: "lease_step s s' \<Longrightarrow> lease_inv s \<Longrightarrow> lease_inv s'"
proof (induction rule: lease_step.induct)
  case (tick s now)
  then show ?case by (auto simp: lease_inv_def holds_def intro: pc_ok_mono)
next
  case (acquire_swap s t cur ref nx cell ok)
  then show ?case
    using acquire_free[of s t ref nx] lease_inv_win[of s t nx] lease_inv_pc[of s t LIdle]
    by (cases "l_cell s = cur") (auto simp: CompareAndSwap_def)
next
  case (renew_swap s t cur nx cell ok)
  then show ?case
    using renew_free[of s t nx] lease_inv_win[of s t nx] lease_inv_pc[of s t LIdle]
    by (cases "l_cell s = cur") (auto simp: CompareAndSwap_def)
qed (simp_all add: lease_inv_pc acquire_decide_ok renew_decide_ok lease_inv_release)

lemma lease_inv_reachable: "lease_reachable s \<Longrightarrow> lease_inv s"
proof (induction rule: lease_reachable.induct)
  case (lease_start now)
  then show ?case by (simp add: lease_inv_def lease_init_def holds_def)
next
  case (lease_more s s')
  then show ?case by (blast intro: lease_inv_step)
qed

subsection \<open>Properties\<close>

text \<open>C15: a lease has at most one holder. In every interleaving of callers that acquire, renew and
  release one lease of the in-memory provider, with a clock that does not go backwards, two
  callers never both have an unexpired token; and the token of the holder is the one in the
  cell.\<close>

theorem lease_mutual_exclusion:
  assumes "lease_reachable s" "holds s t" "holds s u"
  shows "t = u \<and> l_held s t = l_cell s"
  using lease_inv_reachable[OF assms(1)] assms(2,3) unfolding lease_inv_def by blast

theorem lease_mutual_exclusion_witness:
  "\<exists>s. lease_reachable s \<and> holds s 0 \<and> l_held s 0 = l_cell s \<and> l_cell s = 1000000005"
proof -
  let ?s0 = "lease_init 5"
  let ?s1 = "?s0\<lparr>l_pc := (l_pc ?s0)(0 := LAcquireLoaded Second (l_cell ?s0))\<rparr>"
  let ?s2 = "?s1\<lparr>l_pc := (l_pc ?s1)(0 := acquire_decide (l_clock ?s1) Second 0)\<rparr>"
  let ?s3 = "?s2\<lparr>l_cell := 1000000005, l_pc := (l_pc ?s2)(0 := LIdle),
                 l_held := (if True then (l_held ?s2)(0 := 1000000005) else l_held ?s2)\<rparr>"
  have d: "acquire_decide 5 Second 0 = LAcquireSwap 0 5 1000000005"
    by (simp add: acquire_decide_def Next_def Second_def MaxInt64_def max_def word_le_def)
  have g: "durationGuard Second = Some Second" by (simp add: durationGuard_def Second_def go_rem_def)
  have "lease_reachable ?s1"
    by (rule lease_more[OF lease_start acquire_load[OF _ g]]) (simp_all add: lease_init_def)
  then have "lease_reachable ?s2"
    by (rule lease_more[OF _ acquire_check]) (simp add: lease_init_def)
  then have r: "lease_reachable ?s3"
    by (rule lease_more[OF _ acquire_swap[where cur = 0 and ref = 5 and nx = 1000000005]])
      (simp_all add: lease_init_def d CompareAndSwap_def)
  have h: "holds ?s3 0" by (simp add: holds_def lease_init_def)
  show ?thesis
    using lease_mutual_exclusion[OF r h h] r h by (intro exI[of _ ?s3]) simp
qed

end
