(* ===== verification/KV_Aof.thy ===== *)
theory KV_Aof
  imports KV_Memory
begin

text \<open>
  The append-only log provider (\<^verbatim>\<open>kv/aof\<close>): an in-memory store in front of a write-ahead log. A
  mutation is first appended to the log and then applied to memory; a mutation that memory
  rejects is taken off the log again. Opening the store replays the log. Leases live in memory
  only.

  The log library (\<^verbatim>\<open>tidwall/wal\<close>), the generated message codec and the checksum are parameters,
  the record \<open>aof_env\<close>; \<open>aof_laws\<close> states what the code relies on of them. Log indexes are natural
  numbers: a log of 2^64 entries is out of reach.
\<close>

datatype MutationType =
  UNKNOWN_TYPE | SIMPLE_PUT | SIMPLE_DELETE | PREFIX_APPEND | PREFIX_REMOVE | IMPORT | REMOVE_KEYS

record Mutation =
  mut_Type :: MutationType
  mut_Key :: bytes
  mut_Value :: "bytes option"
  mut_Keys :: "bytes list"
  mut_Values :: "KVTransfer option list"

datatype LogVersion = UNKNOWN_VERSION | V1

record LogEntry =
  le_Version :: LogVersion
  le_Data :: bytes
  le_Checksum :: u64

record 'w aof_env =
  wal_entries :: "'w \<Rightarrow> bytes list"
  wal_LastIndex :: "'w \<Rightarrow> error + nat"
  wal_Read :: "'w \<Rightarrow> nat \<Rightarrow> error + bytes"
  wal_Write :: "'w \<Rightarrow> nat \<Rightarrow> bytes \<Rightarrow> ('w, unit) stepped"
  wal_TruncateBack :: "'w \<Rightarrow> nat \<Rightarrow> ('w, unit) stepped"
  mut_Marshal :: "Mutation \<Rightarrow> error + bytes"
  mut_Unmarshal :: "bytes \<Rightarrow> error + Mutation"
  entry_Marshal :: "LogEntry \<Rightarrow> error + bytes"
  entry_Unmarshal :: "bytes \<Rightarrow> error + LogEntry"
  crc64_Checksum :: "bytes \<Rightarrow> u64"

record 'w DiskKV =
  dk_memKv :: MemoryKV
  dk_log :: 'w
  dk_counter :: nat
  dk_closed :: bool

record Config =
  cfg_Logger :: bool
  cfg_HasnFn :: "(bytes \<Rightarrow> u64) option"
  cfg_DataDir :: string
  cfg_FlushInterval :: int

definition Config_validate :: "Config \<Rightarrow> error option" where
  "Config_validate c =
     (if \<not> cfg_Logger c then Some (Opaque ''nil Logger is invalid'')
      else if cfg_HasnFn c = None then Some (Opaque ''nil HashFn is invalid'')
      else if cfg_DataDir c = [] then Some (Opaque ''empty DataDir is invalid'')
      else if cfg_FlushInterval c \<le> 0 then Some (Opaque ''non-positive FlushInterval is invalid'')
      else None)"

subsection \<open>Mutations\<close>

text \<open>\<^verbatim>\<open>string(nil)\<close> is the empty string.\<close>

definition bytes_of :: "bytes option \<Rightarrow> bytes" where
  "bytes_of v = (case v of None \<Rightarrow> [] | Some b \<Rightarrow> b)"

definition handleMutation :: "MemoryKV \<Rightarrow> Mutation \<Rightarrow> (MemoryKV, unit) stepped" where
  "handleMutation mem mut =
     (case mut_Type mut of
        SIMPLE_PUT \<Rightarrow> MemoryKV_Put mem (mut_Key mut) (mut_Value mut)
      | SIMPLE_DELETE \<Rightarrow> MemoryKV_Delete mem (mut_Key mut)
      | PREFIX_APPEND \<Rightarrow> MemoryKV_PrefixAppend mem (mut_Key mut) (bytes_of (mut_Value mut))
      | PREFIX_REMOVE \<Rightarrow> MemoryKV_PrefixRemove mem (mut_Key mut) (bytes_of (mut_Value mut))
      | IMPORT \<Rightarrow> MemoryKV_Import mem (mut_Keys mut) (mut_Values mut)
      | REMOVE_KEYS \<Rightarrow> MemoryKV_RemoveKeys mem (mut_Keys mut)
      | UNKNOWN_TYPE \<Rightarrow> (mem, Inr ()))"

subsection \<open>The log\<close>

definition appendLog :: "'w aof_env \<Rightarrow> 'w DiskKV \<Rightarrow> Mutation \<Rightarrow> ('w DiskKV, unit) stepped" where
  "appendLog env d mut =
     (case mut_Marshal env mut of
        Inl e \<Rightarrow> (d, Inl e)
      | Inr mutBuf \<Rightarrow>
          (case entry_Marshal env \<lparr>le_Version = V1, le_Data = mutBuf, le_Checksum = crc64_Checksum env mutBuf\<rparr> of
             Inl e \<Rightarrow> (d, Inl e)
           | Inr logBuf \<Rightarrow>
               (case wal_Write env (dk_log d) (dk_counter d) logBuf of
                  (w, Inl e) \<Rightarrow> (d\<lparr>dk_log := w\<rparr>, Inl e)
                | (w, Inr _) \<Rightarrow> (d\<lparr>dk_log := w, dk_counter := dk_counter d + 1\<rparr>, Inr ()))))"

definition rollbackOne :: "'w aof_env \<Rightarrow> 'w DiskKV \<Rightarrow> 'w DiskKV" where
  "rollbackOne env d =
     (let counter = dk_counter d - 1
      in d\<lparr>dk_counter := counter, dk_log := fst (wal_TruncateBack env (dk_log d) (counter - 1))\<rparr>)"

definition decodeEntry :: "'w aof_env \<Rightarrow> LogEntry \<Rightarrow> error + Mutation" where
  "decodeEntry env entry =
     (if le_Checksum entry \<noteq> crc64_Checksum env (le_Data entry)
      then Inl (Opaque ''log entry checksum does not match, possibly corrupted log'')
      else case le_Version entry of
        V1 \<Rightarrow> mut_Unmarshal env (le_Data entry)
      | _ \<Rightarrow> Inl (Opaque ''unknown log version: UNKNOWN_VERSION''))"

definition replayOne :: "'w aof_env \<Rightarrow> 'w DiskKV \<Rightarrow> nat \<Rightarrow> error + 'w DiskKV" where
  "replayOne env d i =
     (case wal_Read env (dk_log d) i of
        Inl e \<Rightarrow> Inl (Wrapped (''error reading log at index '' @ dec i @ '': '') e)
      | Inr buf \<Rightarrow>
          (case entry_Unmarshal env buf of
             Inl e \<Rightarrow> Inl (Wrapped (''error deserializing log at index '' @ dec i @ '': '') e)
           | Inr entry \<Rightarrow>
               (case decodeEntry env entry of
                  Inl e \<Rightarrow> Inl (Wrapped (''error decoding entry to mutation at index '' @ dec i @ '': '') e)
                | Inr mut \<Rightarrow>
                    (case handleMutation (dk_memKv d) mut of
                       (mem, Inr _) \<Rightarrow> Inr (d\<lparr>dk_memKv := mem\<rparr>)
                     | (mem, Inl e) \<Rightarrow>
                         if mut_Type mut \<noteq> PREFIX_APPEND \<or> e \<noteq> Chord ErrKVPrefixConflict
                         then Inl (Wrapped (''error apply mutation to memory state at index '' @ dec i @ '': '') e)
                         else Inr (d\<lparr>dk_memKv := mem\<rparr>)))))"

fun replay_loop :: "'w aof_env \<Rightarrow> nat list \<Rightarrow> 'w DiskKV \<Rightarrow> error + 'w DiskKV" where
  "replay_loop env [] d = Inr d"
| "replay_loop env (i # is) d =
     (case replayOne env d i of Inl e \<Rightarrow> Inl e | Inr d' \<Rightarrow> replay_loop env is d')"

definition replayLogs :: "'w aof_env \<Rightarrow> 'w DiskKV \<Rightarrow> error + 'w DiskKV" where
  "replayLogs env d =
     (case wal_LastIndex env (dk_log d) of
        Inl e \<Rightarrow> Inl (Wrapped ''error reading last log index: '' e)
      | Inr index \<Rightarrow>
          (case replay_loop env [1..<Suc index] d of
             Inl e \<Rightarrow> Inl e
           | Inr d' \<Rightarrow> Inr (d'\<lparr>dk_counter := index + 1\<rparr>)))"

text \<open>\<open>opened\<close> is what \<^verbatim>\<open>wal.Open\<close> returns for the data directory.\<close>

definition aof_New :: "'w aof_env \<Rightarrow> Config \<Rightarrow> error + 'w \<Rightarrow> error + 'w DiskKV" where
  "aof_New env cfg opened =
     (case Config_validate cfg of
        Some e \<Rightarrow> Inl e
      | None \<Rightarrow>
          (case opened of
             Inl e \<Rightarrow> Inl (Wrapped ''error opening log: '' e)
           | Inr w \<Rightarrow>
               replayLogs env
                 \<lparr>dk_memKv = WithHashFn (the (cfg_HasnFn cfg)), dk_log = w, dk_counter = 0, dk_closed = False\<rparr>))"

subsection \<open>The writer\<close>

text \<open>One round of the loop in \<^verbatim>\<open>Start\<close> for a queued mutation: the new state and the answer.\<close>

definition ErrInvalid :: error where
  "ErrInvalid = Opaque ''invalid argument''"

definition ErrClosed :: error where
  "ErrClosed = Opaque ''file already closed''"

definition Start_mutation :: "'w aof_env \<Rightarrow> 'w DiskKV \<Rightarrow> Mutation \<Rightarrow> ('w DiskKV, unit) stepped" where
  "Start_mutation env d mut =
     (case appendLog env d mut of
        (d1, Inl _) \<Rightarrow> (d1, Inl ErrInvalid)
      | (d1, Inr _) \<Rightarrow>
          (case handleMutation (dk_memKv d1) mut of
             (mem, Inr _) \<Rightarrow> (d1\<lparr>dk_memKv := mem\<rparr>, Inr ())
           | (mem, Inl e) \<Rightarrow> (rollbackOne env (d1\<lparr>dk_memKv := mem\<rparr>), Inl e)))"

text \<open>A round for whatever the loop receives, with whether the log has entries that are not flushed;
  \<open>None\<close> ends the loop. A flush changes no entry.\<close>

datatype start_event = Close | Tick | Queued Mutation

definition Start_round :: "'w aof_env \<Rightarrow> 'w DiskKV \<times> bool \<Rightarrow> start_event \<Rightarrow>
    (('w DiskKV \<times> bool) \<times> (error + unit) option) option" where
  "Start_round env st ev =
     (case ev of
        Close \<Rightarrow> None
      | Tick \<Rightarrow> Some ((fst st, False), None)
      | Queued mut \<Rightarrow> let (d, r) = Start_mutation env (fst st) mut in Some ((d, True), Some r))"

definition mutationHandler :: "'w aof_env \<Rightarrow> 'w DiskKV \<Rightarrow> Mutation \<Rightarrow> ('w DiskKV, unit) stepped" where
  "mutationHandler env d mut = (if dk_closed d then (d, Inl ErrClosed) else Start_mutation env d mut)"

definition aof_Stop :: "'w DiskKV \<Rightarrow> 'w DiskKV" where
  "aof_Stop d = (if dk_closed d then d else d\<lparr>dk_closed := True\<rparr>)"

definition new_mut :: "MutationType \<Rightarrow> Mutation" where
  "new_mut t = \<lparr>mut_Type = t, mut_Key = [], mut_Value = None, mut_Keys = [], mut_Values = []\<rparr>"

definition DiskKV_Put where
  "DiskKV_Put env d key value = mutationHandler env d ((new_mut SIMPLE_PUT)\<lparr>mut_Key := key, mut_Value := value\<rparr>)"

definition DiskKV_Delete where
  "DiskKV_Delete env d key = mutationHandler env d ((new_mut SIMPLE_DELETE)\<lparr>mut_Key := key\<rparr>)"

definition DiskKV_PrefixAppend where
  "DiskKV_PrefixAppend env d prefix child =
     mutationHandler env d ((new_mut PREFIX_APPEND)\<lparr>mut_Key := prefix, mut_Value := Some child\<rparr>)"

definition DiskKV_PrefixRemove where
  "DiskKV_PrefixRemove env d prefix child =
     mutationHandler env d ((new_mut PREFIX_REMOVE)\<lparr>mut_Key := prefix, mut_Value := Some child\<rparr>)"

definition DiskKV_Import where
  "DiskKV_Import env d keys values =
     mutationHandler env d ((new_mut IMPORT)\<lparr>mut_Keys := keys, mut_Values := values\<rparr>)"

definition DiskKV_RemoveKeys :: "'w aof_env \<Rightarrow> 'w DiskKV \<Rightarrow> bytes list \<Rightarrow> ('w DiskKV, unit) stepped" where
  "DiskKV_RemoveKeys env d keys =
     (fst (mutationHandler env d ((new_mut REMOVE_KEYS)\<lparr>mut_Keys := keys\<rparr>)), Inr ())"

subsection \<open>Reads and leases\<close>

definition DiskKV_Get :: "'w DiskKV \<Rightarrow> bytes \<Rightarrow> error + bytes option" where
  "DiskKV_Get d key = MemoryKV_Get (dk_memKv d) key"

definition DiskKV_PrefixList :: "'w DiskKV \<Rightarrow> bytes \<Rightarrow> error + bytes list" where
  "DiskKV_PrefixList d prefix = MemoryKV_PrefixList (dk_memKv d) prefix"

definition DiskKV_PrefixContains :: "'w DiskKV \<Rightarrow> bytes \<Rightarrow> bytes \<Rightarrow> error + bool" where
  "DiskKV_PrefixContains d prefix child = MemoryKV_PrefixContains (dk_memKv d) prefix child"

definition DiskKV_ListKeys :: "'w DiskKV \<Rightarrow> bytes \<Rightarrow> error + KeyComposite list" where
  "DiskKV_ListKeys d prefix = MemoryKV_ListKeys (dk_memKv d) prefix"

definition DiskKV_Export :: "'w DiskKV \<Rightarrow> bytes list \<Rightarrow> error + KVTransfer list" where
  "DiskKV_Export d keys = MemoryKV_Export (dk_memKv d) keys"

definition DiskKV_RangeKeys :: "'w DiskKV \<Rightarrow> u64 \<Rightarrow> u64 \<Rightarrow> error + bytes list" where
  "DiskKV_RangeKeys d low high = MemoryKV_RangeKeys (dk_memKv d) low high"

definition DiskKV_Acquire :: "'w DiskKV \<Rightarrow> int \<Rightarrow> bytes \<Rightarrow> int \<Rightarrow> ('w DiskKV, u64) stepped" where
  "DiskKV_Acquire d now lease ttl =
     (let (mem, r) = MemoryKV_Acquire (dk_memKv d) now lease ttl in (d\<lparr>dk_memKv := mem\<rparr>, r))"

definition DiskKV_Renew :: "'w DiskKV \<Rightarrow> int \<Rightarrow> bytes \<Rightarrow> int \<Rightarrow> u64 \<Rightarrow> ('w DiskKV, u64) stepped" where
  "DiskKV_Renew d now lease ttl prevToken =
     (let (mem, r) = MemoryKV_Renew (dk_memKv d) now lease ttl prevToken in (d\<lparr>dk_memKv := mem\<rparr>, r))"

definition DiskKV_Release :: "'w DiskKV \<Rightarrow> bytes \<Rightarrow> u64 \<Rightarrow> ('w DiskKV, unit) stepped" where
  "DiskKV_Release d lease token =
     (let (mem, r) = MemoryKV_Release (dk_memKv d) lease token in (d\<lparr>dk_memKv := mem\<rparr>, r))"

definition DiskKV_ops :: "'w aof_env \<Rightarrow> 'w DiskKV KVProvider" where
  "DiskKV_ops env =
     \<lparr>op_Put = DiskKV_Put env, op_Get = DiskKV_Get, op_Delete = DiskKV_Delete env,
      op_PrefixAppend = DiskKV_PrefixAppend env, op_PrefixList = DiskKV_PrefixList,
      op_PrefixContains = DiskKV_PrefixContains, op_PrefixRemove = DiskKV_PrefixRemove env,
      op_Acquire = DiskKV_Acquire, op_Renew = DiskKV_Renew, op_Release = DiskKV_Release,
      op_Import = DiskKV_Import env, op_ListKeys = DiskKV_ListKeys, op_Export = DiskKV_Export,
      op_RangeKeys = DiskKV_RangeKeys, op_RemoveKeys = DiskKV_RemoveKeys env\<rparr>"

subsection \<open>What the code relies on\<close>

text \<open>
  The documented behaviour of the log: the entries are numbered from 1, \<^verbatim>\<open>Write\<close> appends when it is given
  the next index and refuses any other, \<^verbatim>\<open>TruncateBack\<close> makes an index of the log the last one. A call that
  fails leaves the entries as they are. \<open>wal_works\<close> adds that the calls the code makes do not fail. Of the
  codec: what is encoded is decoded, except that a \<^verbatim>\<open>bytes\<close> field without presence loses the difference
  between nil and empty, and a nil message in a repeated field is read back as an empty one.
\<close>

definition wire_mut :: "Mutation \<Rightarrow> Mutation" where
  "wire_mut mut = mut
     \<lparr>mut_Value := (if mut_Value mut = Some [] then None else mut_Value mut),
      mut_Values := map (\<lambda>v. Some (case v of
          None \<Rightarrow> \<lparr>SimpleValue = None, PrefixChildren = [], LeaseToken = 0\<rparr> | Some t \<Rightarrow> t)) (mut_Values mut)\<rparr>"

definition wal_laws :: "'w aof_env \<Rightarrow> bool" where
  "wal_laws env \<longleftrightarrow>
     (\<forall>w. wal_LastIndex env w = Inr (length (wal_entries env w))) \<and>
     (\<forall>w i. 1 \<le> i \<and> i \<le> length (wal_entries env w) \<longrightarrow> wal_Read env w i = Inr (wal_entries env w ! (i - 1))) \<and>
     (\<forall>w i b w' r. wal_Write env w i b = (w', r) \<longrightarrow>
        (case r of Inl _ \<Rightarrow> wal_entries env w' = wal_entries env w
         | Inr _ \<Rightarrow> i = Suc (length (wal_entries env w)) \<and> wal_entries env w' = wal_entries env w @ [b])) \<and>
     (\<forall>w i w' r. wal_TruncateBack env w i = (w', r) \<longrightarrow>
        wal_entries env w' = (case r of Inl _ \<Rightarrow> wal_entries env w | Inr _ \<Rightarrow> take i (wal_entries env w)))"

definition wal_works :: "'w aof_env \<Rightarrow> bool" where
  "wal_works env \<longleftrightarrow>
     (\<forall>w b. is_ok (snd (wal_Write env w (Suc (length (wal_entries env w))) b))) \<and>
     (\<forall>w i. 1 \<le> i \<and> i \<le> length (wal_entries env w) \<longrightarrow> is_ok (snd (wal_TruncateBack env w i)))"

definition codec_laws :: "'w aof_env \<Rightarrow> bool" where
  "codec_laws env \<longleftrightarrow>
     (\<forall>m. \<exists>b. mut_Marshal env m = Inr b \<and> mut_Unmarshal env b = Inr (wire_mut m)) \<and>
     (\<forall>e. \<exists>b. entry_Marshal env e = Inr b \<and> entry_Unmarshal env b = Inr e)"

definition log_laws :: "'w aof_env \<Rightarrow> bool" where
  "log_laws env \<longleftrightarrow> wal_laws env \<and> codec_laws env"

definition aof_laws :: "'w aof_env \<Rightarrow> bool" where
  "aof_laws env \<longleftrightarrow> log_laws env \<and> wal_works env"

subsection \<open>The data of a store\<close>

text \<open>What the log preserves of an entry: the value and the children, not the lease.\<close>

type_synonym data = "bytes option \<times> bytes set"

definition data_of :: "store \<Rightarrow> bytes \<Rightarrow> data" where
  "data_of st k = (e_simple (st k), e_children (st k))"

fun import_data :: "(bytes \<Rightarrow> data) \<Rightarrow> bytes list \<Rightarrow> KVTransfer option list \<Rightarrow> bytes \<Rightarrow> data" where
  "import_data da (k # ks) (v # vs) =
     import_data (da(k := case v of
         None \<Rightarrow> (None, snd (da k)) | Some t \<Rightarrow> (SimpleValue t, set (PrefixChildren t) \<union> snd (da k)))) ks vs"
| "import_data da _ _ = da"

definition mut_data :: "Mutation \<Rightarrow> (bytes \<Rightarrow> data) \<Rightarrow> bytes \<Rightarrow> data" where
  "mut_data mut da =
     (let k = mut_Key mut; c = bytes_of (mut_Value mut)
      in case mut_Type mut of
           SIMPLE_PUT \<Rightarrow> da(k := (mut_Value mut, snd (da k)))
         | SIMPLE_DELETE \<Rightarrow> da(k := (None, snd (da k)))
         | PREFIX_APPEND \<Rightarrow> da(k := (fst (da k), insert c (snd (da k))))
         | PREFIX_REMOVE \<Rightarrow> da(k := (fst (da k), snd (da k) - {c}))
         | IMPORT \<Rightarrow> import_data da (mut_Keys mut) (mut_Values mut)
         | REMOVE_KEYS \<Rightarrow> (\<lambda>k. if k \<in> set (mut_Keys mut) then (None, {}) else da k)
         | UNKNOWN_TYPE \<Rightarrow> da)"

definition transfer_ok :: "KVTransfer option \<Rightarrow> bool" where
  "transfer_ok v \<longleftrightarrow> (case v of None \<Rightarrow> True | Some t \<Rightarrow> token_ok (LeaseToken t))"

definition mut_ok :: "Mutation \<Rightarrow> bool" where
  "mut_ok mut \<longleftrightarrow> list_all transfer_ok (mut_Values mut) \<and>
     (mut_Type mut = IMPORT \<longrightarrow> length (mut_Keys mut) = length (mut_Values mut))"

lemma data_set [simp]:
  "data_of (set_simple st k v) = (data_of st)(k := (v, snd (data_of st k)))"
  "data_of (set_children st k c) = (data_of st)(k := (fst (data_of st k), c))"
  "data_of (set_lease st k t) = data_of st"
  "data_of (remove_entries st ks) = (\<lambda>k. if k \<in> set ks then (None, {}) else data_of st k)"
  by (auto simp: data_of_def set_simple_def set_children_def set_lease_def remove_entries_def no_entry_def fun_eq_iff)

lemma importVal_data:
  assumes "mem_inv hash m" "transfer_ok v"
  shows "mem_inv hash (importVal m k v)"
    "data_of (mem_abs (importVal m k v)) = (data_of (mem_abs m))(k := case v of
       None \<Rightarrow> (None, snd (data_of (mem_abs m) k))
     | Some t \<Rightarrow> (SimpleValue t, set (PrefixChildren t) \<union> snd (data_of (mem_abs m) k)))"
proof -
  define t where "t = (case v of None \<Rightarrow> \<lparr>SimpleValue = None, PrefixChildren = [], LeaseToken = 0\<rparr> | Some t \<Rightarrow> t)"
  have eq: "importVal m k v = importVal m k (Some t)" by (simp add: importVal_def t_def split: option.splits)
  have ok: "token_ok (LeaseToken t)"
    using assms(2) by (auto simp: t_def transfer_ok_def token_ok_def MaxInt64_def split: option.splits)
  note i = mem_importVal[OF assms(1) ok, of k]
  show "mem_inv hash (importVal m k v)" unfolding eq by (rule i(1))
  show "data_of (mem_abs (importVal m k v)) = (data_of (mem_abs m))(k := case v of
       None \<Rightarrow> (None, snd (data_of (mem_abs m) k))
     | Some t \<Rightarrow> (SimpleValue t, set (PrefixChildren t) \<union> snd (data_of (mem_abs m) k)))"
    unfolding eq i(2) by (auto simp: data_of_def transfer_entry_def t_def fun_eq_iff split: option.splits)
qed

lemma Import_data:
  assumes "mem_inv hash m" "list_all transfer_ok vs" "length ks = length vs" "MemoryKV_Import m ks vs = (m', r)"
  shows "mem_inv hash m' \<and> r = Inr () \<and> data_of (mem_abs m') = import_data (data_of (mem_abs m)) ks vs"
  using assms
proof (induction ks arbitrary: m vs)
  case (Cons k ks)
  then obtain v us where vs: "vs = v # us" by (cases vs) auto
  have v: "transfer_ok v" using Cons.prems(2) vs by simp
  note i = importVal_data[OF Cons.prems(1) v, of k]
  have "mem_inv hash m' \<and> r = Inr () \<and> data_of (mem_abs m') = import_data (data_of (mem_abs (importVal m k v))) ks us"
    by (rule Cons.IH[OF i(1)]) (use Cons.prems vs in auto)
  then show ?case using i(2) vs by simp
qed simp

lemma handleMutation_data:
  assumes "mem_inv hash m" "mut_ok mut" "handleMutation m mut = (m', r)"
  shows "mem_inv hash m'" "data_of (mem_abs m') = mut_data mut (data_of (mem_abs m))"
    "r = Inr () \<or> r = Inl (Chord ErrKVPrefixConflict) \<and> mut_Type mut = PREFIX_APPEND \<and>
       mem_abs m' = mem_abs m \<and> snd (data_of (mem_abs m) (mut_Key mut)) \<noteq> {}"
proof -
  note ops = mem_Put[OF assms(1)] mem_Delete[OF assms(1)] mem_PrefixAppend[OF assms(1)] mem_PrefixRemove[OF assms(1)]
    mem_RemoveKeys[OF assms(1)] Import_data[OF assms(1)]
  have "mem_inv hash m' \<and> data_of (mem_abs m') = mut_data mut (data_of (mem_abs m)) \<and>
    (r = Inr () \<or> r = Inl (Chord ErrKVPrefixConflict) \<and> mut_Type mut = PREFIX_APPEND \<and>
       mem_abs m' = mem_abs m \<and> snd (data_of (mem_abs m) (mut_Key mut)) \<noteq> {})"
  proof (cases "mut_Type mut")
    case PREFIX_APPEND
    let ?c = "bytes_of (mut_Value mut)" and ?k = "mut_Key mut"
    have "MemoryKV_PrefixAppend m ?k ?c = (m', r)" using assms(3) PREFIX_APPEND by (simp add: handleMutation_def)
    note a = ops(3)[OF this]
    have "set_children (mem_abs m) ?k (insert ?c (e_children (mem_abs m ?k))) = mem_abs m" if "?c \<in> e_children (mem_abs m ?k)"
      using that by (simp add: insert_absorb)
    then show ?thesis using a PREFIX_APPEND by (auto simp: mut_data_def data_of_def Let_def split: if_splits)
  next
    case IMPORT
    then show ?thesis using assms(2,3) ops(6)[of "mut_Values mut" "mut_Keys mut"]
      by (simp add: mut_ok_def mut_data_def handleMutation_def)
  qed (use assms(1,3) ops in \<open>auto simp: handleMutation_def mut_data_def data_of_def Let_def\<close>)
  then show "mem_inv hash m'" "data_of (mem_abs m') = mut_data mut (data_of (mem_abs m))"
    "r = Inr () \<or> r = Inl (Chord ErrKVPrefixConflict) \<and> mut_Type mut = PREFIX_APPEND \<and>
       mem_abs m' = mem_abs m \<and> snd (data_of (mem_abs m) (mut_Key mut)) \<noteq> {}"
    by blast+
qed

subsection \<open>The log describes the memory\<close>

definition log_bytes :: "'w aof_env \<Rightarrow> Mutation \<Rightarrow> bytes" where
  "log_bytes env mut =
     (case mut_Marshal env mut of
        Inl _ \<Rightarrow> []
      | Inr data \<Rightarrow>
          (case entry_Marshal env \<lparr>le_Version = V1, le_Data = data, le_Checksum = crc64_Checksum env data\<rparr> of
             Inl _ \<Rightarrow> [] | Inr b \<Rightarrow> b))"

definition no_data :: "bytes \<Rightarrow> data" where
  "no_data = (\<lambda>_. (None, {}))"

definition logged :: "'w aof_env \<Rightarrow> (Mutation \<Rightarrow> bool) \<Rightarrow> 'w DiskKV \<Rightarrow> Mutation list \<Rightarrow> bool" where
  "logged env P d muts \<longleftrightarrow>
     wal_entries env (dk_log d) = map (log_bytes env) muts \<and>
     list_all mut_ok muts \<and> list_all P muts \<and> data_of (mem_abs (dk_memKv d)) = fold mut_data muts no_data"

text \<open>What holds whether or not writes to the log fail, and what holds while they succeed.\<close>

definition disk_inv :: "'w aof_env \<Rightarrow> (Mutation \<Rightarrow> bool) \<Rightarrow> (bytes \<Rightarrow> u64) \<Rightarrow> 'w DiskKV \<Rightarrow> bool" where
  "disk_inv env P hash d \<longleftrightarrow> log_laws env \<and> \<not> dk_closed d \<and> mem_inv hash (dk_memKv d) \<and> (\<exists>muts. logged env P d muts)"

abbreviation "any_mut \<equiv> \<lambda>_ :: Mutation. True"

definition disk_up :: "'w aof_env \<Rightarrow> (bytes \<Rightarrow> u64) \<Rightarrow> 'w DiskKV \<Rightarrow> bool" where
  "disk_up env hash d \<longleftrightarrow> disk_inv env any_mut hash d \<and> wal_works env \<and>
     dk_counter d = Suc (length (wal_entries env (dk_log d)))"

definition disk_abs :: "'w DiskKV \<Rightarrow> store" where
  "disk_abs d = mem_abs (dk_memKv d)"

lemma log_bytes_eq:
  assumes "codec_laws env"
  obtains b where "mut_Marshal env mut = Inr b"
    "entry_Marshal env \<lparr>le_Version = V1, le_Data = b, le_Checksum = crc64_Checksum env b\<rparr> = Inr (log_bytes env mut)"
    "entry_Unmarshal env (log_bytes env mut) = Inr \<lparr>le_Version = V1, le_Data = b, le_Checksum = crc64_Checksum env b\<rparr>"
    "mut_Unmarshal env b = Inr (wire_mut mut)"
proof -
  obtain b where b: "mut_Marshal env mut = Inr b" "mut_Unmarshal env b = Inr (wire_mut mut)"
    using assms unfolding codec_laws_def by blast
  let ?e = "\<lparr>le_Version = V1, le_Data = b, le_Checksum = crc64_Checksum env b\<rparr>"
  obtain c where "entry_Marshal env ?e = Inr c" "entry_Unmarshal env c = Inr ?e"
    using assms unfolding codec_laws_def by blast
  with b show thesis using that[of b] by (simp add: log_bytes_def)
qed

lemma appendLog_cases:
  assumes "log_laws env"
  obtains (failed) w e where "appendLog env d mut = (d\<lparr>dk_log := w\<rparr>, Inl e)" "wal_entries env w = wal_entries env (dk_log d)"
    "\<not> (wal_works env \<and> dk_counter d = Suc (length (wal_entries env (dk_log d))))"
  | (appended) w where "appendLog env d mut = (d\<lparr>dk_log := w, dk_counter := Suc (dk_counter d)\<rparr>, Inr ())"
    "wal_entries env w = wal_entries env (dk_log d) @ [log_bytes env mut]"
    "dk_counter d = Suc (length (wal_entries env (dk_log d)))"
proof -
  have laws: "codec_laws env" "wal_laws env" using assms by (auto simp: log_laws_def)
  obtain b where b: "mut_Marshal env mut = Inr b"
    "entry_Marshal env \<lparr>le_Version = V1, le_Data = b, le_Checksum = crc64_Checksum env b\<rparr> = Inr (log_bytes env mut)"
    by (rule log_bytes_eq[OF laws(1)])
  obtain w r where w: "wal_Write env (dk_log d) (dk_counter d) (log_bytes env mut) = (w, r)" by fastforce
  note law = laws(2)[unfolded wal_laws_def, THEN conjunct2, THEN conjunct2, THEN conjunct1, rule_format, OF w]
  show thesis
  proof (cases r)
    case (Inl e)
    have "\<not> (wal_works env \<and> dk_counter d = Suc (length (wal_entries env (dk_log d))))"
      using w Inl by (auto simp: wal_works_def is_ok_def split: sum.splits) (metis snd_conv sum.simps(4))
    then show thesis using that(1)[of w e] law w Inl b by (simp add: appendLog_def)
  next
    case (Inr v)
    then show thesis using that(2)[of w] law w b by (simp add: appendLog_def)
  qed
qed

lemma rollbackOne_cases:
  assumes "log_laws env" "wal_entries env (dk_log d) = es @ [b]" "dk_counter d = Suc (Suc (length es))"
  obtains w where "rollbackOne env d = d\<lparr>dk_counter := Suc (length es), dk_log := w\<rparr>"
    "wal_entries env w = es \<or> wal_entries env w = es @ [b]" "wal_works env \<Longrightarrow> es \<noteq> [] \<Longrightarrow> wal_entries env w = es"
proof -
  obtain w r where w: "wal_TruncateBack env (dk_log d) (length es) = (w, r)" by fastforce
  have law: "wal_entries env w = (case r of Inl _ \<Rightarrow> es @ [b] | Inr _ \<Rightarrow> es)"
    using assms(1,2) w unfolding log_laws_def wal_laws_def by (fastforce split: sum.splits)
  have "is_ok r" if "wal_works env" "es \<noteq> []"
  proof -
    have "1 \<le> length es" "length es \<le> length (wal_entries env (dk_log d))" using that(2) assms(2) by (simp_all add: Suc_le_eq)
    then show ?thesis using that(1) w unfolding wal_works_def by (metis snd_conv)
  qed
  then show thesis using that[of w] w law assms(3) by (auto simp: rollbackOne_def is_ok_def split: sum.splits)
qed

lemma Start_mutation_cases:
  assumes inv: "disk_inv env P hash d" and ok: "mut_ok mut" "P mut"
    and run: "Start_mutation env d mut = (d', r)"
  obtains (failed) w e where "appendLog env d mut = (d\<lparr>dk_log := w\<rparr>, Inl e)" "d' = d\<lparr>dk_log := w\<rparr>" "r = Inl ErrInvalid"
    "disk_inv env P hash d'" "\<not> disk_up env hash d"
  | (logged) "is_ok (snd (appendLog env d mut))" "handleMutation (dk_memKv d) mut = (dk_memKv d', r)"
    "disk_inv env P hash d'" "disk_up env hash d \<Longrightarrow> disk_up env hash d'"
proof -
  have laws: "log_laws env" and mem: "mem_inv hash (dk_memKv d)" and open': "\<not> dk_closed d"
    using inv by (auto simp: disk_inv_def)
  obtain muts where l: "logged env P d muts" using inv by (auto simp: disk_inv_def)
  show thesis
  proof (cases rule: appendLog_cases[OF laws, of d mut])
    case (1 w e)
    then have d': "d' = d\<lparr>dk_log := w\<rparr>" "r = Inl ErrInvalid" using run by (auto simp: Start_mutation_def)
    have "logged env P d' muts" using l 1 d' by (simp add: logged_def)
    then have "disk_inv env P hash d'" using inv d' by (auto simp: disk_inv_def)
    then show thesis using that(1) 1 d' by (simp add: disk_up_def)
  next
    case (2 w)
    obtain mem' q where h: "handleMutation (dk_memKv d) mut = (mem', q)" by fastforce
    note H = handleMutation_data[OF mem ok(1) h]
    let ?d = "d\<lparr>dk_log := w, dk_counter := Suc (dk_counter d), dk_memKv := mem'\<rparr>"
    have app: "logged env P e (muts @ [mut])" if "wal_entries env (dk_log e) = wal_entries env w" "dk_memKv e = mem'" for e
      using that l 2(2) H(2) ok by (simp add: logged_def)
    show thesis
    proof (cases q)
      case (Inr u)
      then have d': "d' = ?d" "r = q" using run 2(1) h by (auto simp: Start_mutation_def)
      have "disk_inv env P hash d'" using app[of d'] inv H(1) d' by (auto simp: disk_inv_def)
      moreover have "disk_up env hash d \<Longrightarrow> disk_up env hash d'"
        using calculation d' 2 by (auto simp: disk_up_def disk_inv_def logged_def list_all_iff)
      ultimately show thesis using that(2) 2(1) h d' by simp
    next
      case (Inl e)
      have q: "data_of (mem_abs mem') = data_of (mem_abs (dk_memKv d))" "muts \<noteq> []"
        using H(3) Inl l by (auto simp: logged_def no_data_def)
      obtain w' where w': "rollbackOne env ?d = ?d\<lparr>dk_counter := Suc (length (wal_entries env (dk_log d))), dk_log := w'\<rparr>"
        "wal_entries env w' = wal_entries env (dk_log d) \<or> wal_entries env w' = wal_entries env w"
        "wal_works env \<Longrightarrow> wal_entries env (dk_log d) \<noteq> [] \<Longrightarrow> wal_entries env w' = wal_entries env (dk_log d)"
        by (rule rollbackOne_cases[OF laws, of ?d "wal_entries env (dk_log d)" "log_bytes env mut"]) (use 2 in auto)
      have d': "d' = ?d\<lparr>dk_counter := Suc (length (wal_entries env (dk_log d))), dk_log := w'\<rparr>" "r = q"
        using run 2(1) h Inl w'(1) by (auto simp: Start_mutation_def)
      have "logged env P d' muts" if "wal_entries env w' = wal_entries env (dk_log d)"
        using that l q(1) d' by (simp add: logged_def)
      then have "\<exists>ms. logged env P d' ms" using w'(2) app[of d'] d' by auto
      then have "disk_inv env P hash d'" using inv H(1) d' by (auto simp: disk_inv_def)
      moreover have "disk_up env hash d \<Longrightarrow> disk_up env hash d'"
        using calculation d' w'(3) l q(2) by (auto simp: disk_up_def disk_inv_def logged_def list_all_iff)
      ultimately show thesis using that(2) 2(1) h d' by simp
    qed
  qed
qed

lemma lease_inv:
  assumes "disk_inv env P hash d" "mem_inv hash mem" "mem_abs mem = set_lease (disk_abs d) k t"
  shows "disk_inv env P hash (d\<lparr>dk_memKv := mem\<rparr>)"
proof -
  obtain muts where "logged env P d muts" using assms(1) by (auto simp: disk_inv_def)
  then have "logged env P (d\<lparr>dk_memKv := mem\<rparr>) muts" using assms(3) by (simp add: logged_def disk_abs_def)
  then show ?thesis using assms(1,2) by (auto simp: disk_inv_def)
qed

lemma handler_inv:
  assumes "disk_inv env P hash d" "mut_ok mut" "P mut" "mutationHandler env d mut = (d', r)"
  shows "disk_inv env P hash d'"
    and "disk_up env hash d \<Longrightarrow> disk_up env hash d' \<and> handleMutation (dk_memKv d) mut = (dk_memKv d', r)"
proof -
  have "Start_mutation env d mut = (d', r)" using assms(1,4) by (simp add: mutationHandler_def disk_inv_def)
  from Start_mutation_cases[OF assms(1-3) this] show "disk_inv env P hash d'"
    "disk_up env hash d \<Longrightarrow> disk_up env hash d' \<and> handleMutation (dk_memKv d) mut = (dk_memKv d', r)" by metis+
qed

lemma mut_ok_new [simp]:
  "t \<noteq> IMPORT \<Longrightarrow> mut_ok ((new_mut t)\<lparr>mut_Key := k, mut_Value := v\<rparr>)"
  "t \<noteq> IMPORT \<Longrightarrow> mut_ok ((new_mut t)\<lparr>mut_Key := k\<rparr>)"
  "t \<noteq> IMPORT \<Longrightarrow> mut_ok ((new_mut t)\<lparr>mut_Keys := ks\<rparr>)"
  by (simp_all add: mut_ok_def new_mut_def)

lemma mut_ok_import:
  assumes "length ks = length ts" "\<And>t. t \<in> set ts \<Longrightarrow> token_ok (LeaseToken t)"
  shows "mut_ok ((new_mut IMPORT)\<lparr>mut_Keys := ks, mut_Values := map Some ts\<rparr>)"
  using assms by (auto simp: mut_ok_def new_mut_def list_all_iff transfer_ok_def)

subsection \<open>A provider like the others\<close>

text \<open>While writes to the log succeed, the store is a provider: the laws are part of its invariant.\<close>

lemma disk_upD: "disk_up env hash d \<Longrightarrow> disk_inv env any_mut hash d"
  by (simp add: disk_up_def)

lemma disk_up_mem: "disk_up env hash d \<Longrightarrow> mem_inv hash (dk_memKv d)"
  by (simp add: disk_up_def disk_inv_def)

lemma disk_mem: "disk_inv env P hash d \<Longrightarrow> mem_inv hash (dk_memKv d)"
  by (simp add: disk_inv_def)

lemma disk_lease:
  assumes "disk_inv env P hash d"
  shows "DiskKV_Acquire d now k ttl = (d', q) \<Longrightarrow> disk_inv env P hash d' \<and>
      disk_abs d' = set_lease (disk_abs d) k (fst (spec_Acquire now ttl (e_lease (disk_abs d k)))) \<and>
      q = snd (spec_Acquire now ttl (e_lease (disk_abs d k)))"
    and "DiskKV_Renew d now k ttl prev = (d', q) \<Longrightarrow> disk_inv env P hash d' \<and>
      disk_abs d' = set_lease (disk_abs d) k (fst (spec_Renew now ttl prev (e_lease (disk_abs d k)))) \<and>
      q = snd (spec_Renew now ttl prev (e_lease (disk_abs d k)))"
    and "DiskKV_Release d k token = (d', r) \<Longrightarrow> disk_inv env P hash d' \<and>
      disk_abs d' = set_lease (disk_abs d) k (fst (spec_Release token (e_lease (disk_abs d k)))) \<and>
      r = snd (spec_Release token (e_lease (disk_abs d k)))"
proof -
  note mem = disk_mem[OF assms]
  show "DiskKV_Acquire d now k ttl = (d', q) \<Longrightarrow> disk_inv env P hash d' \<and>
      disk_abs d' = set_lease (disk_abs d) k (fst (spec_Acquire now ttl (e_lease (disk_abs d k)))) \<and>
      q = snd (spec_Acquire now ttl (e_lease (disk_abs d k)))"
    by (cases "MemoryKV_Acquire (dk_memKv d) now k ttl")
      (use mem_Acquire[OF mem] lease_inv[OF assms] in \<open>fastforce simp: DiskKV_Acquire_def disk_abs_def\<close>)
  show "DiskKV_Renew d now k ttl prev = (d', q) \<Longrightarrow> disk_inv env P hash d' \<and>
      disk_abs d' = set_lease (disk_abs d) k (fst (spec_Renew now ttl prev (e_lease (disk_abs d k)))) \<and>
      q = snd (spec_Renew now ttl prev (e_lease (disk_abs d k)))"
    by (cases "MemoryKV_Renew (dk_memKv d) now k ttl prev")
      (use mem_Renew[OF mem] lease_inv[OF assms] in \<open>fastforce simp: DiskKV_Renew_def disk_abs_def\<close>)
  show "DiskKV_Release d k token = (d', r) \<Longrightarrow> disk_inv env P hash d' \<and>
      disk_abs d' = set_lease (disk_abs d) k (fst (spec_Release token (e_lease (disk_abs d k)))) \<and>
      r = snd (spec_Release token (e_lease (disk_abs d k)))"
    by (cases "MemoryKV_Release (dk_memKv d) k token")
      (use mem_Release[OF mem] lease_inv[OF assms] in \<open>fastforce simp: DiskKV_Release_def disk_abs_def\<close>)
qed

lemma disk_mut:
  assumes "disk_up env hash d" "mutationHandler env d mut = (d', r)" "mut_ok mut"
  shows "disk_up env hash d' \<and> handleMutation (dk_memKv d) mut = (dk_memKv d', r)"
  using handler_inv(2)[OF disk_upD[OF assms(1)] assms(3) _ assms(2)] assms(1) by simp

lemma disk_lease_same:
  "DiskKV_Acquire d now k ttl = (d', q) \<Longrightarrow> dk_log d' = dk_log d \<and> dk_counter d' = dk_counter d"
  "DiskKV_Renew d now k ttl prev = (d', q) \<Longrightarrow> dk_log d' = dk_log d \<and> dk_counter d' = dk_counter d"
  "DiskKV_Release d k token = (d', r) \<Longrightarrow> dk_log d' = dk_log d \<and> dk_counter d' = dk_counter d"
  by (auto simp: DiskKV_Acquire_def DiskKV_Renew_def DiskKV_Release_def split: prod.splits)

lemma disk_Acquire:
  assumes "disk_up env hash d" "DiskKV_Acquire d now k ttl = (d', q)"
  shows "disk_up env hash d' \<and>
    disk_abs d' = set_lease (disk_abs d) k (fst (spec_Acquire now ttl (e_lease (disk_abs d k)))) \<and>
    q = snd (spec_Acquire now ttl (e_lease (disk_abs d k)))"
  using disk_lease(1)[OF disk_upD[OF assms(1)] assms(2)] disk_lease_same(1)[OF assms(2)] assms(1) by (simp add: disk_up_def)

lemma disk_Renew:
  assumes "disk_up env hash d" "DiskKV_Renew d now k ttl prev = (d', q)"
  shows "disk_up env hash d' \<and>
    disk_abs d' = set_lease (disk_abs d) k (fst (spec_Renew now ttl prev (e_lease (disk_abs d k)))) \<and>
    q = snd (spec_Renew now ttl prev (e_lease (disk_abs d k)))"
  using disk_lease(2)[OF disk_upD[OF assms(1)] assms(2)] disk_lease_same(2)[OF assms(2)] assms(1) by (simp add: disk_up_def)

lemma disk_Release:
  assumes "disk_up env hash d" "DiskKV_Release d k token = (d', r)"
  shows "disk_up env hash d' \<and>
    disk_abs d' = set_lease (disk_abs d) k (fst (spec_Release token (e_lease (disk_abs d k)))) \<and>
    r = snd (spec_Release token (e_lease (disk_abs d k)))"
  using disk_lease(3)[OF disk_upD[OF assms(1)] assms(2)] disk_lease_same(3)[OF assms(2)] assms(1) by (simp add: disk_up_def)

lemmas new_mut_simps = handleMutation_def new_mut_def bytes_of_def

lemma disk_Put:
  assumes "disk_up env hash d" "DiskKV_Put env d k v = (d', r)"
  shows "disk_up env hash d' \<and> r = Inr () \<and> disk_abs d' = set_simple (disk_abs d) k v"
  using disk_mut[OF assms(1) assms(2)[unfolded DiskKV_Put_def]] mem_Put[OF disk_up_mem[OF assms(1)], of k v]
  by (simp add: disk_abs_def new_mut_simps mut_ok_def)

lemma disk_Put_nil:
  assumes "disk_up env hash d" "DiskKV_Put env d k None = (d', r)"
  shows "disk_up env hash d' \<and> r = Inr () \<and>
    (disk_abs d' = set_simple (disk_abs d) k None \<or> disk_abs d' = set_simple (disk_abs d) k (Some []))"
  using disk_Put[OF assms] by blast

lemma disk_Release_zero:
  assumes "disk_up env hash d" "DiskKV_Release d k 0 = (d', r)"
  shows "disk_up env hash d' \<and> disk_abs d' = disk_abs d \<and>
    (r = Inl (Chord ErrKVLeaseExpired) \<or> e_lease (disk_abs d k) = 0 \<and> r = Inr ())"
  using disk_Release[OF assms] by (auto simp: spec_Release_def set_lease_free split: if_splits)

lemma disk_Delete:
  assumes "disk_up env hash d" "DiskKV_Delete env d k = (d', r)"
  shows "disk_up env hash d' \<and> r = Inr () \<and> disk_abs d' = set_simple (disk_abs d) k None"
  using disk_mut[OF assms(1) assms(2)[unfolded DiskKV_Delete_def]] mem_Delete[OF disk_up_mem[OF assms(1)], of k]
  by (simp add: disk_abs_def new_mut_simps mut_ok_def)

lemma disk_PrefixAppend:
  assumes "disk_up env hash d" "DiskKV_PrefixAppend env d k c = (d', r)"
  shows "disk_up env hash d' \<and>
    disk_abs d' = set_children (disk_abs d) k (insert c (e_children (disk_abs d k))) \<and>
    r = (if c \<in> e_children (disk_abs d k) then Inl (Chord ErrKVPrefixConflict) else Inr ())"
  using disk_mut[OF assms(1) assms(2)[unfolded DiskKV_PrefixAppend_def]] mem_PrefixAppend[OF disk_up_mem[OF assms(1)], of k c]
  by (simp add: disk_abs_def new_mut_simps mut_ok_def)

lemma disk_PrefixRemove:
  assumes "disk_up env hash d" "DiskKV_PrefixRemove env d k c = (d', r)"
  shows "disk_up env hash d' \<and> r = Inr () \<and>
    disk_abs d' = set_children (disk_abs d) k (e_children (disk_abs d k) - {c})"
  using disk_mut[OF assms(1) assms(2)[unfolded DiskKV_PrefixRemove_def]] mem_PrefixRemove[OF disk_up_mem[OF assms(1)], of k c]
  by (simp add: disk_abs_def new_mut_simps mut_ok_def)

lemma disk_RemoveKeys:
  assumes "disk_up env hash d" "DiskKV_RemoveKeys env d ks = (d', r)"
  shows "disk_up env hash d' \<and> r = Inr () \<and> disk_abs d' = remove_entries (disk_abs d) ks"
proof -
  obtain q where "mutationHandler env d ((new_mut REMOVE_KEYS)\<lparr>mut_Keys := ks\<rparr>) = (d', q)" "r = Inr ()"
    using assms(2) by (cases "mutationHandler env d ((new_mut REMOVE_KEYS)\<lparr>mut_Keys := ks\<rparr>)") (auto simp: DiskKV_RemoveKeys_def)
  then show ?thesis
    using disk_mut[OF assms(1), of "(new_mut REMOVE_KEYS)\<lparr>mut_Keys := ks\<rparr>" d' q]
      mem_RemoveKeys[OF disk_up_mem[OF assms(1)], of ks "dk_memKv d'" q]
    by (simp add: disk_abs_def new_mut_simps mut_ok_def)
qed

lemma disk_Import:
  assumes "disk_up env hash d" "length ks = length ts" "distinct ks"
    and "\<And>t. t \<in> set ts \<Longrightarrow> live (transfer_entry t) \<and> token_ok (LeaseToken t)"
    and "\<And>k. k \<in> set ks \<Longrightarrow> disk_abs d k = no_entry"
    and "DiskKV_Import env d ks (map Some ts) = (d', r)"
  shows "disk_up env hash d' \<and> r = Inr () \<and> disk_abs d' = import_entries (disk_abs d) ks ts"
proof -
  have "mut_ok ((new_mut IMPORT)\<lparr>mut_Keys := ks, mut_Values := map Some ts\<rparr>)"
    using assms(2,4) by (intro mut_ok_import) auto
  with disk_mut[OF assms(1) assms(6)[unfolded DiskKV_Import_def]]
  have "disk_up env hash d'" "MemoryKV_Import (dk_memKv d) ks (map Some ts) = (dk_memKv d', r)"
    by (simp_all add: new_mut_simps)
  moreover have "mem_abs (dk_memKv d) k = no_entry" if "k \<in> set ks" for k
    using assms(5)[OF that] by (simp add: disk_abs_def)
  note mem_Import[OF disk_up_mem[OF assms(1)] assms(2-4) this calculation(2)]
  ultimately show ?thesis unfolding disk_abs_def by blast
qed

lemmas disk_contract = disk_Put disk_Put_nil disk_Release_zero disk_Delete disk_PrefixAppend disk_PrefixRemove disk_Acquire
  disk_Renew disk_Release disk_Import disk_RemoveKeys

lemmas disk_read_defs = DiskKV_Get_def DiskKV_PrefixList_def DiskKV_PrefixContains_def DiskKV_ListKeys_def
  DiskKV_Export_def DiskKV_RangeKeys_def disk_abs_def

lemmas disk_reads = mem_Get mem_PrefixContains mem_Export
  mem_PrefixList[OF disk_up_mem] mem_ListKeys[OF disk_up_mem] mem_RangeKeys[OF disk_up_mem] mem_tokens[OF disk_up_mem]

interpretation aofkv: kv_provider "DiskKV_ops env" hash disk_abs "disk_up env hash"
  by (unfold_locales; (unfold DiskKV_ops_def KVProvider.simps)?;
      ((rule disk_contract; (assumption | blast)) | (unfold disk_read_defs, rule disk_reads; assumption?)))

subsection \<open>Replay\<close>

lemma wire_mut_ok: "mut_ok mut \<Longrightarrow> mut_ok (wire_mut mut)"
  by (auto simp: mut_ok_def wire_mut_def list_all_iff transfer_ok_def token_ok_def MaxInt64_def split: option.splits)

lemma wire_mut_simps [simp]:
  "mut_Type (wire_mut mut) = mut_Type mut" "mut_Key (wire_mut mut) = mut_Key mut"
  "mut_Keys (wire_mut mut) = mut_Keys mut" "bytes_of (mut_Value (wire_mut mut)) = bytes_of (mut_Value mut)"
  by (auto simp: wire_mut_def bytes_of_def)

lemma import_data_wire:
  "import_data da ks (map (\<lambda>v. Some (case v of
      None \<Rightarrow> \<lparr>SimpleValue = None, PrefixChildren = [], LeaseToken = 0\<rparr> | Some t \<Rightarrow> t)) vs) = import_data da ks vs"
proof (induction da ks vs rule: import_data.induct)
  case (1 da k ks v vs)
  then show ?case by (cases v) (simp_all add: fun_upd_def)
qed simp_all

text \<open>The one mutation the log does not carry: a plain value that is empty but not nil.\<close>

definition not_empty_put :: "Mutation \<Rightarrow> bool" where
  "not_empty_put mut \<longleftrightarrow> \<not> (mut_Type mut = SIMPLE_PUT \<and> mut_Value mut = Some [])"

lemma mut_data_wire: "not_empty_put mut \<Longrightarrow> mut_data (wire_mut mut) da = mut_data mut da"
proof -
  assume *: "not_empty_put mut"
  have "mut_Values (wire_mut mut) = map (\<lambda>v. Some (case v of
      None \<Rightarrow> \<lparr>SimpleValue = None, PrefixChildren = [], LeaseToken = 0\<rparr> | Some t \<Rightarrow> t)) (mut_Values mut)"
    "mut_Type mut = SIMPLE_PUT \<Longrightarrow> mut_Value (wire_mut mut) = mut_Value mut"
    using * by (auto simp: wire_mut_def not_empty_put_def)
  then show ?thesis by (simp add: mut_data_def import_data_wire Let_def split: MutationType.splits)
qed

lemma replayOne_ok:
  assumes laws: "log_laws env" and mem: "mem_inv hash (dk_memKv d)" and ok: "mut_ok mut"
    and i: "1 \<le> i" "i \<le> length (wal_entries env (dk_log d))" "wal_entries env (dk_log d) ! (i - 1) = log_bytes env mut"
  obtains m where "replayOne env d i = Inr (d\<lparr>dk_memKv := m\<rparr>)" "mem_inv hash m"
    "data_of (mem_abs m) = mut_data (wire_mut mut) (data_of (mem_abs (dk_memKv d)))"
proof -
  have L: "codec_laws env" "wal_laws env" using laws by (auto simp: log_laws_def)
  have rd: "wal_Read env (dk_log d) i = Inr (log_bytes env mut)" using L(2) i unfolding wal_laws_def by metis
  obtain b where b: "entry_Unmarshal env (log_bytes env mut) =
      Inr \<lparr>le_Version = V1, le_Data = b, le_Checksum = crc64_Checksum env b\<rparr>" "mut_Unmarshal env b = Inr (wire_mut mut)"
    by (rule log_bytes_eq[OF L(1)])
  obtain m r where h: "handleMutation (dk_memKv d) (wire_mut mut) = (m, r)" by fastforce
  note H = handleMutation_data[OF mem wire_mut_ok[OF ok] h]
  have "replayOne env d i = Inr (d\<lparr>dk_memKv := m\<rparr>)"
    using rd b h H(3) by (auto simp: replayOne_def decodeEntry_def)
  then show thesis using that H by blast
qed

lemma replay_loop_ok:
  assumes laws: "log_laws env" and mem: "mem_inv hash (dk_memKv d)" and ok: "list_all mut_ok muts"
    and es: "wal_entries env (dk_log d) = map (log_bytes env) (pre @ muts)"
  shows "\<exists>m. replay_loop env [Suc (length pre)..<Suc (length (pre @ muts))] d = Inr (d\<lparr>dk_memKv := m\<rparr>) \<and>
    mem_inv hash m \<and> data_of (mem_abs m) = fold (\<lambda>mut. mut_data (wire_mut mut)) muts (data_of (mem_abs (dk_memKv d)))"
  using mem ok es
proof (induction muts arbitrary: d pre)
  case Nil
  then show ?case by (intro exI[of _ "dk_memKv d"]) simp
next
  case (Cons mut muts)
  obtain m where m: "replayOne env d (Suc (length pre)) = Inr (d\<lparr>dk_memKv := m\<rparr>)" "mem_inv hash m"
    "data_of (mem_abs m) = mut_data (wire_mut mut) (data_of (mem_abs (dk_memKv d)))"
    by (rule replayOne_ok[OF laws Cons.prems(1), of mut "Suc (length pre)"]) (use Cons.prems in \<open>auto simp: nth_append\<close>)
  have "\<exists>m'. replay_loop env [Suc (length (pre @ [mut]))..<Suc (length ((pre @ [mut]) @ muts))] (d\<lparr>dk_memKv := m\<rparr>) =
        Inr (d\<lparr>dk_memKv := m, dk_memKv := m'\<rparr>) \<and> mem_inv hash m' \<and>
      data_of (mem_abs m') = fold (\<lambda>mut. mut_data (wire_mut mut)) muts (data_of (mem_abs (dk_memKv (d\<lparr>dk_memKv := m\<rparr>))))"
    by (rule Cons.IH) (use m(2) Cons.prems in auto)
  moreover have "[Suc (length pre)..<Suc (length (pre @ mut # muts))] =
      Suc (length pre) # [Suc (length (pre @ [mut]))..<Suc (length ((pre @ [mut]) @ muts))]"
    by (simp add: upt_rec del: upt_Suc)
  ultimately show ?case using m(1,3) by (auto simp del: upt_Suc)
qed

definition boot_config :: "(bytes \<Rightarrow> u64) \<Rightarrow> Config" where
  "boot_config hash = \<lparr>cfg_Logger = True, cfg_HasnFn = Some hash, cfg_DataDir = ''data'', cfg_FlushInterval = 3000000000\<rparr>"

lemma aof_New_ok:
  assumes laws: "log_laws env" and ok: "list_all mut_ok muts" and es: "wal_entries env w = map (log_bytes env) muts"
    and cfg: "Config_validate cfg = None" "cfg_HasnFn cfg = Some hash"
  shows "\<exists>d. aof_New env cfg (Inr w) = Inr d \<and> dk_log d = w \<and> dk_counter d = Suc (length muts) \<and> \<not> dk_closed d \<and>
    mem_inv hash (dk_memKv d) \<and> data_of (disk_abs d) = fold (\<lambda>mut. mut_data (wire_mut mut)) muts no_data"
proof -
  let ?d = "\<lparr>dk_memKv = WithHashFn hash, dk_log = w, dk_counter = 0, dk_closed = False\<rparr>"
  have "data_of (mem_abs (WithHashFn hash)) = no_data" by (auto simp: data_of_def no_entry_def no_data_def)
  then obtain m where "replay_loop env [1..<Suc (length muts)] ?d = Inr (?d\<lparr>dk_memKv := m\<rparr>)" "mem_inv hash m"
    "data_of (mem_abs m) = fold (\<lambda>mut. mut_data (wire_mut mut)) muts no_data"
    using replay_loop_ok[OF laws, of hash ?d muts "[]"] ok es by auto
  moreover have "wal_LastIndex env w = Inr (length muts)" using laws es by (simp add: log_laws_def wal_laws_def)
  ultimately show ?thesis
    using cfg by (simp add: aof_New_def replayLogs_def disk_abs_def del: upt_Suc)
qed

subsection \<open>Durability\<close>

lemma disk_inv_weaken: "disk_inv env P hash d \<Longrightarrow> disk_inv env any_mut hash d"
  by (auto simp: disk_inv_def logged_def list_all_iff)

text \<open>The calls whose effect the log can carry: no put of an empty value, and imports with one transfer
  for each key and tokens of the size the stores issue.\<close>

fun log_cmd :: "kv_cmd \<Rightarrow> bool" where
  "log_cmd (CPut k v) \<longleftrightarrow> v \<noteq> Some []"
| "log_cmd (CImport ks ts) \<longleftrightarrow> length ks = length ts \<and> list_all (\<lambda>t. token_ok (LeaseToken t)) ts"
| "log_cmd c \<longleftrightarrow> True"

lemma exec_cmd_logged:
  assumes inv: "disk_inv env not_empty_put hash d" and ok: "log_cmd c"
  shows "disk_inv env not_empty_put hash (fst (exec_cmd (DiskKV_ops env) d c))"
proof -
  have m: "disk_inv env not_empty_put hash (fst (mutationHandler env d mut))" if "mut_ok mut" "not_empty_put mut" for mut
    using handler_inv(1)[OF inv that] by (metis prod.collapse)
  note defs = DiskKV_ops_def case_prod_beta new_mut_def not_empty_put_def mut_ok_def
  show ?thesis
  proof (cases c)
    case (CPut k v)
    then show ?thesis using m ok by (simp add: DiskKV_Put_def defs)
  next
    case (CImport ks ts)
    have "mut_ok ((new_mut IMPORT)\<lparr>mut_Keys := ks, mut_Values := map Some ts\<rparr>)"
      using ok CImport by (intro mut_ok_import) (auto simp: list_all_iff)
    then show ?thesis using m CImport by (simp add: DiskKV_Import_def DiskKV_ops_def case_prod_beta new_mut_def not_empty_put_def)
  next
    case (CAcquire now k ttl)
    then show ?thesis using disk_lease(1)[OF inv] by (simp add: DiskKV_ops_def case_prod_beta) (metis prod.collapse)
  next
    case (CRenew now k ttl prev)
    then show ?thesis using disk_lease(2)[OF inv] by (simp add: DiskKV_ops_def case_prod_beta) (metis prod.collapse)
  next
    case (CRelease k token)
    then show ?thesis using disk_lease(3)[OF inv] by (simp add: DiskKV_ops_def case_prod_beta) (metis prod.collapse)
  qed (use m inv in \<open>simp_all add: DiskKV_Delete_def DiskKV_PrefixAppend_def DiskKV_PrefixRemove_def
      DiskKV_RemoveKeys_def defs\<close>)
qed

lemma run_cmds_logged:
  "disk_inv env not_empty_put hash d \<Longrightarrow> list_all log_cmd cs \<Longrightarrow>
   disk_inv env not_empty_put hash (fst (run_cmds (DiskKV_ops env) d cs))"
proof (induction cs arbitrary: d)
  case (Cons c cs)
  then show ?case using exec_cmd_logged[of env hash d c] by (simp add: case_prod_beta)
qed simp

lemma fold_wire: "list_all not_empty_put muts \<Longrightarrow> fold (\<lambda>mut. mut_data (wire_mut mut)) muts da = fold mut_data muts da"
  by (induction muts arbitrary: da) (simp_all add: mut_data_wire)

lemma New_empty:
  assumes "log_laws env" "wal_entries env w = []" "Config_validate cfg = None" "cfg_HasnFn cfg = Some hash"
  obtains d where "aof_New env cfg (Inr w) = Inr d" "disk_inv env not_empty_put hash d" "disk_abs d = (\<lambda>_. no_entry)"
    "dk_log d = w" "dk_counter d = 1"
proof -
  have i: "wal_LastIndex env w = Inr 0" using assms(1,2) by (simp add: log_laws_def wal_laws_def)
  let ?d = "\<lparr>dk_memKv = WithHashFn hash, dk_log = w, dk_counter = 1, dk_closed = False\<rparr>"
  have "aof_New env cfg (Inr w) = Inr ?d" using assms(3,4) i by (simp add: aof_New_def replayLogs_def)
  moreover have "logged env not_empty_put ?d []"
    using assms(2) by (simp add: logged_def data_of_def no_entry_def no_data_def fun_eq_iff)
  then have "disk_inv env not_empty_put hash ?d" using assms(1) by (auto simp: disk_inv_def)
  ultimately show thesis using that by (simp add: disk_abs_def)
qed

lemma reopen:
  assumes inv: "disk_inv env not_empty_put hash d" and cfg: "Config_validate cfg = None" "cfg_HasnFn cfg = Some hash"
  shows "\<exists>d'. aof_New env cfg (Inr (dk_log d)) = Inr d' \<and> data_of (disk_abs d') = data_of (disk_abs d)"
proof -
  obtain muts where l: "logged env not_empty_put d muts" using inv by (auto simp: disk_inv_def)
  then show ?thesis
    using aof_New_ok[of env muts "dk_log d" cfg hash] cfg inv fold_wire[of muts no_data]
    by (auto simp: logged_def disk_inv_def disk_abs_def)
qed

lemma reopen_appended:
  assumes inv: "disk_inv env not_empty_put hash d" and cfg: "Config_validate cfg = None" "cfg_HasnFn cfg = Some hash"
    and mut: "mut_ok mut" "not_empty_put mut" and app: "is_ok (snd (appendLog env d mut))"
  shows "\<exists>d'. aof_New env cfg (Inr (dk_log (fst (appendLog env d mut)))) = Inr d' \<and>
    data_of (disk_abs d') = data_of (mem_abs (fst (handleMutation (dk_memKv d) mut)))"
proof -
  obtain muts where l: "logged env not_empty_put d muts" using inv by (auto simp: disk_inv_def)
  have laws: "log_laws env" and mem: "mem_inv hash (dk_memKv d)" using inv by (auto simp: disk_inv_def)
  obtain w where a: "appendLog env d mut = (d\<lparr>dk_log := w, dk_counter := Suc (dk_counter d)\<rparr>, Inr ())"
    "wal_entries env w = wal_entries env (dk_log d) @ [log_bytes env mut]"
    using appendLog_cases[OF laws, of d mut] app by (metis is_ok_simps(2) snd_conv)
  have "data_of (mem_abs (fst (handleMutation (dk_memKv d) mut))) = fold mut_data (muts @ [mut]) no_data"
    using handleMutation_data(2)[OF mem mut(1)] l by (metis fold_append fold_simps(1,2) logged_def o_apply prod.collapse)
  then show ?thesis
    using aof_New_ok[OF laws, of "muts @ [mut]" w cfg hash] cfg l a mut fold_wire[of "muts @ [mut]" no_data]
    by (auto simp: logged_def)
qed

end
