(* ===== verification/KV_Aof_Durable.thy ===== *)
theory KV_Aof_Durable
  imports KV_Aof
begin

text \<open>
  What survives a restart of the append-only log store, with a concrete log and codec on which
  the theorems are instantiated.
\<close>

subsection \<open>A concrete environment\<close>

definition decodes :: "('a \<Rightarrow> string) \<Rightarrow> (string \<Rightarrow> ('a \<times> string) option) \<Rightarrow> bool" where
  "decodes f g \<longleftrightarrow> (\<forall>x r. g (f x @ r) = Some (x, r))"

definition enc_nat :: "nat \<Rightarrow> string" where
  "enc_nat n = replicate n (CHR ''1'') @ ''0''"

fun dec_nat :: "string \<Rightarrow> (nat \<times> string) option" where
  "dec_nat [] = None"
| "dec_nat (c # s) = (if c = CHR ''1'' then map_option (\<lambda>(n, r). (Suc n, r)) (dec_nat s) else Some (0, s))"

definition enc_list :: "('a \<Rightarrow> string) \<Rightarrow> 'a list \<Rightarrow> string" where
  "enc_list f xs = enc_nat (length xs) @ concat (map f xs)"

fun dec_many :: "(string \<Rightarrow> ('a \<times> string) option) \<Rightarrow> nat \<Rightarrow> string \<Rightarrow> ('a list \<times> string) option" where
  "dec_many g 0 s = Some ([], s)"
| "dec_many g (Suc n) s =
     (case g s of None \<Rightarrow> None | Some (x, r) \<Rightarrow> map_option (\<lambda>(xs, r'). (x # xs, r')) (dec_many g n r))"

definition dec_list :: "(string \<Rightarrow> ('a \<times> string) option) \<Rightarrow> string \<Rightarrow> ('a list \<times> string) option" where
  "dec_list g s = (case dec_nat s of None \<Rightarrow> None | Some (n, r) \<Rightarrow> dec_many g n r)"

definition dec_char :: "string \<Rightarrow> (char \<times> string) option" where
  "dec_char s = (case s of [] \<Rightarrow> None | c # r \<Rightarrow> Some (c, r))"

definition enc_bytes :: "bytes \<Rightarrow> string" where
  "enc_bytes = enc_list (\<lambda>c. [c])"

definition dec_bytes :: "string \<Rightarrow> (bytes \<times> string) option" where
  "dec_bytes = dec_list dec_char"

definition enc_option :: "('a \<Rightarrow> string) \<Rightarrow> 'a option \<Rightarrow> string" where
  "enc_option f v = enc_list f (case v of None \<Rightarrow> [] | Some x \<Rightarrow> [x])"

definition dec_option :: "(string \<Rightarrow> ('a \<times> string) option) \<Rightarrow> string \<Rightarrow> ('a option \<times> string) option" where
  "dec_option g s = map_option (\<lambda>(xs, r). (case xs of [] \<Rightarrow> None | x # _ \<Rightarrow> Some x, r)) (dec_list g s)"

lemma decodes_nat: "decodes enc_nat dec_nat"
proof -
  have "dec_nat (replicate n CHR ''1'' @ CHR ''0'' # r) = Some (n, r)" for n r by (induction n) simp_all
  then show ?thesis by (simp add: decodes_def enc_nat_def)
qed

lemma decodes_list: "decodes f g \<Longrightarrow> decodes (enc_list f) (dec_list g)"
proof -
  assume fg: "decodes f g"
  have "dec_many g (length xs) (concat (map f xs) @ r) = Some (xs, r)" for xs r
    using fg by (induction xs) (simp_all add: decodes_def)
  then show ?thesis using decodes_nat by (simp add: decodes_def enc_list_def dec_list_def)
qed

lemma decodes_bytes: "decodes enc_bytes dec_bytes"
  unfolding enc_bytes_def dec_bytes_def by (rule decodes_list) (simp add: decodes_def dec_char_def)

lemma decodes_option: "decodes f g \<Longrightarrow> decodes (enc_option f) (dec_option g)"
  using decodes_list[of f g] by (auto simp: decodes_def enc_option_def dec_option_def split: option.splits)

definition enc_transfer :: "KVTransfer \<Rightarrow> string" where
  "enc_transfer t = enc_option enc_bytes (SimpleValue t) @ enc_list enc_bytes (PrefixChildren t) @ enc_nat (unat (LeaseToken t))"

definition dec_transfer :: "string \<Rightarrow> (KVTransfer \<times> string) option" where
  "dec_transfer s =
     (case dec_option dec_bytes s of None \<Rightarrow> None | Some (v, s) \<Rightarrow>
      (case dec_list dec_bytes s of None \<Rightarrow> None | Some (cs, s) \<Rightarrow>
      (case dec_nat s of None \<Rightarrow> None | Some (n, s) \<Rightarrow>
         Some (\<lparr>SimpleValue = v, PrefixChildren = cs, LeaseToken = of_nat n\<rparr>, s))))"

lemmas decodes_simps = decodes_nat[unfolded decodes_def, rule_format] decodes_bytes[unfolded decodes_def, rule_format]
  decodes_option[OF decodes_bytes, unfolded decodes_def, rule_format]
  decodes_list[OF decodes_bytes, unfolded decodes_def, rule_format]

lemma decodes_transfer: "decodes enc_transfer dec_transfer"
  unfolding decodes_def enc_transfer_def dec_transfer_def by (simp add: decodes_simps)

definition type_num :: "MutationType \<Rightarrow> nat" where
  "type_num t = (case t of UNKNOWN_TYPE \<Rightarrow> 0 | SIMPLE_PUT \<Rightarrow> 1 | SIMPLE_DELETE \<Rightarrow> 3 | PREFIX_APPEND \<Rightarrow> 5
     | PREFIX_REMOVE \<Rightarrow> 7 | IMPORT \<Rightarrow> 20 | REMOVE_KEYS \<Rightarrow> 21)"

definition num_type :: "nat \<Rightarrow> MutationType" where
  "num_type n = (if n = 1 then SIMPLE_PUT else if n = 3 then SIMPLE_DELETE else if n = 5 then PREFIX_APPEND
     else if n = 7 then PREFIX_REMOVE else if n = 20 then IMPORT else if n = 21 then REMOVE_KEYS else UNKNOWN_TYPE)"

lemma num_type_num [simp]: "num_type (type_num t) = t"
  by (cases t) (simp_all add: type_num_def num_type_def)

definition enc_mut :: "Mutation \<Rightarrow> string" where
  "enc_mut m = enc_nat (type_num (mut_Type m)) @ enc_bytes (mut_Key m) @ enc_option enc_bytes (mut_Value m) @
     enc_list enc_bytes (mut_Keys m) @ enc_list (enc_option enc_transfer) (mut_Values m)"

definition dec_mut :: "string \<Rightarrow> error + Mutation" where
  "dec_mut s =
     (case dec_nat s of None \<Rightarrow> Inl (Opaque ''EOF'') | Some (n, s) \<Rightarrow>
      (case dec_bytes s of None \<Rightarrow> Inl (Opaque ''EOF'') | Some (k, s) \<Rightarrow>
      (case dec_option dec_bytes s of None \<Rightarrow> Inl (Opaque ''EOF'') | Some (v, s) \<Rightarrow>
      (case dec_list dec_bytes s of None \<Rightarrow> Inl (Opaque ''EOF'') | Some (ks, s) \<Rightarrow>
      (case dec_list (dec_option dec_transfer) s of None \<Rightarrow> Inl (Opaque ''EOF'') | Some (vs, s) \<Rightarrow>
         Inr \<lparr>mut_Type = num_type n, mut_Key = k, mut_Value = v, mut_Keys = ks, mut_Values = vs\<rparr>)))))"

definition list_env :: "bytes list aof_env" where
  "list_env = \<lparr>wal_entries = (\<lambda>w. w), wal_LastIndex = (\<lambda>w. Inr (length w)),
     wal_Read = (\<lambda>w i. if 1 \<le> i \<and> i \<le> length w then Inr (w ! (i - 1)) else Inl (Opaque ''not found'')),
     wal_Write = (\<lambda>w i b. if i = Suc (length w) then (w @ [b], Inr ()) else (w, Inl (Opaque ''out of order''))),
     wal_TruncateBack = (\<lambda>w i. if 1 \<le> i \<and> i \<le> length w then (take i w, Inr ()) else (w, Inl (Opaque ''out of range''))),
     mut_Marshal = (\<lambda>m. Inr (enc_mut (wire_mut m))), mut_Unmarshal = dec_mut,
     entry_Marshal = (\<lambda>e. Inr (enc_nat (case le_Version e of UNKNOWN_VERSION \<Rightarrow> 0 | V1 \<Rightarrow> 1) @
        enc_bytes (le_Data e) @ enc_nat (unat (le_Checksum e)))),
     entry_Unmarshal = (\<lambda>s. case dec_nat s of None \<Rightarrow> Inl (Opaque ''EOF'') | Some (v, s) \<Rightarrow>
        (case dec_bytes s of None \<Rightarrow> Inl (Opaque ''EOF'') | Some (b, s) \<Rightarrow>
        (case dec_nat s of None \<Rightarrow> Inl (Opaque ''EOF'') | Some (c, s) \<Rightarrow>
           Inr \<lparr>le_Version = (if v = 0 then UNKNOWN_VERSION else V1), le_Data = b, le_Checksum = of_nat c\<rparr>))),
     crc64_Checksum = (\<lambda>b. of_nat (length b))\<rparr>"

lemma dec_enc_mut: "dec_mut (enc_mut m) = Inr m"
  using decodes_list[OF decodes_option[OF decodes_transfer], unfolded decodes_def, rule_format, of "mut_Values m" "[]"]
  by (simp add: dec_mut_def enc_mut_def decodes_simps)

lemma list_env_laws: "aof_laws list_env"
proof -
  have "entry_Unmarshal list_env (enc_nat (case le_Version e of UNKNOWN_VERSION \<Rightarrow> 0 | V1 \<Rightarrow> 1) @
        enc_bytes (le_Data e) @ enc_nat (unat (le_Checksum e))) = Inr e" for e
    using decodes_nat[unfolded decodes_def, rule_format, of "unat (le_Checksum e)" "[]"]
    by (cases "le_Version e") (simp_all add: list_env_def decodes_simps)
  then show ?thesis
    by (auto simp: aof_laws_def log_laws_def wal_laws_def wal_works_def codec_laws_def list_env_def dec_enc_mut)
qed

lemma boot_config_ok: "Config_validate (boot_config hash) = None" "cfg_HasnFn (boot_config hash) = Some hash"
  by (simp_all add: Config_validate_def boot_config_def)

subsection \<open>Properties\<close>

text \<open>A log whose disk is full after two entries.\<close>

definition full_env :: "bytes list aof_env" where
  "full_env = list_env\<lparr>wal_Write := (\<lambda>w i b. if length w < 2 then wal_Write list_env w i b else (w, Inl (Opaque ''no space left''))),
     wal_TruncateBack := (\<lambda>w i. (w, Inl (Opaque ''no space left'')))\<rparr>"

lemma list_env_log: "log_laws list_env"
  using list_env_laws by (simp add: aof_laws_def)

lemma full_env_laws: "log_laws full_env"
proof -
  have "codec_laws full_env" using list_env_log by (simp add: log_laws_def codec_laws_def full_env_def)
  then show ?thesis by (auto simp: log_laws_def wal_laws_def full_env_def list_env_def)
qed

text \<open>C10: the log is durable. After any sequence of calls on a new store, reopening its log succeeds and
  gives a store with the same values and children as the store had. Rejected appends are included,
  and so are writes to the log and rollbacks that fail, as long as a failed call leaves the log's
  entries as they are. Excluded are puts of an empty value, which the log does not tell from nil, and
  imports that do not have one transfer for each key with a token that fits a signed integer. Leases
  are not kept.\<close>

theorem aof_durable:
  assumes "log_laws env" "wal_entries env w = []" "Config_validate cfg = None" "cfg_HasnFn cfg = Some hash"
    and "aof_New env cfg (Inr w) = Inr d0" "list_all log_cmd cs"
    and "d = fst (run_cmds (DiskKV_ops env) d0 cs)"
  shows "\<exists>d'. aof_New env cfg (Inr (dk_log d)) = Inr d' \<and>
    (\<forall>k. e_simple (disk_abs d' k) = e_simple (disk_abs d k) \<and> e_children (disk_abs d' k) = e_children (disk_abs d k))"
proof -
  have "disk_inv env not_empty_put hash d0" using New_empty[OF assms(1-4)] assms(5) by (metis sum.inject(2))
  then have "disk_inv env not_empty_put hash d" unfolding assms(7) by (rule run_cmds_logged[OF _ assms(6)])
  then obtain d' where "aof_New env cfg (Inr (dk_log d)) = Inr d'" "data_of (disk_abs d') = data_of (disk_abs d)"
    using reopen assms(3,4) by blast
  then show ?thesis by (auto simp: data_of_def fun_eq_iff)
qed

theorem aof_durable_witness:
  "\<exists>d0 d d'. aof_New full_env (boot_config (\<lambda>_. 7)) (Inr []) = Inr d0 \<and>
    d = fst (run_cmds (DiskKV_ops full_env) d0 [CPrefixAppend ''k'' ''c'', CPrefixAppend ''k'' ''c'', CPut ''k'' (Some ''v'')]) \<and>
    aof_New full_env (boot_config (\<lambda>_. 7)) (Inr (dk_log d)) = Inr d' \<and> e_children (disk_abs d' ''k'') = e_children (disk_abs d ''k'')"
proof -
  have e: "wal_entries full_env [] = []" by (simp add: full_env_def list_env_def)
  obtain d0 where d0: "aof_New full_env (boot_config (\<lambda>_. 7)) (Inr []) = Inr d0"
    by (rule New_empty[OF full_env_laws e boot_config_ok])
  from aof_durable[OF full_env_laws e boot_config_ok d0,
      of "[CPrefixAppend ''k'' ''c'', CPrefixAppend ''k'' ''c'', CPut ''k'' (Some ''v'')]"] d0
  show ?thesis by auto
qed

text \<open>C11: a crash between the append and its outcome is harmless. Take a store after any sequence of
  calls as in the durability theorem and a mutation that does not put an empty value and, as an import,
  has one transfer for each key. When the process stops after the mutation was written to the log and
  before it is applied or taken back, reopening gives the data the store would have had after the
  mutation: the new data when it is accepted, the old data when it is an append that memory rejects or
  when the write to the log failed.\<close>

theorem aof_crash_after_append:
  assumes "log_laws env" "wal_entries env w = []" "Config_validate cfg = None" "cfg_HasnFn cfg = Some hash"
    and "aof_New env cfg (Inr w) = Inr d0" "list_all log_cmd cs"
    and "d = fst (run_cmds (DiskKV_ops env) d0 cs)" "mut_ok mut" "not_empty_put mut"
  shows "\<exists>d'. aof_New env cfg (Inr (dk_log (fst (appendLog env d mut)))) = Inr d' \<and>
    data_of (disk_abs d') = data_of (disk_abs (fst (Start_mutation env d mut)))"
proof -
  have "disk_inv env not_empty_put hash d0" using New_empty[OF assms(1-4)] assms(5) by (metis sum.inject(2))
  then have inv: "disk_inv env not_empty_put hash d" unfolding assms(7) by (rule run_cmds_logged[OF _ assms(6)])
  obtain d2 r where s: "Start_mutation env d mut = (d2, r)" by fastforce
  from inv assms(8,9) s show ?thesis
  proof (cases rule: Start_mutation_cases)
    case (failed w e)
    then show ?thesis using reopen[OF failed(4) assms(3,4)] s by simp
  next
    case logged
    then show ?thesis using reopen_appended[OF inv assms(3,4,8,9)] s by (simp add: disk_abs_def)
  qed
qed

theorem aof_crash_after_append_witness:
  "\<exists>d0 d d'. aof_New list_env (boot_config (\<lambda>_. 7)) (Inr []) = Inr d0 \<and>
    d = fst (run_cmds (DiskKV_ops list_env) d0 [CPrefixAppend ''k'' ''c'']) \<and>
    aof_New list_env (boot_config (\<lambda>_. 7)) (Inr (dk_log (fst (appendLog list_env d
      ((new_mut PREFIX_APPEND)\<lparr>mut_Key := ''k'', mut_Value := Some ''c''\<rparr>))))) = Inr d'"
proof -
  have e: "wal_entries list_env [] = []" by (simp add: list_env_def)
  obtain d0 where d0: "aof_New list_env (boot_config (\<lambda>_. 7)) (Inr []) = Inr d0"
    by (rule New_empty[OF list_env_log e boot_config_ok])
  from aof_crash_after_append[OF list_env_log e boot_config_ok d0, of "[CPrefixAppend ''k'' ''c'']" _
      "(new_mut PREFIX_APPEND)\<lparr>mut_Key := ''k'', mut_Value := Some ''c''\<rparr>"] d0
  show ?thesis by (auto simp: not_empty_put_def new_mut_def mut_ok_def)
qed

text \<open>C32: an empty value does not survive. A put of an empty value is readable until the store is
  reopened; after that the key has no value.\<close>

theorem aof_empty_put_lost:
  assumes "aof_laws env" "wal_entries env w = []" "Config_validate cfg = None" "cfg_HasnFn cfg = Some hash"
    and "aof_New env cfg (Inr w) = Inr d0" "DiskKV_Put env d0 k (Some []) = (d, r)"
  shows "DiskKV_Get d k = Inr (Some []) \<and>
    (\<exists>d'. aof_New env cfg (Inr (dk_log d)) = Inr d' \<and> DiskKV_Get d' k = Inr None)"
proof -
  have laws: "log_laws env" "wal_works env" using assms(1) by (simp_all add: aof_laws_def)
  have d0: "disk_inv env not_empty_put hash d0" "disk_abs d0 = (\<lambda>_. no_entry)" "dk_log d0 = w" "dk_counter d0 = 1"
    using New_empty[OF laws(1) assms(2-4)] assms(5) by (metis sum.inject(2))+
  let ?mut = "(new_mut SIMPLE_PUT)\<lparr>mut_Key := k, mut_Value := Some []\<rparr>"
  note inv0 = disk_inv_weaken[OF d0(1)]
  have up: "disk_up env hash d0" using inv0 laws(2) d0(3,4) assms(2) by (simp add: disk_up_def)
  have put: "disk_abs d = set_simple (disk_abs d0) k (Some [])" using disk_Put[OF up assms(6)] by auto
  obtain w' where a: "appendLog env d0 ?mut = (d0\<lparr>dk_log := w', dk_counter := Suc (dk_counter d0)\<rparr>, Inr ())"
    "wal_entries env w' = wal_entries env (dk_log d0) @ [log_bytes env ?mut]"
    by (rule appendLog_cases[OF laws(1), of d0 ?mut]) (use laws(2) up in \<open>auto simp: disk_up_def\<close>)
  have "dk_log d = w'"
  proof -
    obtain m q where h: "handleMutation (dk_memKv d0) ?mut = (m, q)" by fastforce
    have "q = Inr ()" using handleMutation_data(3)[OF disk_mem[OF inv0] mut_ok_new(1) h] by (auto simp: new_mut_def)
    then show ?thesis
      using assms(6) a(1) h inv0 by (auto simp: DiskKV_Put_def mutationHandler_def Start_mutation_def disk_inv_def)
  qed
  then obtain d' where d': "aof_New env cfg (Inr (dk_log d)) = Inr d'"
    "data_of (disk_abs d') = mut_data (wire_mut ?mut) no_data"
    using aof_New_ok[OF laws(1), of "[?mut]" w' cfg hash] assms(2-4) a(2) d0(3) by auto
  have "e_simple (disk_abs d' k) = None"
    using fun_cong[OF d'(2), of k] by (simp add: data_of_def mut_data_def wire_mut_def new_mut_def)
  then show ?thesis
    using put d'(1) by (simp add: DiskKV_Get_def mem_Get disk_abs_def set_simple_def)
qed

theorem aof_empty_put_lost_witness:
  "\<exists>d0 d r. aof_New list_env (boot_config (\<lambda>_. 7)) (Inr []) = Inr d0 \<and> DiskKV_Put list_env d0 ''k'' (Some []) = (d, r) \<and>
    DiskKV_Get d ''k'' = Inr (Some [])"
proof -
  have e: "wal_entries list_env [] = []" by (simp add: list_env_def)
  obtain d0 where d0: "aof_New list_env (boot_config (\<lambda>_. 7)) (Inr []) = Inr d0"
    by (rule New_empty[OF list_env_log e boot_config_ok])
  obtain d r where "DiskKV_Put list_env d0 ''k'' (Some []) = (d, r)" by fastforce
  then show ?thesis using aof_empty_put_lost[OF list_env_laws e boot_config_ok d0] d0 by blast
qed

end
