(* ===== verification/Tun_Spec.thy ===== *)
theory Tun_Spec
  imports KV_Client
begin

text \<open>
  The names of the tunnel layer (\<^verbatim>\<open>spec/tun\<close>, \<^verbatim>\<open>spec/pki/token.go\<close>): the keys under which the tunnel
  server keeps its records, the labels of ephemeral hostnames, the aliases of sessions, the secret
  tokens of delegations and the identity in a client certificate. SHA-256 is a parameter.
\<close>

subsection \<open>Strings\<close>

definition Contains :: "string \<Rightarrow> string \<Rightarrow> bool" where
  "Contains s p \<longleftrightarrow> list_ex (\<lambda>i. HasPrefix (drop i s) p) [0..<Suc (length s)]"

definition code :: "char \<Rightarrow> nat" where
  "code c = of_char c"

definition is_lower_hex :: "char \<Rightarrow> bool" where
  "is_lower_hex c \<longleftrightarrow> (48 \<le> code c \<and> code c \<le> 57) \<or> (97 \<le> code c \<and> code c \<le> 102)"

definition lowerHex :: "string \<Rightarrow> bool" where
  "lowerHex s \<longleftrightarrow> list_all is_lower_hex s"

text \<open>\<^verbatim>\<open>encoding/hex\<close>; decoding only ever sees lower-case digits.\<close>

definition nibble :: "nat \<Rightarrow> char" where
  "nibble d = (if d < 10 then char_of (48 + d) else char_of (87 + d))"

fun hex_encode :: "bytes \<Rightarrow> string" where
  "hex_encode [] = []"
| "hex_encode (c # cs) = nibble (code c div 16) # nibble (code c mod 16) # hex_encode cs"

definition unnibble :: "char \<Rightarrow> nat" where
  "unnibble c = (if code c \<le> 57 then code c - 48 else code c - 87)"

fun hex_decode :: "string \<Rightarrow> bytes" where
  "hex_decode (a # b # s) = char_of (16 * unnibble a + unnibble b) # hex_decode s"
| "hex_decode _ = []"

lemma code_less [simp]: "code c < 256"
  by (simp add: code_def)

lemma code_char_of [simp]: "n < 256 \<Longrightarrow> code (char_of n) = n"
  by (simp add: code_def)

lemma char_of_code [simp]: "char_of (code c) = c"
  by (simp add: code_def)

lemma nibble_simps: "d < 16 \<Longrightarrow> unnibble (nibble d) = d" "d < 16 \<Longrightarrow> is_lower_hex (nibble d)"
  by (auto simp: unnibble_def nibble_def is_lower_hex_def)

lemma unnibble_inverse: "is_lower_hex c \<Longrightarrow> nibble (unnibble c) = c \<and> unnibble c < 16"
  by (auto simp: unnibble_def nibble_def is_lower_hex_def)

lemma hex_decode_encode [simp]: "hex_decode (hex_encode bs) = bs"
  by (induction bs) (simp_all add: nibble_simps less_mult_imp_div_less)

lemma hex_encode_decode: "lowerHex s \<Longrightarrow> even (length s) \<Longrightarrow> hex_encode (hex_decode s) = s"
proof (induction s rule: hex_decode.induct)
  case (1 a b s)
  then have "nibble (unnibble a) = a" "nibble (unnibble b) = b" "unnibble a < 16" "unnibble b < 16"
    using unnibble_inverse by (auto simp: lowerHex_def)
  moreover from this have "16 * unnibble a + unnibble b < 256" by simp
  ultimately show ?case using 1 by (simp add: lowerHex_def)
qed auto

lemma length_hex [simp]: "length (hex_encode bs) = 2 * length bs"
  by (induction bs) simp_all

lemma lowerHex_hex [simp]: "lowerHex (hex_encode bs)"
  by (induction bs) (simp_all add: lowerHex_def nibble_simps less_mult_imp_div_less)

lemma hex_append: "hex_encode (a @ b) = hex_encode a @ hex_encode b"
  by (induction a) simp_all

lemma Contains_single: "Contains s [c] \<longleftrightarrow> c \<in> set s"
proof -
  have "HasPrefix (drop i s) [c] \<longleftrightarrow> i < length s \<and> s ! i = c" for i
    by (cases "i < length s") (auto simp: HasPrefix_def simp flip: Cons_nth_drop_Suc)
  then show ?thesis by (auto simp: Contains_def list_ex_iff in_set_conv_nth)
qed

lemma hex_encode_inj: "hex_encode a = hex_encode b \<longleftrightarrow> a = b"
  by (metis hex_decode_encode)

subsection \<open>Keys\<close>

record Node =
  nd_Id :: u64
  nd_Address :: string
  nd_Unknown :: bool
  nd_Rendezvous :: bool

type_synonym ClientToken = bytes

text \<open>The getters of generated messages accept nil.\<close>

definition GetAddress :: "Node option \<Rightarrow> string" where
  "GetAddress n = (case n of None \<Rightarrow> [] | Some m \<Rightarrow> nd_Address m)"

definition GetId :: "Node option \<Rightarrow> u64" where
  "GetId n = (case n of None \<Rightarrow> 0 | Some m \<Rightarrow> nd_Id m)"

definition GetToken :: "ClientToken option \<Rightarrow> bytes" where
  "GetToken t = (case t of None \<Rightarrow> [] | Some b \<Rightarrow> b)"

definition DestinationByChordKey :: "Node \<Rightarrow> bytes" where
  "DestinationByChordKey chord = ''/destination/chord/'' @ nd_Address chord"

definition DestinationByTunnelKey :: "Node \<Rightarrow> bytes" where
  "DestinationByTunnelKey tunnel = ''/destination/tunnel/'' @ nd_Address tunnel"

definition RoutingKey :: "string \<Rightarrow> nat \<Rightarrow> bytes" where
  "RoutingKey hostname num = ''/tunnel/bundle/'' @ hostname @ ''/'' @ dec num"

definition ClientTokenKey :: "ClientToken \<Rightarrow> bytes" where
  "ClientTokenKey token = ''/tunnel/client/token/'' @ token"

definition ClientHostnamesPrefix :: "ClientToken \<Rightarrow> bytes" where
  "ClientHostnamesPrefix token = ''/tunnel/client/hostnames/'' @ token"

definition ClientLeaseKey :: "ClientToken \<Rightarrow> bytes" where
  "ClientLeaseKey token = ''/tunnel/client/lease/'' @ token"

definition CustomHostnameKey :: "string \<Rightarrow> bytes" where
  "CustomHostnameKey hostname = ''/tunnel/client/custom/'' @ hostname"

definition HostWAFKey :: "string \<Rightarrow> bytes" where
  "HostWAFKey hostname = ''/tunnel/waf/'' @ hostname"

definition DelegationKey :: "string \<Rightarrow> bytes" where
  "DelegationKey i = ''/tunnel/delegation/'' @ i"

definition ClientDelegationsPrefix :: "ClientToken \<Rightarrow> bytes" where
  "ClientDelegationsPrefix token = ''/tunnel/client/delegations/'' @ token"

definition NumRedundantLinks :: nat where
  "NumRedundantLinks = 3"

lemmas key_defs = DestinationByChordKey_def DestinationByTunnelKey_def RoutingKey_def ClientTokenKey_def
  ClientHostnamesPrefix_def ClientLeaseKey_def CustomHostnameKey_def HostWAFKey_def DelegationKey_def
  ClientDelegationsPrefix_def

text \<open>No key of one kind is a key of another kind, and keys of one kind tell their subjects apart.\<close>

lemma keys_inj [simp]:
  "ClientTokenKey a = ClientTokenKey b \<longleftrightarrow> a = b" "ClientHostnamesPrefix a = ClientHostnamesPrefix b \<longleftrightarrow> a = b"
  "ClientLeaseKey a = ClientLeaseKey b \<longleftrightarrow> a = b" "CustomHostnameKey h = CustomHostnameKey g \<longleftrightarrow> h = g"
  "HostWAFKey h = HostWAFKey g \<longleftrightarrow> h = g" "DelegationKey i = DelegationKey j \<longleftrightarrow> i = j"
  "ClientDelegationsPrefix a = ClientDelegationsPrefix b \<longleftrightarrow> a = b"
  by (simp_all add: key_defs)

definition key_kind :: "bytes \<Rightarrow> nat option" where
  "key_kind k = (if HasPrefix k ''/destination/chord/'' then Some 0 else if HasPrefix k ''/destination/tunnel/'' then Some 1
     else if HasPrefix k ''/tunnel/bundle/'' then Some 2 else if HasPrefix k ''/tunnel/client/token/'' then Some 3
     else if HasPrefix k ''/tunnel/client/hostnames/'' then Some 4 else if HasPrefix k ''/tunnel/client/lease/'' then Some 5
     else if HasPrefix k ''/tunnel/client/custom/'' then Some 6 else if HasPrefix k ''/tunnel/waf/'' then Some 7
     else if HasPrefix k ''/tunnel/delegation/'' then Some 8 else if HasPrefix k ''/tunnel/client/delegations/'' then Some 9
     else None)"

lemma key_kinds:
  "key_kind (DestinationByChordKey n) = Some 0" "key_kind (DestinationByTunnelKey n) = Some 1"
  "key_kind (RoutingKey h i) = Some 2" "key_kind (ClientTokenKey t) = Some 3" "key_kind (ClientHostnamesPrefix t) = Some 4"
  "key_kind (ClientLeaseKey t) = Some 5" "key_kind (CustomHostnameKey h) = Some 6" "key_kind (HostWAFKey h) = Some 7"
  "key_kind (DelegationKey d) = Some 8" "key_kind (ClientDelegationsPrefix t) = Some 9"
  by (simp_all add: key_kind_def key_defs HasPrefix_def)

lemma key_kind_neq: "key_kind a \<noteq> key_kind b \<Longrightarrow> a \<noteq> b"
  by auto

lemma keys_neq [simp]:
  "RoutingKey h i \<noteq> DestinationByTunnelKey n" "DestinationByTunnelKey n \<noteq> RoutingKey h i"
  "RoutingKey h i \<noteq> DestinationByChordKey n" "DestinationByChordKey n \<noteq> RoutingKey h i"
  "DestinationByTunnelKey n \<noteq> DestinationByChordKey m" "DestinationByChordKey m \<noteq> DestinationByTunnelKey n"
  "RoutingKey h i \<noteq> ClientTokenKey t" "ClientTokenKey t \<noteq> RoutingKey h i"
  "RoutingKey h i \<noteq> ClientHostnamesPrefix t" "ClientHostnamesPrefix t \<noteq> RoutingKey h i"
  "RoutingKey h i \<noteq> ClientLeaseKey t" "ClientLeaseKey t \<noteq> RoutingKey h i"
  "RoutingKey h i \<noteq> CustomHostnameKey g" "CustomHostnameKey g \<noteq> RoutingKey h i"
  "RoutingKey h i \<noteq> HostWAFKey g" "HostWAFKey g \<noteq> RoutingKey h i"
  "RoutingKey h i \<noteq> DelegationKey d" "DelegationKey d \<noteq> RoutingKey h i"
  "RoutingKey h i \<noteq> ClientDelegationsPrefix t" "ClientDelegationsPrefix t \<noteq> RoutingKey h i"
  "CustomHostnameKey g \<noteq> ClientHostnamesPrefix t" "ClientHostnamesPrefix t \<noteq> CustomHostnameKey g"
  "CustomHostnameKey g \<noteq> ClientLeaseKey t" "ClientLeaseKey t \<noteq> CustomHostnameKey g"
  "CustomHostnameKey g \<noteq> ClientTokenKey t" "ClientTokenKey t \<noteq> CustomHostnameKey g"
  "CustomHostnameKey g \<noteq> HostWAFKey h" "HostWAFKey h \<noteq> CustomHostnameKey g"
  "CustomHostnameKey g \<noteq> DelegationKey d" "DelegationKey d \<noteq> CustomHostnameKey g"
  "CustomHostnameKey g \<noteq> ClientDelegationsPrefix t" "ClientDelegationsPrefix t \<noteq> CustomHostnameKey g"
  "CustomHostnameKey g \<noteq> DestinationByTunnelKey n" "DestinationByTunnelKey n \<noteq> CustomHostnameKey g"
  "CustomHostnameKey g \<noteq> DestinationByChordKey n" "DestinationByChordKey n \<noteq> CustomHostnameKey g"
  "ClientHostnamesPrefix t \<noteq> ClientLeaseKey u" "ClientLeaseKey u \<noteq> ClientHostnamesPrefix t"
  "ClientHostnamesPrefix t \<noteq> ClientTokenKey u" "ClientTokenKey u \<noteq> ClientHostnamesPrefix t"
  "ClientHostnamesPrefix t \<noteq> HostWAFKey h" "HostWAFKey h \<noteq> ClientHostnamesPrefix t"
  "ClientHostnamesPrefix t \<noteq> DelegationKey d" "DelegationKey d \<noteq> ClientHostnamesPrefix t"
  "ClientHostnamesPrefix t \<noteq> ClientDelegationsPrefix u" "ClientDelegationsPrefix u \<noteq> ClientHostnamesPrefix t"
  "ClientHostnamesPrefix t \<noteq> DestinationByTunnelKey n" "DestinationByTunnelKey n \<noteq> ClientHostnamesPrefix t"
  "ClientHostnamesPrefix t \<noteq> DestinationByChordKey n" "DestinationByChordKey n \<noteq> ClientHostnamesPrefix t"
  "ClientLeaseKey t \<noteq> ClientTokenKey u" "ClientTokenKey u \<noteq> ClientLeaseKey t"
  "ClientLeaseKey t \<noteq> HostWAFKey h" "HostWAFKey h \<noteq> ClientLeaseKey t"
  "ClientLeaseKey t \<noteq> DelegationKey d" "DelegationKey d \<noteq> ClientLeaseKey t"
  "ClientLeaseKey t \<noteq> ClientDelegationsPrefix u" "ClientDelegationsPrefix u \<noteq> ClientLeaseKey t"
  "ClientLeaseKey t \<noteq> DestinationByTunnelKey n" "DestinationByTunnelKey n \<noteq> ClientLeaseKey t"
  "ClientLeaseKey t \<noteq> DestinationByChordKey n" "DestinationByChordKey n \<noteq> ClientLeaseKey t"
  "HostWAFKey h \<noteq> DelegationKey d" "DelegationKey d \<noteq> HostWAFKey h"
  "HostWAFKey h \<noteq> ClientTokenKey t" "ClientTokenKey t \<noteq> HostWAFKey h"
  "HostWAFKey h \<noteq> ClientDelegationsPrefix t" "ClientDelegationsPrefix t \<noteq> HostWAFKey h"
  "DelegationKey d \<noteq> ClientDelegationsPrefix t" "ClientDelegationsPrefix t \<noteq> DelegationKey d"
  "DelegationKey d \<noteq> ClientTokenKey t" "ClientTokenKey t \<noteq> DelegationKey d"
  by (rule key_kind_neq; simp add: key_kinds)+

text \<open>A routing key ends in a slash and the decimal slot, which has no slash.\<close>

lemma digit_code: "d < 10 \<Longrightarrow> code (digit d) = 48 + d"
  by (simp add: digit_def)

lemma digit_inj: "a < 10 \<Longrightarrow> b < 10 \<Longrightarrow> digit a = digit b \<Longrightarrow> a = b"
  by (metis digit_code add_left_cancel)

lemma digit_no_slash: "d < 10 \<Longrightarrow> digit d \<noteq> CHR ''/''"
proof
  assume "d < 10" "digit d = CHR ''/''"
  moreover have "code CHR ''/'' = 47" by (simp add: code_def)
  ultimately show False using digit_code[of d] by simp
qed

lemma dec_small: "n < 10 \<Longrightarrow> dec n = [digit n]"
  by (subst dec.simps) simp

lemma dec_large: "\<not> n < 10 \<Longrightarrow> dec n = dec (n div 10) @ [digit (n mod 10)]"
  by (subst dec.simps) simp

lemma dec_no_slash: "CHR ''/'' \<notin> set (dec n)"
proof (induction n rule: dec.induct)
  case (1 n)
  show ?case
  proof (cases "n < 10")
    case True
    then show ?thesis using digit_no_slash[of n] by (auto simp: dec_small)
  next
    case False
    then show ?thesis using 1 digit_no_slash[of "n mod 10"] by (auto simp: dec_large)
  qed
qed

lemma dec_nonempty: "dec n \<noteq> []"
  by (cases "n < 10") (simp_all add: dec_small dec_large)

lemma dec_inj: "dec a = dec b \<Longrightarrow> a = b"
proof (induction a arbitrary: b rule: dec.induct)
  case (1 a)
  show ?case
  proof (cases "a < 10"; cases "b < 10")
    assume "a < 10" "b < 10"
    then show ?thesis using "1.prems" digit_inj by (simp add: dec_small)
  next
    assume "a < 10" "\<not> b < 10"
    then show ?thesis using "1.prems" dec_nonempty[of "b div 10"] by (auto simp: dec_small dec_large)
  next
    assume "\<not> a < 10" "b < 10"
    then show ?thesis using "1.prems" dec_nonempty[of "a div 10"] by (auto simp: dec_small dec_large)
  next
    assume large: "\<not> a < 10" "\<not> b < 10"
    then have "dec (a div 10) = dec (b div 10)" "digit (a mod 10) = digit (b mod 10)"
      using "1.prems" by (simp_all add: dec_large)
    then have "a div 10 = b div 10" "a mod 10 = b mod 10" using "1.IH"[OF large(1)] digit_inj by simp_all
    then show ?thesis by (metis div_mult_mod_eq)
  qed
qed

lemma last_slash:
  "a @ CHR ''/'' # x = b @ CHR ''/'' # y \<Longrightarrow> CHR ''/'' \<notin> set x \<Longrightarrow> CHR ''/'' \<notin> set y \<Longrightarrow> a = b \<and> x = y"
proof (induction a arbitrary: b)
  case Nil
  then show ?case by (cases b) auto
next
  case (Cons c a)
  then show ?case by (cases b) auto
qed

lemma RoutingKey_inj [simp]: "RoutingKey h i = RoutingKey g j \<longleftrightarrow> h = g \<and> i = j"
  using last_slash[of h "dec i" g "dec j"] dec_no_slash[of i] dec_no_slash[of j] dec_inj[of i j] by (auto simp: RoutingKey_def)

end
