(* ===== verification/Tun_Names.thy ===== *)
theory Tun_Names
  imports Tun_Spec
begin

text \<open>
  The names that carry their own meaning: session aliases and ephemeral hostnames
  (\<^verbatim>\<open>spec/tun/session.go\<close>), delegation tokens (\<^verbatim>\<open>spec/tun/delegation.go\<close>) and certificate subjects
  (\<^verbatim>\<open>spec/pki/token.go\<close>). What is printed is parsed back, and nothing else is accepted.
\<close>

subsection \<open>Sessions\<close>

definition SessionAliasPrefix :: string where
  "SessionAliasPrefix = ''session:''"

definition EphemeralLabelPrefix :: string where
  "EphemeralLabelPrefix = ''e1-''"

definition IsSessionAlias :: "string \<Rightarrow> bool" where
  "IsSessionAlias addr \<longleftrightarrow>
     length addr = 40 \<and> HasPrefix addr SessionAliasPrefix \<and> lowerHex (drop (length SessionAliasPrefix) addr)"

definition SessionAlias :: "bytes \<Rightarrow> string" where
  "SessionAlias i = SessionAliasPrefix @ hex_encode i"

text \<open>\<open>sha256\<close> gives 32 bytes; the label and the first 16 bytes of the digest.\<close>

definition EphemeralLabel :: "(bytes \<Rightarrow> bytes) \<Rightarrow> u64 \<Rightarrow> bytes \<Rightarrow> error + string \<times> bytes" where
  "EphemeralLabel sha256 home spki =
     (if home \<ge> MaxIdentitifer then Inl (Opaque ''home ID exceeds 48 bits'')
      else
        let encoded = drop 2 (be64 home);
            i = take 16 (sha256 (''specter/ephemeral/v1'' @ [CHR 0x00] @ encoded @ spki))
        in Inr (EphemeralLabelPrefix @ hex_encode encoded @ hex_encode i, i))"

definition ParseEphemeralLabel :: "string \<Rightarrow> (u64 \<times> bytes) option" where
  "ParseEphemeralLabel label =
     (if length label \<noteq> 47 \<or> \<not> HasPrefix label EphemeralLabelPrefix \<or> \<not> lowerHex (drop 3 label) then None
      else
        let raw = hex_decode (drop 3 label);
            home = fold (\<lambda>b h. push_bit 8 h OR word_of_nat (code b)) (take 6 raw) 0
        in Some (home, drop 6 raw))"

lemma alias_IsSessionAlias: "length i = 16 \<Longrightarrow> IsSessionAlias (SessionAlias i)"
  by (simp add: IsSessionAlias_def SessionAlias_def SessionAliasPrefix_def HasPrefix_def)

lemma IsSessionAliasD: "IsSessionAlias a \<Longrightarrow> \<exists>i. length i = 16 \<and> a = SessionAlias i"
proof -
  assume a: "IsSessionAlias a"
  then obtain t where t: "a = SessionAliasPrefix @ t" "length t = 32" "lowerHex t"
    by (auto simp: IsSessionAlias_def HasPrefix_iff SessionAliasPrefix_def)
  then have h: "hex_encode (hex_decode t) = t" using hex_encode_decode by simp
  then have "length (hex_decode t) = 16" using length_hex[of "hex_decode t"] t(2) by simp
  then show ?thesis using t(1) h by (auto simp: SessionAlias_def intro: exI[of _ "hex_decode t"])
qed

lemma SessionAlias_inj: "SessionAlias a = SessionAlias b \<longleftrightarrow> a = b"
  by (simp add: SessionAlias_def hex_encode_inj)

text \<open>Shifting in the bytes of a 48-bit identifier, most significant first, gives it back.\<close>

lemma or_byte: "unat h < 2 ^ 56 \<Longrightarrow> b < 256 \<Longrightarrow> unat (push_bit 8 h OR word_of_nat b :: u64) = unat h * 256 + b"
proof -
  assume h: "unat h < 2 ^ 56" and b: "b < 256"
  have u: "unat (word_of_nat b :: u64) = b" using b by (simp add: unat_of_nat)
  have "\<not> bit (word_of_nat b :: u64) n" if "8 \<le> n" for n
  proof -
    have "bit (word_of_nat b :: u64) n \<longleftrightarrow> n < 64 \<and> bit b n" by (simp add: bit_of_nat_iff)
    moreover have "\<not> bit b n"
    proof -
      have "b < 2 ^ n" using b that power_increasing[of 8 n "2 :: nat"] by simp
      then show ?thesis by (simp add: bit_iff_odd)
    qed
    ultimately show ?thesis by simp
  qed
  then have "push_bit 8 h OR word_of_nat b = push_bit 8 h + (word_of_nat b :: u64)"
    by (intro disjunctive_add[symmetric]) (auto simp: bit_push_bit_iff not_le)
  moreover have "unat (push_bit 8 h :: u64) = unat h * 256" using h by (simp add: push_bit_eq_mult unat_word_ariths)
  ultimately show ?thesis using h b u by (simp add: unat_word_ariths)
qed

lemma byte_code: "code (byte_of (drop_bit m w)) = unat w div 2 ^ m mod 256"
proof -
  have "(v AND 255 :: u64) = take_bit 8 v" for v by (simp add: take_bit_eq_mask mask_eq_exp_minus_1)
  then have "unat (v AND 255 :: u64) = unat v mod 256" for v by (simp add: take_bit_eq_mod unat_mod)
  then have "unat (drop_bit m w AND 255) = drop_bit m (unat w) mod 256" by (simp only: unat_drop_bit_eq)
  then show ?thesis unfolding byte_of_def unat_drop_bit_eq drop_bit_eq_div by (simp add: code_def)
qed

lemma or_byte_step:
  "unat h = m \<Longrightarrow> m < 2 ^ 56 \<Longrightarrow> unat (push_bit 8 h OR word_of_nat (code b) :: u64) = m * 256 + code b"
  using or_byte[of h "code b"] by simp

lemma parse_home:
  assumes "home < MaxIdentitifer"
  shows "fold (\<lambda>b h. push_bit 8 h OR word_of_nat (code b)) (drop 2 (be64 home)) 0 = home"
proof -
  let ?n = "unat home" and ?b = "\<lambda>i. byte_of (drop_bit (8 * i) home)"
  have n: "?n < 2 ^ 48" using assms by (simp add: MaxIdentitifer_def MaxFingerEntries_def word_less_nat_alt)
  have c: "code (?b i) = ?n div 2 ^ (8 * i) mod 256" for i by (rule byte_code)
  have div: "?n div 2 ^ (8 * (i + 1)) * 256 + ?n div 2 ^ (8 * i) mod 256 = ?n div 2 ^ (8 * i)" for i
  proof -
    have "2 ^ (8 * (i + 1)) = (2 :: nat) ^ (8 * i) * 256" by (simp add: power_add)
    then have "?n div 2 ^ (8 * (i + 1)) = ?n div 2 ^ (8 * i) div 256" by (simp only: div_mult2_eq)
    then show ?thesis by simp
  qed
  have small: "?n div 2 ^ (8 * i) < 2 ^ 56" for i
    by (rule le_less_trans[OF div_le_dividend less_trans[OF n]]) simp
  define step where "step = (\<lambda>h i. push_bit 8 h OR word_of_nat (code (?b i)) :: u64)"
  have step: "unat (step h i) = ?n div 2 ^ (8 * i)" if "unat h = ?n div 2 ^ (8 * (i + 1))" for h i
    using or_byte_step[OF that, of "?b i"] small[of "i + 1"] div[of i] c[of i] by (simp add: step_def)
  have "?n div 2 ^ (8 * (5 + 1)) = 0" using n by simp
  then have "unat (step (step (step (step (step (step 0 5) 4) 3) 2) 1) 0) = ?n"
    using step[of 0 5] step[of "step 0 5" 4] step[of "step (step 0 5) 4" 3] step[of "step (step (step 0 5) 4) 3" 2]
      step[of "step (step (step (step 0 5) 4) 3) 2" 1] step[of "step (step (step (step (step 0 5) 4) 3) 2) 1" 0]
    by simp
  moreover have "fold (\<lambda>b h. push_bit 8 h OR word_of_nat (code b)) (drop 2 (be64 home)) 0 =
      step (step (step (step (step (step 0 5) 4) 3) 2) 1) 0"
    by (simp add: be64_def step_def)
  ultimately show ?thesis by (simp add: word_unat_eq_iff)
qed

lemma length_be64 [simp]: "length (be64 w) = 8"
  by (simp add: be64_def)

subsection \<open>Delegation tokens\<close>

text \<open>\<^verbatim>\<open>base64.RawURLEncoding\<close>: three bytes are four characters, without padding. The strict decoder
  refuses trailing bits that are not zero; every decoder skips line breaks.\<close>

definition base64url :: string where
  "base64url = ''ABCDEFGHIJKLMNOPQRSTUVWXYZabcdefghijklmnopqrstuvwxyz0123456789-_''"

definition enc6 :: "nat \<Rightarrow> char" where
  "enc6 n = base64url ! n"

definition dec6 :: "char \<Rightarrow> nat option" where
  "dec6 c = (let n = length (takeWhile (\<lambda>d. d \<noteq> c) base64url) in if n < 64 then Some n else None)"

fun b64_encode :: "bytes \<Rightarrow> string" where
  "b64_encode [] = []"
| "b64_encode [a] = [enc6 (code a div 4), enc6 (code a mod 4 * 16)]"
| "b64_encode [a, b] = [enc6 (code a div 4), enc6 (code a mod 4 * 16 + code b div 16), enc6 (code b mod 16 * 4)]"
| "b64_encode (a # b # c # s) =
     [enc6 (code a div 4), enc6 (code a mod 4 * 16 + code b div 16), enc6 (code b mod 16 * 4 + code c div 64), enc6 (code c mod 64)]
     @ b64_encode s"

fun b64_decode_strict :: "nat list \<Rightarrow> bytes option" where
  "b64_decode_strict [] = Some []"
| "b64_decode_strict [w] = None"
| "b64_decode_strict [w, x] = (if x mod 16 = 0 then Some [char_of (w * 4 + x div 16)] else None)"
| "b64_decode_strict [w, x, y] =
     (if y mod 4 = 0 then Some [char_of (w * 4 + x div 16), char_of (x mod 16 * 16 + y div 4)] else None)"
| "b64_decode_strict (w # x # y # z # s) =
     (case b64_decode_strict s of
        None \<Rightarrow> None
      | Some r \<Rightarrow> Some ([char_of (w * 4 + x div 16), char_of (x mod 16 * 16 + y div 4), char_of (y mod 4 * 64 + z)] @ r))"

definition b64_DecodeString :: "string \<Rightarrow> bytes option" where
  "b64_DecodeString s =
     (let digits = map dec6 (filter (\<lambda>c. c \<noteq> CHR 0x0A \<and> c \<noteq> CHR 0x0D) s)
      in if None \<in> set digits then None else b64_decode_strict (map the digits))"

definition DelegationTokenPrefix :: string where
  "DelegationTokenPrefix = ''tg1_''"

definition EncodeDelegationToken :: "bytes \<Rightarrow> string" where
  "EncodeDelegationToken secret = DelegationTokenPrefix @ b64_encode secret"

definition ParseDelegationToken :: "string \<Rightarrow> error + bytes" where
  "ParseDelegationToken token =
     (if length token \<noteq> 47 \<or> \<not> HasPrefix token DelegationTokenPrefix then Inl (Opaque ''invalid delegation token'')
      else case b64_DecodeString (drop 4 token) of
        None \<Rightarrow> Inl (Opaque ''invalid delegation token'')
      | Some raw \<Rightarrow> if length raw \<noteq> 32 then Inl (Opaque ''invalid delegation token'') else Inr raw)"

definition DelegationID :: "(bytes \<Rightarrow> bytes) \<Rightarrow> bytes \<Rightarrow> string" where
  "DelegationID sha256 secret = hex_encode (sha256 secret)"

definition IsDelegationID :: "string \<Rightarrow> bool" where
  "IsDelegationID i \<longleftrightarrow> length i = 64 \<and> lowerHex i"

lemma base64url_facts: "length base64url = 64" "distinct base64url" "CHR 0x0A \<notin> set base64url" "CHR 0x0D \<notin> set base64url"
  by (simp_all add: base64url_def)

lemma dec6_enc6 [simp]: "n < 64 \<Longrightarrow> dec6 (enc6 n) = Some n"
proof -
  assume n: "n < 64"
  have "takeWhile (\<lambda>d. d \<noteq> base64url ! n) base64url = take n base64url"
    using n base64url_facts(1,2) by (intro takeWhile_eq_take_P_nth) (auto simp: nth_eq_iff_index_eq)
  then show ?thesis using n base64url_facts(1) by (simp add: dec6_def enc6_def)
qed

lemma dec6_SomeD: "dec6 c = Some n \<Longrightarrow> n < 64 \<and> enc6 n = c"
proof -
  let ?w = "takeWhile (\<lambda>d. d \<noteq> c) base64url"
  assume "dec6 c = Some n"
  then have n: "n = length ?w" "n < 64" by (auto simp: dec6_def Let_def split: if_splits)
  then have "base64url ! n = c" using nth_length_takeWhile[of "\<lambda>d. d \<noteq> c" base64url] base64url_facts(1) by simp
  with n show ?thesis by (simp add: enc6_def)
qed

lemma enc6_no_break: "n < 64 \<Longrightarrow> enc6 n \<noteq> CHR 0x0A \<and> enc6 n \<noteq> CHR 0x0D"
  by (metis base64url_facts(1,3,4) enc6_def nth_mem)

text \<open>The values of the characters.\<close>

fun b64_values :: "bytes \<Rightarrow> nat list" where
  "b64_values [] = []"
| "b64_values [a] = [code a div 4, code a mod 4 * 16]"
| "b64_values [a, b] = [code a div 4, code a mod 4 * 16 + code b div 16, code b mod 16 * 4]"
| "b64_values (a # b # c # s) =
     [code a div 4, code a mod 4 * 16 + code b div 16, code b mod 16 * 4 + code c div 64, code c mod 64] @ b64_values s"

lemma code_div_less: "code a div 4 < 64" "code a div 16 < 16" "code a div 64 < 4"
  using code_less[of a] by (simp_all add: less_mult_imp_div_less)

lemma b64_values_less: "list_all (\<lambda>n. n < 64) (b64_values bs)"
proof (induction bs rule: b64_values.induct)
  case (2 a)
  have "code a mod 4 < 4" by simp
  then show ?case using code_div_less[of a] by simp
next
  case (3 a b)
  have "code a mod 4 * 16 + code b div 16 < 64" "code b mod 16 * 4 < 64"
    using code_div_less[of b] mod_less_divisor[of 4 "code a"] mod_less_divisor[of 16 "code b"] by linarith+
  then show ?case using code_div_less[of a] by simp
next
  case (4 a b c s)
  have "code a mod 4 * 16 + code b div 16 < 64" "code b mod 16 * 4 + code c div 64 < 64"
    using code_div_less[of b] code_div_less[of c] mod_less_divisor[of 4 "code a"] mod_less_divisor[of 16 "code b"] by linarith+
  then show ?case using code_div_less[of a] 4 by simp
qed simp

lemma b64_encode_values: "b64_encode bs = map enc6 (b64_values bs)"
  by (induction bs rule: b64_values.induct) simp_all

lemma b64_decode_values: "b64_decode_strict (b64_values bs) = Some bs"
proof (induction bs rule: b64_values.induct)
  case (2 a)
  have "code a mod 4 * 16 div 16 = code a mod 4" by simp
  moreover have "code a div 4 * 4 + code a mod 4 = code a" by (rule div_mult_mod_eq)
  ultimately show ?case by simp
next
  case (3 a b)
  have "(code a mod 4 * 16 + code b div 16) div 16 = code a mod 4" "(code a mod 4 * 16 + code b div 16) mod 16 = code b div 16"
    using code_div_less(2)[of b] by simp_all
  moreover have "code a div 4 * 4 + code a mod 4 = code a" "code b div 16 * 16 + code b mod 16 = code b"
    by (rule div_mult_mod_eq)+
  ultimately show ?case by simp
next
  case (4 a b c s)
  have "(code a mod 4 * 16 + code b div 16) div 16 = code a mod 4" "(code a mod 4 * 16 + code b div 16) mod 16 = code b div 16"
    "(code b mod 16 * 4 + code c div 64) div 4 = code b mod 16" "(code b mod 16 * 4 + code c div 64) mod 4 = code c div 64"
    using code_div_less(2)[of b] code_div_less(3)[of c] by simp_all
  moreover have "code a div 4 * 4 + code a mod 4 = code a" "code b div 16 * 16 + code b mod 16 = code b"
    "code c div 64 * 64 + code c mod 64 = code c"
    by (rule div_mult_mod_eq)+
  ultimately show ?case using 4 by simp
qed simp

lemma b64_values_decode:
  "b64_decode_strict ns = Some bs \<Longrightarrow> list_all (\<lambda>n. n < 64) ns \<Longrightarrow> b64_values bs = ns"
proof (induction ns arbitrary: bs rule: b64_decode_strict.induct)
  case (3 w x)
  then have "w * 4 + x div 16 < 256" "x div 16 < 4" "x mod 16 = 0" "bs = [char_of (w * 4 + x div 16)]" by (auto split: if_splits)
  moreover from this have "x div 16 * 16 = x" by (metis add.right_neutral div_mult_mod_eq)
  ultimately show ?case by simp
next
  case (4 w x y)
  then have *: "w * 4 + x div 16 < 256" "x mod 16 * 16 + y div 4 < 256" "x div 16 < 4" "y div 4 < 16" "y mod 4 = 0"
    "bs = [char_of (w * 4 + x div 16), char_of (x mod 16 * 16 + y div 4)]" by (auto split: if_splits)
  moreover from this have "y div 4 * 4 = y" "x div 16 * 16 + x mod 16 = x" by (metis add.right_neutral div_mult_mod_eq, simp)
  ultimately show ?case by simp
next
  case (5 w x y z s)
  then obtain r where r: "b64_decode_strict s = Some r" "b64_values r = s"
    "bs = [char_of (w * 4 + x div 16), char_of (x mod 16 * 16 + y div 4), char_of (y mod 4 * 64 + z)] @ r"
    by (auto split: option.splits)
  have "w < 64" "x < 64" "y < 64" "z < 64" using 5 by simp_all
  then have *: "w * 4 + x div 16 < 256" "x mod 16 * 16 + y div 4 < 256" "y mod 4 * 64 + z < 256" "x div 16 < 4" "y div 4 < 16"
    by (simp_all add: less_mult_imp_div_less)
  have "(w * 4 + x div 16) div 4 = w" "(w * 4 + x div 16) mod 4 = x div 16" "(x mod 16 * 16 + y div 4) div 16 = x mod 16"
    "(x mod 16 * 16 + y div 4) mod 16 = y div 4" "(y mod 4 * 64 + z) div 64 = y mod 4" "(y mod 4 * 64 + z) mod 64 = z"
    using * \<open>z < 64\<close> by simp_all
  moreover have "x div 16 * 16 + x mod 16 = x" "y div 4 * 4 + y mod 4 = y" by (rule div_mult_mod_eq)+
  ultimately show ?case using * r(2) unfolding r(3) by simp
qed auto

lemma the_dec6_enc6: "list_all (\<lambda>n. n < 64) ns \<Longrightarrow> map the (map dec6 (map enc6 ns)) = ns \<and> None \<notin> set (map dec6 (map enc6 ns))"
  by (induction ns) auto

lemma b64_roundtrip: "b64_DecodeString (b64_encode bs) = Some bs"
proof -
  have v: "list_all (\<lambda>n. n < 64) (b64_values bs)" by (rule b64_values_less)
  have "filter (\<lambda>c. c \<noteq> CHR 0x0A \<and> c \<noteq> CHR 0x0D) (map enc6 (b64_values bs)) = map enc6 (b64_values bs)"
    using v enc6_no_break by (intro filter_True) (auto simp: list_all_iff)
  then show ?thesis
    using the_dec6_enc6[OF v] b64_decode_values[of bs] by (simp only: b64_DecodeString_def b64_encode_values Let_def if_False simp_thms)
qed

lemma b64_canonical:
  assumes "b64_DecodeString s = Some bs"
  shows "b64_encode bs = filter (\<lambda>c. c \<noteq> CHR 0x0A \<and> c \<noteq> CHR 0x0D) s"
proof -
  define cs where "cs = filter (\<lambda>c. c \<noteq> CHR 0x0A \<and> c \<noteq> CHR 0x0D) s"
  have "(if None \<in> set (map dec6 cs) then None else b64_decode_strict (map the (map dec6 cs))) = Some bs"
    using assms unfolding b64_DecodeString_def Let_def cs_def .
  then have n: "None \<notin> set (map dec6 cs)" and d: "b64_decode_strict (map the (map dec6 cs)) = Some bs"
    by (meson option.distinct(1))+
  have each: "the (dec6 c) < 64" "enc6 (the (dec6 c)) = c" if "c \<in> set cs" for c
  proof -
    have "dec6 c \<noteq> None" using n that by (metis image_eqI set_map)
    then show "the (dec6 c) < 64" "enc6 (the (dec6 c)) = c" using dec6_SomeD by auto
  qed
  have less: "list_all (\<lambda>n. n < 64) (map the (map dec6 cs))" using each(1) by (simp add: list_all_iff)
  have "map enc6 (map the (map dec6 cs)) = cs" using each(2) by (simp add: map_idI)
  then show ?thesis using b64_values_decode[OF d less] by (simp only: b64_encode_values cs_def)
qed

lemma length_b64: "length (b64_encode bs) = (4 * length bs + 2) div 3"
  by (induction bs rule: b64_encode.induct) simp_all

subsection \<open>Certificate subjects\<close>

definition SplitN3 :: "string \<Rightarrow> string list" where
  "SplitN3 s =
     (let a = takeWhile (\<lambda>c. c \<noteq> CHR '':'') s; r = dropWhile (\<lambda>c. c \<noteq> CHR '':'') s
      in if r = [] then [a]
         else let b = takeWhile (\<lambda>c. c \<noteq> CHR '':'') (tl r); q = dropWhile (\<lambda>c. c \<noteq> CHR '':'') (tl r)
              in if q = [] then [a, b] else [a, b, tl q])"

definition is_digit :: "char \<Rightarrow> bool" where
  "is_digit c \<longleftrightarrow> 48 \<le> code c \<and> code c \<le> 57"

text \<open>\<^verbatim>\<open>strconv.ParseUint(s, 10, 64)\<close>.\<close>

definition ParseUint :: "string \<Rightarrow> u64 option" where
  "ParseUint s =
     (let n = foldl (\<lambda>n c. n * 10 + (code c - 48)) 0 s
      in if s = [] \<or> \<not> list_all is_digit s \<or> n \<ge> 2 ^ 64 then None else Some (word_of_nat n))"

datatype TokenVersion = TokenV1 | TokenV2

record Identity =
  id_Token :: bytes
  id_ID :: u64
  id_Version :: TokenVersion

definition NodeIdentity :: "Identity \<Rightarrow> Node" where
  "NodeIdentity n = \<lparr>nd_Id = id_ID n, nd_Address = id_Token n, nd_Unknown = False, nd_Rendezvous = True\<rparr>"

definition MakeSubjectV1 :: "u64 \<Rightarrow> string \<Rightarrow> string" where
  "MakeSubjectV1 i token = ''v1'' @ '':'' @ dec (unat i) @ '':'' @ token"

definition URLEncoding :: "bytes \<Rightarrow> string" where
  "URLEncoding bs = (let s = b64_encode bs in s @ replicate ((4 - length s mod 4) mod 4) CHR ''='')"

definition MakeSubjectV2 :: "u64 \<Rightarrow> bytes \<Rightarrow> string" where
  "MakeSubjectV2 i hash = ''v2'' @ '':'' @ dec (unat i) @ '':'' @ URLEncoding hash"

text \<open>The common name of the certificate. \<^verbatim>\<open>util.Must\<close> panics on a number that does not parse.\<close>

definition ExtractCertificateIdentity :: "string \<Rightarrow> (error + Identity) outcome" where
  "ExtractCertificateIdentity cn =
     (let parts = SplitN3 cn
      in if length parts \<noteq> 3 then Returns (Inl (Opaque ''pki: invalid subject format''))
         else if parts ! 0 = ''v1''
         then (case ParseUint (parts ! 1) of None \<Rightarrow> Panics
               | Some i \<Rightarrow> Returns (Inr \<lparr>id_Token = parts ! 2, id_ID = i, id_Version = TokenV1\<rparr>))
         else if parts ! 0 = ''v2''
         then (case ParseUint (parts ! 1) of None \<Rightarrow> Panics
               | Some i \<Rightarrow> Returns (Inr \<lparr>id_Token = cn, id_ID = i, id_Version = TokenV2\<rparr>))
         else Returns (Inl (Opaque ''pki: unknown subject in certificate'')))"

lemma dec_digits: "list_all is_digit (dec n)"
proof (induction n rule: dec.induct)
  case (1 n)
  then show ?case
    using digit_code[of n] digit_code[of "n mod 10"] by (cases "n < 10") (simp_all add: dec_small dec_large is_digit_def)
qed

lemma dec_value: "foldl (\<lambda>n c. n * 10 + (code c - 48)) 0 (dec n) = n"
proof (induction n rule: dec.induct)
  case (1 n)
  then show ?case by (cases "n < 10") (simp_all add: dec_small dec_large digit_code)
qed

lemma ParseUint_dec: "ParseUint (dec (unat i)) = Some i"
proof -
  have "unat i < 2 ^ 64" using unsigned_less[of i] by simp
  then show ?thesis by (simp add: ParseUint_def dec_value dec_digits dec_nonempty Let_def)
qed

lemma dec_no_colon: "c \<in> set (dec n) \<Longrightarrow> c \<noteq> CHR '':''"
proof -
  assume "c \<in> set (dec n)"
  then have "is_digit c" using dec_digits[of n] by (auto simp: list_all_iff)
  moreover have "code CHR '':'' = 58" by (simp add: code_def)
  ultimately show ?thesis by (auto simp: is_digit_def)
qed

lemma SplitN3_join:
  assumes "\<And>c. c \<in> set a \<Longrightarrow> c \<noteq> CHR '':''" "\<And>c. c \<in> set b \<Longrightarrow> c \<noteq> CHR '':''"
  shows "SplitN3 (a @ CHR '':'' # b @ CHR '':'' # r) = [a, b, r]"
  using assms by (simp add: SplitN3_def takeWhile_append2 dropWhile_append2)

lemma Extract_V1: "ExtractCertificateIdentity (MakeSubjectV1 i token) = Returns (Inr \<lparr>id_Token = token, id_ID = i, id_Version = TokenV1\<rparr>)"
proof -
  have "SplitN3 (MakeSubjectV1 i token) = [''v1'', dec (unat i), token]"
    using SplitN3_join[of "''v1''" "dec (unat i)" token, OF _ dec_no_colon[of _ "unat i"]] by (auto simp: MakeSubjectV1_def)
  then show ?thesis by (simp add: ExtractCertificateIdentity_def ParseUint_dec)
qed

lemma Extract_V2:
  "ExtractCertificateIdentity (MakeSubjectV2 i h) = Returns (Inr \<lparr>id_Token = MakeSubjectV2 i h, id_ID = i, id_Version = TokenV2\<rparr>)"
proof -
  have "SplitN3 (MakeSubjectV2 i h) = [''v2'', dec (unat i), URLEncoding h]"
    using SplitN3_join[of "''v2''" "dec (unat i)" "URLEncoding h", OF _ dec_no_colon[of _ "unat i"]] by (auto simp: MakeSubjectV2_def)
  then show ?thesis by (simp add: ExtractCertificateIdentity_def ParseUint_dec)
qed

subsection \<open>Properties\<close>

text \<open>C22: delegation tokens are canonical. A string is accepted as the token of a 32-byte secret exactly
  when it is the one string that encodes this secret: every minted token parses back, and no second
  spelling of it - other padding bits, line breaks, trailing characters - is accepted.\<close>

theorem delegation_token_canonical:
  "ParseDelegationToken t = Inr s \<longleftrightarrow> length s = 32 \<and> t = EncodeDelegationToken s"
proof
  let ?strip = "filter (\<lambda>c. c \<noteq> CHR 0x0A \<and> c \<noteq> CHR 0x0D)"
  assume p: "ParseDelegationToken t = Inr s"
  then have len: "length t = 47" and pre: "HasPrefix t DelegationTokenPrefix" and d: "b64_DecodeString (drop 4 t) = Some s" and s: "length s = 32"
    by (auto simp: ParseDelegationToken_def split: if_splits option.splits)
  have e: "b64_encode s = ?strip (drop 4 t)" by (rule b64_canonical[OF d])
  have "length (?strip (drop 4 t)) = length (drop 4 t)" using length_b64[of s] s len unfolding e[symmetric] by simp
  then have "?strip (drop 4 t) = drop 4 t" by (metis filter_id_conv length_filter_less less_irrefl)
  moreover have "t = DelegationTokenPrefix @ drop 4 t" using pre by (auto simp: HasPrefix_iff DelegationTokenPrefix_def)
  ultimately show "length s = 32 \<and> t = EncodeDelegationToken s" using s e by (simp add: EncodeDelegationToken_def)
next
  assume s: "length s = 32 \<and> t = EncodeDelegationToken s"
  then have "length (b64_encode s) = 43" by (simp add: length_b64)
  then show "ParseDelegationToken t = Inr s"
    using s b64_roundtrip[of s] by (simp add: ParseDelegationToken_def EncodeDelegationToken_def DelegationTokenPrefix_def HasPrefix_def)
qed

text \<open>C23: an ephemeral hostname names its home. The label handed to a client parses back to the
  identifier of the node that made it and to the bytes of the alias under which that node keeps the
  session, so every gateway finds the one node that holds the session.\<close>

theorem ephemeral_label_roundtrip:
  assumes "\<And>b. length (sha256 b) = 32" "EphemeralLabel sha256 home spki = Inr (label, i)"
  shows "ParseEphemeralLabel label = Some (home, i) \<and> IsSessionAlias (SessionAlias i) \<and> \<not> Contains label ''.''"
proof -
  have home: "home < MaxIdentitifer"
    and l: "label = EphemeralLabelPrefix @ hex_encode (drop 2 (be64 home) @ i)"
    and i: "length i = 16"
    using assms by (auto simp: EphemeralLabel_def Let_def hex_append split: if_splits)
  have "length label = 47" using i unfolding l by (simp add: EphemeralLabelPrefix_def)
  moreover have "drop 3 label = hex_encode (drop 2 (be64 home) @ i)" unfolding l by (simp add: EphemeralLabelPrefix_def)
  ultimately have "ParseEphemeralLabel label = Some (home, i)"
    using parse_home[OF home] unfolding ParseEphemeralLabel_def by (simp add: l)
  moreover have "CHR ''.'' \<notin> set label"
    using lowerHex_hex[of "drop 2 (be64 home) @ i"] unfolding l
    by (auto simp: EphemeralLabelPrefix_def lowerHex_def list_all_iff is_lower_hex_def code_def)
  then have "\<not> Contains label ''.''" by (simp add: Contains_single)
  ultimately show ?thesis using alias_IsSessionAlias[OF i] by blast
qed

theorem ephemeral_label_roundtrip_witness:
  "\<exists>label. EphemeralLabel (\<lambda>b. replicate 32 CHR ''x'') 7 ''key'' = Inr (label, replicate 16 CHR ''x'') \<and>
    ParseEphemeralLabel label = Some (7, replicate 16 CHR ''x'')"
proof -
  have "\<not> MaxIdentitifer \<le> (7 :: u64)" by (simp add: MaxIdentitifer_def MaxFingerEntries_def)
  then obtain label where "EphemeralLabel (\<lambda>b. replicate 32 CHR ''x'') 7 ''key'' = Inr (label, replicate 16 CHR ''x'')"
    by (simp add: EphemeralLabel_def Let_def)
  with ephemeral_label_roundtrip[OF _ this] show ?thesis by auto
qed

text \<open>C24: a certificate subject gives back the identity it was issued for, in both versions of the
  format: the client's identifier and its token, which in version 2 is the subject itself.\<close>

theorem certificate_identity_roundtrip:
  "ExtractCertificateIdentity (MakeSubjectV1 i token) = Returns (Inr \<lparr>id_Token = token, id_ID = i, id_Version = TokenV1\<rparr>) \<and>
   ExtractCertificateIdentity (MakeSubjectV2 i hash) =
     Returns (Inr \<lparr>id_Token = MakeSubjectV2 i hash, id_ID = i, id_Version = TokenV2\<rparr>)"
  using Extract_V1 Extract_V2 by blast

end
