(* ===== verification/Hashcash.thy ===== *)
theory Hashcash
  imports Tun_Names
begin

text \<open>
  Proof of work (\<^verbatim>\<open>util/hashcash\<close>, \<^verbatim>\<open>spec/pow\<close>): stamps with a number of leading zero bits in their
  SHA-256 digest. The digest and the signature scheme are parameters; times are nanoseconds, and the
  expiry of a stamp whole seconds, \<open>None\<close> the zero time.
\<close>

subsection \<open>Strings and numbers\<close>

fun split_parts :: "string \<Rightarrow> string list" where
  "split_parts [] = [[]]"
| "split_parts (c # s) = (if c = CHR '':'' then [] # split_parts s
     else case split_parts s of [] \<Rightarrow> [[c]] | p # ps \<Rightarrow> (c # p) # ps)"

fun join_parts :: "string list \<Rightarrow> string" where
  "join_parts [] = []"
| "join_parts [p] = p"
| "join_parts (p # q # ps) = p @ '':'' @ join_parts (q # ps)"

text \<open>\<^verbatim>\<open>strconv.ParseInt(s, 10, 64)\<close>, which is also \<^verbatim>\<open>strconv.Atoi\<close>.\<close>

definition ParseInt :: "string \<Rightarrow> int option" where
  "ParseInt s =
     (let neg = (s \<noteq> [] \<and> hd s = CHR ''-'');
          digits = (if s \<noteq> [] \<and> (hd s = CHR ''-'' \<or> hd s = CHR ''+'') then tl s else s);
          n = int (foldl (\<lambda>n c. n * 10 + (code c - 48)) 0 digits);
          v = (if neg then - n else n)
      in if digits = [] \<or> \<not> list_all is_digit digits \<or> v < - 9223372036854775808 \<or> v > MaxInt64 then None else Some v)"

definition FormatInt :: "int \<Rightarrow> string" where
  "FormatInt i = (if i < 0 then ''-'' @ dec (nat (- i)) else dec (nat i))"

text \<open>\<^verbatim>\<open>time.Unix(sec, 0)\<close> counts seconds from the year 1 in 64 bits and wraps.\<close>

definition time_Unix :: "int \<Rightarrow> int" where
  "time_Unix sec = (sec + 62135596800 + 9223372036854775808) mod 18446744073709551616 - 9223372036854775808 - 62135596800"

subsection \<open>Stamps\<close>

record Hashcash =
  hc_Tag :: string
  hc_Difficulty :: int
  hc_ExpiresAt :: "int option"
  hc_Subject :: string
  hc_Nonce :: string
  hc_Alg :: string
  hc_Solution :: string

definition MaxDifficulty :: int where
  "MaxDifficulty = 26"

text \<open>\<open>now\<close> is the clock in nanoseconds and \<open>rand\<close> the 16 random bytes.\<close>

definition hashcash_New :: "int \<Rightarrow> bytes \<Rightarrow> Hashcash \<Rightarrow> Hashcash" where
  "hashcash_New now rand h =
     h\<lparr>hc_Tag := ''H'',
       hc_Difficulty := (if hc_Difficulty h = 0 then 10 else hc_Difficulty h),
       hc_ExpiresAt := (case hc_ExpiresAt h of None \<Rightarrow> Some ((now + 300 * Second) div Second) | Some t \<Rightarrow> Some t),
       hc_Subject := (if hc_Subject h = [] then ''*'' else hc_Subject h),
       hc_Nonce := (if hc_Nonce h = [] then b64_encode rand else hc_Nonce h),
       hc_Alg := (if hc_Alg h = [] then ''SHA-256'' else hc_Alg h)\<rparr>"

datatype hashcash_err = ErrParse | ErrInvalidTag | ErrInvalidDifficulty | ErrInvalidDate | ErrExpired
  | ErrInvalidSubject | ErrUnsupportedAlgorithm | ErrInvalidSolution

fun hashcash_msg :: "hashcash_err \<Rightarrow> string" where
  "hashcash_msg ErrParse = ''could not split the hashcash parts''"
| "hashcash_msg ErrInvalidTag = ''expected tag to be '' @ [CHR 0x27, CHR ''H'', CHR 0x27]"
| "hashcash_msg ErrInvalidDifficulty = ''the number of bits of difficulty is too low or too high''"
| "hashcash_msg ErrInvalidDate = ''invalid date''"
| "hashcash_msg ErrExpired = ''expired hashcash''"
| "hashcash_msg ErrInvalidSubject = ''the subject is invalid or rejected''"
| "hashcash_msg ErrUnsupportedAlgorithm = ''the given algorithm is invalid or not supported''"
| "hashcash_msg ErrInvalidSolution = ''the given solution is not valid''"

definition Parse :: "string \<Rightarrow> hashcash_err + Hashcash" where
  "Parse hc =
     (let parts = split_parts hc; n = length parts
      in if n < 6 \<or> n > 7 then Inl ErrParse
         else if parts ! 0 \<noteq> ''H'' then Inl ErrInvalidTag
         else (case ParseInt (parts ! 1) of
                 None \<Rightarrow> Inl ErrInvalidDifficulty
               | Some bits \<Rightarrow>
                   if bits < 0 then Inl ErrInvalidDifficulty
                   else
                     let stamp = (\<lambda>exp. Inr \<lparr>hc_Tag = parts ! 0, hc_Difficulty = bits, hc_ExpiresAt = exp,
                           hc_Subject = parts ! 3, hc_Nonce = parts ! 4, hc_Alg = parts ! 5,
                           hc_Solution = (if n > 6 then parts ! 6 else [])\<rparr>)
                     in if parts ! 2 = [] then stamp None
                        else (case ParseInt (parts ! 2) of
                                None \<Rightarrow> Inl ErrInvalidDate
                              | Some expAt \<Rightarrow> if expAt < 0 then Inl ErrInvalidDate else stamp (Some (time_Unix expAt)))))"

definition hashcash_String :: "Hashcash \<Rightarrow> string" where
  "hashcash_String h =
     (let solution = (if hc_Solution h \<noteq> [] then '':'' @ hc_Solution h else []);
          expAt = (case hc_ExpiresAt h of None \<Rightarrow> [] | Some t \<Rightarrow> FormatInt t)
      in join_parts [''H'', FormatInt (hc_Difficulty h), expAt, hc_Subject h, hc_Nonce h, hc_Alg h] @ solution)"

text \<open>The loop of \<^verbatim>\<open>verifyBits\<close> over the first \<open>n\<close> bytes of the digest.\<close>

fun verify_loop :: "bytes \<Rightarrow> int \<Rightarrow> bool" where
  "verify_loop [] bits = False"
| "verify_loop (h # hash) bits =
     (if bits > 8 then (if code h \<noteq> 0 then False else verify_loop hash (bits - 8))
      else if drop_bit (nat (8 - bits)) (code h) = 0 then True
      else verify_loop hash bits)"

definition verifyBits :: "bytes \<Rightarrow> int \<Rightarrow> bool" where
  "verifyBits hash bits = (if bits = 0 then True else verify_loop hash bits)"

definition hash_bytes :: "int \<Rightarrow> nat" where
  "hash_bytes bits = nat (if bits mod 8 > 0 then bits div 8 + 1 else bits div 8)"

text \<open>Slicing the 32-byte digest at more bytes panics.\<close>

definition hashcash_Verify :: "(bytes \<Rightarrow> bytes) \<Rightarrow> int \<Rightarrow> Hashcash \<Rightarrow> string \<Rightarrow> hashcash_err option outcome" where
  "hashcash_Verify sha256 now h subject =
     (if hc_Difficulty h < 0 then Returns (Some ErrInvalidDifficulty)
      else if hc_Alg h \<noteq> ''SHA-256'' then Returns (Some ErrUnsupportedAlgorithm)
      else if (case hc_ExpiresAt h of None \<Rightarrow> False | Some t \<Rightarrow> t * Second < now) then Returns (Some ErrExpired)
      else if subject \<noteq> hc_Subject h then Returns (Some ErrInvalidSubject)
      else if hash_bytes (hc_Difficulty h) > 32 then Panics
      else if \<not> verifyBits (take (hash_bytes (hc_Difficulty h)) (sha256 (hashcash_String h))) (hc_Difficulty h)
      then Returns (Some ErrInvalidSolution)
      else Returns None)"

text \<open>\<^verbatim>\<open>LittleEndian.PutUint32\<close>.\<close>

definition le32 :: "32 word \<Rightarrow> bytes" where
  "le32 w = map (\<lambda>i. char_of (unat (drop_bit (8 * i) w) mod 256)) [0, 1, 2, 3]"

definition solves :: "(bytes \<Rightarrow> bytes) \<Rightarrow> string \<Rightarrow> int \<Rightarrow> 32 word \<Rightarrow> bool" where
  "solves sha256 hashcash bits solution \<longleftrightarrow>
     verifyBits (take (hash_bytes bits) (sha256 (hashcash @ '':'' @ b64_encode (le32 solution)))) bits"

text \<open>The search counts through the 32-bit numbers and wraps around; \<open>None\<close> is a search that does not
  end.\<close>

partial_function (option) solve_loop :: "(bytes \<Rightarrow> bytes) \<Rightarrow> string \<Rightarrow> int \<Rightarrow> 32 word \<Rightarrow> 32 word option" where
  "solve_loop sha256 hashcash bits solution =
     (if solves sha256 hashcash bits solution then Some solution else solve_loop sha256 hashcash bits (solution + 1))"

text \<open>The difficulty is bounded before \<^verbatim>\<open>Verify\<close> is called, which then does not panic.\<close>

definition Solve :: "(bytes \<Rightarrow> bytes) \<Rightarrow> int \<Rightarrow> Hashcash \<Rightarrow> int \<Rightarrow> (Hashcash \<times> hashcash_err option) option" where
  "Solve sha256 now h maxDifficulty =
     (if hc_Alg h \<noteq> ''SHA-256'' then Some (h, Some ErrUnsupportedAlgorithm)
      else if hc_Difficulty h < 0 then Some (h, Some ErrInvalidDifficulty)
      else if hc_Difficulty h > maxDifficulty \<or> hc_Difficulty h > MaxDifficulty then Some (h, Some ErrInvalidDifficulty)
      else if hc_Solution h \<noteq> [] \<and> hashcash_Verify sha256 now h (hc_Subject h) = Returns None then Some (h, None)
      else
        let h' = (if hc_Solution h \<noteq> [] then h\<lparr>hc_Solution := []\<rparr> else h)
        in map_option (\<lambda>s. (h'\<lparr>hc_Solution := b64_encode (le32 s)\<rparr>, None))
             (solve_loop sha256 (hashcash_String h') (hc_Difficulty h) 0))"

subsection \<open>Proofs of work\<close>

text \<open>\<^verbatim>\<open>time.Duration\<close> and \<^verbatim>\<open>int\<close> have 64 bits. Differences of times saturate; the absolute value of the least
  duration is the greatest one; products wrap.\<close>

type_synonym i64 = "64 word"

definition saturate :: "int \<Rightarrow> int" where
  "saturate d = max MinInt64 (min MaxInt64 d)"

definition Duration_Abs :: "int \<Rightarrow> int" where
  "Duration_Abs d = (if d = MinInt64 then MaxInt64 else \<bar>d\<bar>)"

record ProofOfWork =
  pw_PubKey :: bytes
  pw_Signature :: bytes
  pw_Solution :: string

record Parameters =
  pm_GetSubject :: "bytes \<Rightarrow> string"
  pm_Expires :: i64
  pm_Difficulty :: i64

definition InvalidArgumentError :: "string \<Rightarrow> string \<Rightarrow> error" where
  "InvalidArgumentError argument msg = Twirp InvalidArgument (argument @ '' '' @ msg) None"

text \<open>The result is the public key and the subject.\<close>

definition VerifySolution :: "(bytes \<Rightarrow> bytes) \<Rightarrow> (bytes \<Rightarrow> bytes \<Rightarrow> bytes \<Rightarrow> bool) \<Rightarrow> int \<Rightarrow> ProofOfWork \<Rightarrow>
    Parameters \<Rightarrow> (error + bytes \<times> string) outcome" where
  "VerifySolution sha256 ed25519_Verify now req p =
     (let invalid = (\<lambda>argument msg. Returns (Inl (InvalidArgumentError argument msg)))
      in if length (pw_PubKey req) \<noteq> 32 then invalid ''pub_key'' ''public key length is not ed25519''
         else if length (pw_Signature req) \<noteq> 64 then invalid ''signature'' ''signature length is not ed25519''
         else if pw_Solution req = [] then invalid ''solution'' ''is required''
         else if \<not> ed25519_Verify (pw_PubKey req) (pw_Solution req) (pw_Signature req)
         then invalid ''signature'' ''not a valid signature of solution by pub_key''
         else (case Parse (pw_Solution req) of
                 Inl e \<Rightarrow> invalid ''solution'' (hashcash_msg e)
               | Inr hc \<Rightarrow>
                   if hc_Difficulty hc \<noteq> sint (pm_Difficulty p)
                   then invalid ''solution'' ''solution the wrong difficulty''
                   else (case hc_ExpiresAt hc of
                           None \<Rightarrow> invalid ''solution'' ''solution cannot have zero-value expiresAt''
                         | Some t \<Rightarrow>
                             if Duration_Abs (saturate (now - t * Second)) > sint (pm_Expires p * 2)
                             then invalid ''solution'' ''solution expires too far away from now''
                             else
                               let subject = pm_GetSubject p (pw_PubKey req)
                               in (case hashcash_Verify sha256 now hc subject of
                                     Panics \<Rightarrow> Panics
                                   | Returns (Some e) \<Rightarrow> invalid ''solution'' (hashcash_msg e)
                                   | Returns None \<Rightarrow> Returns (Inr (pw_PubKey req, subject))))))"

text \<open>\<open>pub\<close> is the public half of the private key.\<close>

definition GenerateSolution :: "(bytes \<Rightarrow> bytes) \<Rightarrow> (bytes \<Rightarrow> bytes) \<Rightarrow> (bytes \<Rightarrow> bytes \<Rightarrow> bytes) \<Rightarrow> int \<Rightarrow> bytes \<Rightarrow> bytes \<Rightarrow>
    Parameters \<Rightarrow> (error + ProofOfWork) option" where
  "GenerateSolution sha256 pub ed25519_Sign now rand privKey p =
     (if length privKey \<noteq> 64 then Some (Inl (Opaque ''private key length is not ed25519''))
      else
        let hc = hashcash_New now rand
              \<lparr>hc_Tag = [], hc_Difficulty = sint (pm_Difficulty p), hc_ExpiresAt = Some ((now + sint (pm_Expires p)) div Second),
               hc_Subject = pm_GetSubject p (pub privKey), hc_Nonce = [], hc_Alg = [], hc_Solution = []\<rparr>
        in map_option (\<lambda>(hc', err).
             (case err of
                Some e \<Rightarrow> Inl (Opaque (hashcash_msg e))
              | None \<Rightarrow> Inr \<lparr>pw_PubKey = pub privKey, pw_Signature = ed25519_Sign privKey (hashcash_String hc'),
                  pw_Solution = hashcash_String hc'\<rparr>))
             (Solve sha256 now hc (sint (pm_Difficulty p))))"

subsection \<open>Parsing what was printed\<close>

definition no_colon :: "string \<Rightarrow> bool" where
  "no_colon s \<longleftrightarrow> CHR '':'' \<notin> set s"

lemma split_parts_no_colon: "no_colon s \<Longrightarrow> split_parts s = [s]"
  by (induction s) (auto simp: no_colon_def)

lemma split_parts_append: "no_colon s \<Longrightarrow> split_parts (s @ '':'' @ r) = s # split_parts r"
  by (induction s) (auto simp: no_colon_def)

lemma split_join_parts: "ps \<noteq> [] \<Longrightarrow> list_all no_colon ps \<Longrightarrow> split_parts (join_parts ps) = ps"
proof (induction ps rule: join_parts.induct)
  case (3 p q ps)
  then show ?case using split_parts_append[of p "join_parts (q # ps)"] by simp
qed (simp_all add: split_parts_no_colon)

lemma join_parts_snoc: "ps \<noteq> [] \<Longrightarrow> join_parts ps @ '':'' @ q = join_parts (ps @ [q])"
  by (induction ps rule: join_parts.induct) auto

lemma digit_not_sign: "is_digit c \<Longrightarrow> c \<noteq> CHR ''-'' \<and> c \<noteq> CHR ''+''"
proof -
  have "code CHR ''-'' = 45" "code CHR ''+'' = 43" by (simp_all add: code_def)
  then show "is_digit c \<Longrightarrow> ?thesis" by (auto simp: is_digit_def)
qed

lemma ParseInt_dec: "int n \<le> MaxInt64 \<Longrightarrow> ParseInt (dec n) = Some (int n)"
proof -
  assume n: "int n \<le> MaxInt64"
  have "is_digit (hd (dec n))" using dec_digits[of n] dec_nonempty[of n] by (metis hd_in_set list_all_iff)
  then have "hd (dec n) \<noteq> CHR ''-''" "hd (dec n) \<noteq> CHR ''+''" using digit_not_sign by simp_all
  then show ?thesis using n by (simp add: ParseInt_def dec_value dec_digits dec_nonempty Let_def)
qed

lemma no_colon_dec: "no_colon (dec n)"
  using dec_no_colon by (auto simp: no_colon_def)

lemma no_colon_b64: "no_colon (b64_encode bs)"
proof -
  have "CHR '':'' \<notin> set base64url" by (simp add: base64url_def)
  moreover have "set (map enc6 ns) \<subseteq> set base64url" if "list_all (\<lambda>n. n < 64) ns" for ns
    using that base64url_facts(1) by (auto simp: enc6_def list_all_iff)
  ultimately show ?thesis using b64_values_less[of bs] unfolding no_colon_def b64_encode_values by blast
qed

definition stamp_ok :: "Hashcash \<Rightarrow> bool" where
  "stamp_ok h \<longleftrightarrow> hc_Tag h = ''H'' \<and> 0 \<le> hc_Difficulty h \<and> hc_Difficulty h \<le> MaxInt64 \<and>
     (case hc_ExpiresAt h of None \<Rightarrow> True | Some t \<Rightarrow> 0 \<le> t \<and> t \<le> MaxInt64 - 62135596800) \<and>
     no_colon (hc_Subject h) \<and> no_colon (hc_Nonce h) \<and> no_colon (hc_Alg h) \<and> no_colon (hc_Solution h)"

lemma time_Unix_id: "0 \<le> t \<Longrightarrow> t \<le> MaxInt64 - 62135596800 \<Longrightarrow> time_Unix t = t"
  by (simp add: time_Unix_def MaxInt64_def)

lemma Parse_String: "stamp_ok h \<Longrightarrow> Parse (hashcash_String h) = Inr h"
proof -
  assume ok: "stamp_ok h"
  define e where "e = (case hc_ExpiresAt h of None \<Rightarrow> [] | Some t \<Rightarrow> FormatInt t)"
  let ?ps = "[''H'', FormatInt (hc_Difficulty h), e, hc_Subject h, hc_Nonce h, hc_Alg h]"
  let ?qs = "?ps @ (if hc_Solution h = [] then [] else [hc_Solution h])"
  have d: "FormatInt (hc_Difficulty h) = dec (nat (hc_Difficulty h))" using ok by (simp add: stamp_ok_def FormatInt_def)
  have e: "e = (case hc_ExpiresAt h of None \<Rightarrow> [] | Some t \<Rightarrow> dec (nat t))"
    using ok by (auto simp: e_def stamp_ok_def FormatInt_def split: option.splits)
  have "no_colon e" unfolding e by (auto simp: no_colon_dec no_colon_def[of "[]"] split: option.splits)
  moreover have "no_colon ''H''" by (simp add: no_colon_def)
  ultimately have "list_all no_colon ?qs" using ok d by (simp add: stamp_ok_def no_colon_dec)
  moreover have "hashcash_String h = join_parts ?qs"
    using join_parts_snoc[of ?ps "hc_Solution h"] by (simp add: hashcash_String_def e_def)
  ultimately have parts: "split_parts (hashcash_String h) = ?qs" using split_join_parts[of ?qs] by simp
  have "ParseInt (FormatInt (hc_Difficulty h)) = Some (hc_Difficulty h)"
    using ok ParseInt_dec[of "nat (hc_Difficulty h)"] d by (simp add: stamp_ok_def)
  moreover have "ParseInt e = Some t \<and> time_Unix t = t \<and> e \<noteq> []" if "hc_ExpiresAt h = Some t" for t
    using ok ParseInt_dec[of "nat t"] time_Unix_id[of t] dec_nonempty e that by (simp add: stamp_ok_def MaxInt64_def)
  ultimately show ?thesis
    using ok e unfolding Parse_def parts
    by (cases h; cases "hc_ExpiresAt h"; cases "hc_Solution h = []") (simp_all add: stamp_ok_def)
qed

subsection \<open>Leading zero bits\<close>

text \<open>Bit \<open>i\<close> of a digest, the most significant bit of its first byte being bit 0.\<close>

definition digest_bit :: "bytes \<Rightarrow> nat \<Rightarrow> bool" where
  "digest_bit hash i \<longleftrightarrow> bit (code (hash ! (i div 8))) (7 - i mod 8)"

lemma digest_bit_Cons: "digest_bit (h # hash) i \<longleftrightarrow> (if i < 8 then bit (code h) (7 - i) else digest_bit hash (i - 8))"
proof (cases "i < 8")
  case False
  then obtain j where "i = 8 + j" using le_Suc_ex not_less by blast
  moreover have "(8 + j) div 8 = Suc (j div 8)" by simp
  ultimately show ?thesis by (simp add: digest_bit_def)
qed (simp add: digest_bit_def)

lemma byte_high_zero: "c < 256 \<Longrightarrow> n \<le> 8 \<Longrightarrow> drop_bit (8 - n) c = 0 \<longleftrightarrow> (\<forall>i < n. \<not> bit c (7 - i))" for c :: nat
proof -
  assume c: "c < 256" and n: "n \<le> 8"
  have high: "\<not> bit c j" if "8 \<le> j" for j
  proof -
    have "c < 2 ^ j" using c that power_increasing[of 8 j "2 :: nat"] by simp
    then show ?thesis by (simp add: bit_iff_odd)
  qed
  have "drop_bit (8 - n) c = 0 \<longleftrightarrow> (\<forall>j. \<not> bit c (8 - n + j))" by (simp add: bit_eq_iff bit_drop_bit_eq)
  also have "\<dots> \<longleftrightarrow> (\<forall>i < n. \<not> bit c (7 - i))"
  proof
    assume a: "\<forall>j. \<not> bit c (8 - n + j)"
    show "\<forall>i < n. \<not> bit c (7 - i)"
    proof (intro allI impI)
      fix i assume "i < n"
      then have "7 - i = 8 - n + (n - 1 - i)" using n by simp
      then show "\<not> bit c (7 - i)" using a by metis
    qed
  next
    assume a: "\<forall>i < n. \<not> bit c (7 - i)"
    show "\<forall>j. \<not> bit c (8 - n + j)"
    proof
      fix j
      show "\<not> bit c (8 - n + j)"
      proof (cases "j < n")
        case True
        then have "8 - n + j = 7 - (n - 1 - j)" "n - 1 - j < n" using n by simp_all
        then show ?thesis using a by metis
      qed (use high n in simp)
    qed
  qed
  finally show ?thesis .
qed

lemma digest_zero_Cons:
  "(\<forall>i < n. \<not> digest_bit (h # hash) i) \<longleftrightarrow>
   (\<forall>i < min n 8. \<not> bit (code h) (7 - i)) \<and> (\<forall>i < n - 8. \<not> digest_bit hash i)" (is "?l \<longleftrightarrow> ?r")
proof
  assume l: ?l
  have "\<not> digest_bit hash i" if "i < n - 8" for i
    using l[rule_format, of "i + 8"] that unfolding digest_bit_Cons by simp
  moreover have "\<not> bit (code h) (7 - i)" if "i < min n 8" for i
    using l[rule_format, of i] that unfolding digest_bit_Cons by simp
  ultimately show ?r by blast
next
  assume r: ?r
  show ?l
  proof (intro allI impI)
    fix i assume "i < n"
    then show "\<not> digest_bit (h # hash) i" using r by (cases "i < 8") (simp_all add: digest_bit_Cons)
  qed
qed

lemma verify_loop_bits:
  "0 < bits \<Longrightarrow> hash_bytes bits \<le> length hash \<Longrightarrow>
   verify_loop (take (hash_bytes bits) hash) bits \<longleftrightarrow> (\<forall>i < nat bits. \<not> digest_bit hash i)"
proof (induction hash arbitrary: bits)
  case Nil
  then show ?case by (simp add: hash_bytes_def split: if_splits)
next
  case (Cons h hash)
  show ?case
  proof (cases "bits > 8")
    case True
    have n: "hash_bytes bits = Suc (hash_bytes (bits - 8))"
    proof -
      define b where "b = bits - 8"
      have "bits div 8 = b div 8 + 1" "bits mod 8 = b mod 8" "0 \<le> b div 8" using True by (simp_all add: b_def)
      then show ?thesis unfolding b_def[symmetric] hash_bytes_def by (simp add: nat_add_distrib)
    qed
    have "verify_loop (take (hash_bytes (bits - 8)) hash) (bits - 8) \<longleftrightarrow> (\<forall>i < nat (bits - 8). \<not> digest_bit hash i)"
      by (rule Cons.IH) (use True Cons.prems n in simp_all)
    moreover have "code h = 0 \<longleftrightarrow> (\<forall>i < 8. \<not> bit (code h) (7 - i))" using byte_high_zero[of "code h" 8] by simp
    moreover have "min (nat bits) 8 = 8" "nat bits - 8 = nat (bits - 8)" using True by simp_all
    ultimately show ?thesis unfolding n digest_zero_Cons using True by simp
  next
    case False
    then have n: "hash_bytes bits = 1" using Cons.prems by (cases "bits = 8") (simp_all add: hash_bytes_def)
    have "nat (8 - bits) = 8 - nat bits" "min (nat bits) 8 = nat bits" "nat bits - 8 = 0"
      using False Cons.prems by (simp_all add: nat_diff_distrib)
    then show ?thesis unfolding n digest_zero_Cons using False byte_high_zero[of "code h" "nat bits"] by simp
  qed
qed

lemma verifyBits_bits:
  "0 \<le> bits \<Longrightarrow> hash_bytes bits \<le> length hash \<Longrightarrow>
   verifyBits (take (hash_bytes bits) hash) bits \<longleftrightarrow> (\<forall>i < nat bits. \<not> digest_bit hash i)"
  using verify_loop_bits[of bits hash] by (cases "bits = 0") (simp_all add: verifyBits_def)

subsection \<open>The search\<close>

lemma solve_loop_sound: "solve_loop sha256 hc bits s = Some r \<Longrightarrow> solves sha256 hc bits r"
proof (rule solve_loop.raw_induct[of "\<lambda>sha256 hc bits s r. solves sha256 hc bits r"])
  fix solve_loop and sha256 :: "bytes \<Rightarrow> bytes" and hashcash bits solution y
  assume ih: "\<And>sha256 hashcash bits solution y. solve_loop sha256 hashcash bits solution = Some y \<Longrightarrow> solves sha256 hashcash bits y"
    and step: "(if solves sha256 hashcash bits solution then Some solution
      else solve_loop sha256 hashcash bits (solution + 1)) = Some y"
  show "solves sha256 hashcash bits y"
    by (cases "solves sha256 hashcash bits solution") (use step ih[of sha256 hashcash bits "solution + 1" y] in simp_all)
qed

text \<open>Counting up from any number reaches every number.\<close>

lemma solve_loop_returns: "solves sha256 hc bits (s + word_of_nat n) \<Longrightarrow> solve_loop sha256 hc bits s \<noteq> None"
proof (induction n arbitrary: s)
  case 0
  then show ?case by (subst solve_loop.simps) simp
next
  case (Suc n)
  have "s + word_of_nat (Suc n) = s + 1 + word_of_nat n" by simp
  then have "solve_loop sha256 hc bits (s + 1) \<noteq> None" using Suc by metis
  then show ?case by (subst solve_loop.simps) simp
qed

lemma solve_loop_iff: "solve_loop sha256 hc bits s \<noteq> None \<longleftrightarrow> (\<exists>r. solves sha256 hc bits r)"
proof
  assume "\<exists>r. solves sha256 hc bits r"
  then obtain r where "solves sha256 hc bits r" by blast
  moreover have "s + word_of_nat (unat (r - s)) = r" by simp
  ultimately show "solve_loop sha256 hc bits s \<noteq> None" using solve_loop_returns[of sha256 hc bits s "unat (r - s)"] by simp
next
  assume "solve_loop sha256 hc bits s \<noteq> None"
  then obtain r where "solve_loop sha256 hc bits s = Some r" by blast
  then show "\<exists>r. solves sha256 hc bits r" using solve_loop_sound by blast
qed

lemma hash_bytes_max: "bits \<le> MaxDifficulty \<Longrightarrow> hash_bytes bits \<le> 4"
proof -
  assume "bits \<le> MaxDifficulty"
  then have "bits div 8 \<le> 3" by (simp add: MaxDifficulty_def)
  then show ?thesis by (simp add: hash_bytes_def nat_le_iff)
qed

lemma String_solution:
  "s \<noteq> [] \<Longrightarrow> hashcash_String (h\<lparr>hc_Solution := s\<rparr>) = hashcash_String (h\<lparr>hc_Solution := []\<rparr>) @ '':'' @ s"
  by (simp add: hashcash_String_def Let_def)

lemma b64_le32: "b64_encode (le32 s) \<noteq> []"
proof -
  have "bs \<noteq> [] \<Longrightarrow> b64_encode bs \<noteq> []" for bs by (cases bs rule: b64_encode.cases) auto
  moreover have "le32 s \<noteq> []" unfolding le32_def by (simp only: list.map list.distinct not_False_eq_True)
  ultimately show ?thesis by blast
qed

definition solve_search :: "(bytes \<Rightarrow> bytes) \<Rightarrow> Hashcash \<Rightarrow> (Hashcash \<times> hashcash_err option) option" where
  "solve_search sha256 h =
     map_option (\<lambda>s. (h\<lparr>hc_Solution := b64_encode (le32 s)\<rparr>, None)) (solve_loop sha256 (hashcash_String h) (hc_Difficulty h) 0)"

lemma Solve_search:
  "hc_Solution h = [] \<Longrightarrow> Solve sha256 now h maxDifficulty =
     (if hc_Alg h \<noteq> ''SHA-256'' then Some (h, Some ErrUnsupportedAlgorithm)
      else if hc_Difficulty h < 0 then Some (h, Some ErrInvalidDifficulty)
      else if hc_Difficulty h > maxDifficulty \<or> hc_Difficulty h > MaxDifficulty then Some (h, Some ErrInvalidDifficulty)
      else solve_search sha256 h)"
  unfolding Solve_def solve_search_def Let_def by (simp only: simp_thms if_False)

lemma Solve_found:
  assumes "Solve sha256 now h maxDifficulty = Some (h', None)" "hc_Solution h = []"
  obtains s where "solves sha256 (hashcash_String h) (hc_Difficulty h) s" "h' = h\<lparr>hc_Solution := b64_encode (le32 s)\<rparr>"
    "hc_Alg h = ''SHA-256''" "0 \<le> hc_Difficulty h" "hc_Difficulty h \<le> MaxDifficulty"
proof -
  have guards: "hc_Alg h = ''SHA-256''" "\<not> hc_Difficulty h < 0"
      "\<not> (hc_Difficulty h > maxDifficulty \<or> hc_Difficulty h > MaxDifficulty)" and search: "solve_search sha256 h = Some (h', None)"
    using assms(1) unfolding Solve_search[OF assms(2)] by (auto split: if_split_asm)
  from search obtain s where "solve_loop sha256 (hashcash_String h) (hc_Difficulty h) 0 = Some s" "h' = h\<lparr>hc_Solution := b64_encode (le32 s)\<rparr>"
    unfolding solve_search_def by (cases "solve_loop sha256 (hashcash_String h) (hc_Difficulty h) 0") auto
  then show ?thesis using that[of s] solve_loop_sound guards by simp
qed

text \<open>A stamp without a solution that is solved verifies until it expires.\<close>

lemma Solve_verifies:
  assumes "Solve sha256 now h maxDifficulty = Some (h', None)" "hc_Solution h = []"
    and "\<And>t. hc_ExpiresAt h = Some t \<Longrightarrow> now' \<le> t * Second"
  shows "hashcash_Verify sha256 now' h' (hc_Subject h) = Returns None"
proof -
  obtain s where s: "solves sha256 (hashcash_String h) (hc_Difficulty h) s" and h': "h' = h\<lparr>hc_Solution := b64_encode (le32 s)\<rparr>"
    and guards: "hc_Alg h = ''SHA-256''" "0 \<le> hc_Difficulty h" "hc_Difficulty h \<le> MaxDifficulty"
    by (rule Solve_found[OF assms(1,2)])
  have "hashcash_String (h\<lparr>hc_Solution := []\<rparr>) = hashcash_String h" using assms(2) by (simp add: hashcash_String_def)
  then have "hashcash_String h' = hashcash_String h @ '':'' @ b64_encode (le32 s)"
    using String_solution[OF b64_le32[of s], of h] h' by (simp only:)
  then have "verifyBits (take (hash_bytes (hc_Difficulty h)) (sha256 (hashcash_String h'))) (hc_Difficulty h)"
    using s by (simp only: solves_def)
  moreover have "\<not> hash_bytes (hc_Difficulty h) > 32" using hash_bytes_max[OF guards(3)] by simp
  moreover have "\<not> (case hc_ExpiresAt h of None \<Rightarrow> False | Some t \<Rightarrow> t * Second < now')"
    using assms(3) by (cases "hc_ExpiresAt h") auto
  moreover have "hc_Difficulty h' = hc_Difficulty h" "hc_Alg h' = hc_Alg h" "hc_ExpiresAt h' = hc_ExpiresAt h" "hc_Subject h' = hc_Subject h"
    by (simp_all add: h')
  moreover have "\<not> hc_Difficulty h < 0" using guards(2) by simp
  ultimately show ?thesis unfolding hashcash_Verify_def by (simp only: guards(1) simp_thms if_False)
qed

lemma sint_double: "0 \<le> sint w \<Longrightarrow> sint w * 2 \<le> MaxInt64 \<Longrightarrow> sint (w * 2) = sint w * 2" for w :: i64
proof -
  assume w: "0 \<le> sint w" "sint w * 2 \<le> MaxInt64"
  have "sint (w * 2) = signed_take_bit 63 (sint w * 2)" by (simp add: sint_word_ariths)
  then show ?thesis using w by (simp add: signed_take_bit_int_eq_self MaxInt64_def)
qed

subsection \<open>Properties\<close>

text \<open>C27: the check of a stamp counts leading zero bits: what \<^verbatim>\<open>verifyBits\<close> accepts of the first bytes of a
  digest is exactly that its first \<open>bits\<close> bits are zero, also when the number is not a multiple of 8.\<close>

theorem verifyBits_leading_zeros:
  assumes "0 \<le> bits" "hash_bytes bits \<le> length hash"
  shows "verifyBits (take (hash_bytes bits) hash) bits \<longleftrightarrow> (\<forall>i < nat bits. \<not> digest_bit hash i)"
  by (rule verifyBits_bits[OF assms])

theorem verifyBits_leading_zeros_witness:
  "verifyBits (take (hash_bytes 2) [CHR ''?'']) 2 \<and> \<not> digest_bit [CHR ''?''] 0 \<and> \<not> digest_bit [CHR ''?''] 1"
proof -
  have l: "hash_bytes 2 \<le> length [CHR ''?'']" by (simp add: hash_bytes_def)
  have "verifyBits (take (hash_bytes 2) [CHR ''?'']) 2" by (simp add: hash_bytes_def verifyBits_def code_def drop_bit_eq_div)
  then have "\<forall>i < nat 2. \<not> digest_bit [CHR ''?''] i" using verifyBits_leading_zeros[OF _ l] by simp
  then show ?thesis using verifyBits_leading_zeros[OF _ l] by simp
qed

text \<open>C26: when the search for a stamp ends. For a stamp with the supported algorithm and an admissible
  difficulty, \<^verbatim>\<open>Solve\<close> returns - with a solved stamp - exactly when one of the 2^32 candidate solutions
  has the leading zero bits; otherwise the counter wraps around and the search never ends.\<close>

theorem Solve_terminates:
  assumes "hc_Solution h = []" "hc_Alg h = ''SHA-256''" "0 \<le> hc_Difficulty h" "hc_Difficulty h \<le> MaxDifficulty"
  shows "(\<exists>r. Solve sha256 now h MaxDifficulty = Some r) \<longleftrightarrow> (\<exists>s. solves sha256 (hashcash_String h) (hc_Difficulty h) s)"
proof -
  have "Solve sha256 now h MaxDifficulty = solve_search sha256 h"
    using assms(2-4) unfolding Solve_search[OF assms(1)] by simp
  then show ?thesis
    using solve_loop_iff[of sha256 "hashcash_String h" "hc_Difficulty h" 0] by (auto simp: solve_search_def)
qed

definition easy_stamp :: Hashcash where
  "easy_stamp = \<lparr>hc_Tag = ''H'', hc_Difficulty = 10, hc_ExpiresAt = Some 100, hc_Subject = ''a.b.c'', hc_Nonce = ''n'',
     hc_Alg = ''SHA-256'', hc_Solution = []\<rparr>"

lemma zero_digest: "solves (\<lambda>_. replicate 32 CHR 0x00) hc 10 0"
  by (simp add: solves_def hash_bytes_def verifyBits_def code_def numeral_eq_Suc)

theorem Solve_terminates_witness:
  "\<exists>r. Solve (\<lambda>_. replicate 32 CHR 0x00) 0 easy_stamp MaxDifficulty = Some r"
proof -
  have e: "hc_Solution easy_stamp = []" "hc_Alg easy_stamp = ''SHA-256''" "0 \<le> hc_Difficulty easy_stamp"
    "hc_Difficulty easy_stamp \<le> MaxDifficulty" "hc_Difficulty easy_stamp = 10"
    by (simp_all add: easy_stamp_def MaxDifficulty_def)
  show ?thesis using Solve_terminates[OF e(1-4)] zero_digest e(5) by metis
qed

text \<open>C25: an honest proof of work is accepted. What \<^verbatim>\<open>GenerateSolution\<close> produces passes \<^verbatim>\<open>VerifySolution\<close>
  with the same parameters from the moment it was made until it expires, and the verifier obtains the
  prover's key and subject. The subject is not empty and does not contain the separator, the
  difficulty is positive, the lifetime is not negative and twice the lifetime fits a \<^verbatim>\<open>time.Duration\<close>, and
  the expiry fits the seconds of a \<^verbatim>\<open>time.Time\<close>.\<close>

theorem proof_of_work_accepted:
  assumes sig: "\<And>m. ed25519_Verify (pub priv) m (ed25519_Sign priv m)" "\<And>m. length (ed25519_Sign priv m) = 64" "length (pub priv) = 32"
    and p: "0 < sint (pm_Difficulty p)" "0 \<le> sint (pm_Expires p)" "sint (pm_Expires p) * 2 \<le> MaxInt64"
      "no_colon (pm_GetSubject p (pub priv))" "pm_GetSubject p (pub priv) \<noteq> []"
    and gen: "GenerateSolution sha256 pub ed25519_Sign t0 rand priv p = Some (Inr w)"
    and t: "0 \<le> t0" "t0 \<le> t" "t \<le> (t0 + sint (pm_Expires p)) div Second * Second"
      "(t0 + sint (pm_Expires p)) div Second \<le> MaxInt64 - 62135596800"
  shows "VerifySolution sha256 ed25519_Verify t w p = Returns (Inr (pub priv, pm_GetSubject p (pub priv)))"
proof -
  let ?exp = "(t0 + sint (pm_Expires p)) div Second"
  define hc where "hc = hashcash_New t0 rand \<lparr>hc_Tag = [], hc_Difficulty = sint (pm_Difficulty p), hc_ExpiresAt = Some ?exp,
      hc_Subject = pm_GetSubject p (pub priv), hc_Nonce = [], hc_Alg = [], hc_Solution = []\<rparr>"
  have hc: "hc_Solution hc = []" "hc_ExpiresAt hc = Some ?exp" "hc_Difficulty hc = sint (pm_Difficulty p)"
    "hc_Subject hc = pm_GetSubject p (pub priv)" "hc_Tag hc = ''H''" "hc_Nonce hc = b64_encode rand" "hc_Alg hc = ''SHA-256''"
    using p(1,5) by (simp_all add: hc_def hashcash_New_def)
  obtain hc' where solve: "Solve sha256 t0 hc (sint (pm_Difficulty p)) = Some (hc', None)"
    and pf: "w = \<lparr>pw_PubKey = pub priv, pw_Signature = ed25519_Sign priv (hashcash_String hc'), pw_Solution = hashcash_String hc'\<rparr>"
    using gen unfolding GenerateSolution_def Let_def hc_def[symmetric]
    by (auto split: if_splits option.splits)
  obtain s where hc': "hc' = hc\<lparr>hc_Solution := b64_encode (le32 s)\<rparr>" and d: "hc_Difficulty hc \<le> MaxDifficulty"
    by (rule Solve_found[OF solve hc(1)])
  have "no_colon ''SHA-256''" by (simp add: no_colon_def)
  moreover have "0 \<le> ?exp" using t(1) p(2) by (simp add: Second_def)
  ultimately have "stamp_ok hc'"
    using hc p(1,4) t(4) d no_colon_b64 by (simp add: stamp_ok_def hc' MaxDifficulty_def MaxInt64_def)
  then have parse: "Parse (hashcash_String hc') = Inr hc'" by (rule Parse_String)
  have verify: "hashcash_Verify sha256 t hc' (pm_GetSubject p (pub priv)) = Returns None"
    using Solve_verifies[OF solve hc(1), of t] hc(2,4) t(3) by simp
  have "?exp * Second \<le> t0 + sint (pm_Expires p)" by (simp add: Second_def)
  then have "\<bar>t - ?exp * Second\<bar> \<le> sint (pm_Expires p) * 2" using t(2,3) p(2) by linarith
  moreover have "sint (pm_Expires p * 2) = sint (pm_Expires p) * 2"
    using p(2,3) by (intro sint_double) (simp_all add: MaxInt64_def)
  ultimately have "Duration_Abs (saturate (t - ?exp * Second)) \<le> sint (pm_Expires p * 2)"
    using p(3) by (auto simp: Duration_Abs_def saturate_def MinInt64_def MaxInt64_def)
  moreover have "hashcash_String hc' \<noteq> []" by (simp add: hashcash_String_def Let_def)
  moreover have "hc_Difficulty hc' = sint (pm_Difficulty p)" "hc_ExpiresAt hc' = Some ?exp" using hc by (simp_all add: hc')
  ultimately show ?thesis
    unfolding VerifySolution_def pf using sig parse verify by simp
qed

definition easy_pow :: Parameters where
  "easy_pow = \<lparr>pm_GetSubject = (\<lambda>_. ''a.b.c''), pm_Expires = 10000000000, pm_Difficulty = 10\<rparr>"

lemma easy_GenerateSolution:
  assumes "length k = 64"
  shows "\<exists>w. GenerateSolution (\<lambda>_. replicate 32 CHR 0x00) (take 32) sign 0 r k easy_pow = Some (Inr w)"
proof -
  define hc where "hc = hashcash_New 0 r \<lparr>hc_Tag = [], hc_Difficulty = sint (pm_Difficulty easy_pow),
      hc_ExpiresAt = Some ((0 + sint (pm_Expires easy_pow)) div Second), hc_Subject = pm_GetSubject easy_pow (take 32 k),
      hc_Nonce = [], hc_Alg = [], hc_Solution = []\<rparr>"
  have h: "hc_Solution hc = []" "hc_Alg hc = ''SHA-256''" "hc_Difficulty hc = 10" by (simp_all add: hc_def hashcash_New_def easy_pow_def)
  obtain s where "solve_loop (\<lambda>_. replicate 32 CHR 0x00) (hashcash_String hc) 10 0 = Some s"
    using solve_loop_iff zero_digest by (metis not_None_eq)
  then have "Solve (\<lambda>_. replicate 32 CHR 0x00) 0 hc 10 = Some (hc\<lparr>hc_Solution := b64_encode (le32 s)\<rparr>, None)"
    unfolding Solve_search[OF h(1)] solve_search_def h MaxDifficulty_def by simp
  moreover have "sint (pm_Difficulty easy_pow) = 10" by (simp add: easy_pow_def)
  ultimately show ?thesis unfolding GenerateSolution_def Let_def hc_def[symmetric] using assms by simp
qed

theorem proof_of_work_accepted_witness:
  "\<exists>w. GenerateSolution (\<lambda>_. replicate 32 CHR 0x00) (take 32) (\<lambda>k m. replicate 64 CHR ''s'') 0 ''r'' (replicate 64 CHR ''k'') easy_pow
      = Some (Inr w) \<and>
    VerifySolution (\<lambda>_. replicate 32 CHR 0x00) (\<lambda>k m s. True) 5 w easy_pow =
      Returns (Inr (take 32 (replicate 64 CHR ''k''), ''a.b.c''))"
proof -
  obtain w where gen: "GenerateSolution (\<lambda>_. replicate 32 CHR 0x00) (take 32) (\<lambda>k m. replicate 64 CHR ''s'') 0 ''r''
      (replicate 64 CHR ''k'') easy_pow = Some (Inr w)"
    using easy_GenerateSolution[of "replicate 64 CHR ''k''"] by (metis length_replicate)
  have e: "pm_GetSubject easy_pow b = ''a.b.c''" "sint (pm_Expires easy_pow) = 10000000000" "sint (pm_Difficulty easy_pow) = 10" for b
    by (simp_all add: easy_pow_def Second_def)
  have "VerifySolution (\<lambda>_. replicate 32 CHR 0x00) (\<lambda>k m s. True) 5 w easy_pow =
      Returns (Inr (take 32 (replicate 64 CHR ''k''), pm_GetSubject easy_pow (take 32 (replicate 64 CHR ''k''))))"
    by (rule proof_of_work_accepted[OF _ _ _ _ _ _ _ _ gen]) (simp_all add: e no_colon_def Second_def MaxInt64_def)
  with gen show ?thesis unfolding e by blast
qed

end
