(* ===== verification/Acme_Spec.thy ===== *)
theory Acme_Spec
  imports Hashcash
begin

text \<open>
  Hostnames that clients bring along (\<^verbatim>\<open>spec/acme\<close>): their normal form and the DNS record that proves
  control over them. Go ranges over the runes of a string, so the UTF-8 decoding of the language is
  part of the model; the certificate and IDNA libraries are parameters.
\<close>

subsection \<open>Runes\<close>

definition in_range :: "nat \<Rightarrow> nat \<Rightarrow> nat \<Rightarrow> bool" where
  "in_range lo hi b \<longleftrightarrow> lo \<le> b \<and> b \<le> hi"

text \<open>The rune at the head of a string and how many bytes after the first belong to it; a byte that
  starts no valid sequence counts as U+FFFD.\<close>

definition utf8_decode :: "nat \<Rightarrow> bytes \<Rightarrow> nat \<times> nat" where
  "utf8_decode b s =
     (let c = (\<lambda>i. if i < length s then code (s ! i) else 0); tail = in_range 128 191
      in if b < 128 then (b, 0)
         else if in_range 194 223 b \<and> tail (c 0) then ((b - 192) * 64 + (c 0 - 128), 1)
         else if in_range 224 239 b \<and> tail (c 0) \<and> tail (c 1) \<and> (b = 224 \<longrightarrow> 160 \<le> c 0) \<and> (b = 237 \<longrightarrow> c 0 \<le> 159)
         then ((b - 224) * 4096 + (c 0 - 128) * 64 + (c 1 - 128), 2)
         else if in_range 240 244 b \<and> tail (c 0) \<and> tail (c 1) \<and> tail (c 2) \<and> (b = 240 \<longrightarrow> 144 \<le> c 0) \<and> (b = 244 \<longrightarrow> c 0 \<le> 143)
         then ((b - 240) * 262144 + (c 0 - 128) * 4096 + (c 1 - 128) * 64 + (c 2 - 128), 3)
         else (65533, 0))"

fun runes :: "bytes \<Rightarrow> nat list" where
  "runes [] = []"
| "runes (b # s) = fst (utf8_decode (code b) s) # runes (drop (snd (utf8_decode (code b) s)) s)"

lemma utf8_decode_ascii [simp]: "b < 128 \<Longrightarrow> utf8_decode b s = (b, 0)"
  by (simp add: utf8_decode_def)

definition utf8_encode :: "nat \<Rightarrow> bytes" where
  "utf8_encode r =
     (if r < 128 then [char_of r]
      else if r < 2048 then [char_of (192 + r div 64), char_of (128 + r mod 64)]
      else if r < 65536 then [char_of (224 + r div 4096), char_of (128 + r div 64 mod 64), char_of (128 + r mod 64)]
      else [char_of (240 + r div 262144), char_of (128 + r div 4096 mod 64), char_of (128 + r div 64 mod 64), char_of (128 + r mod 64)])"

definition IsSpace :: "nat \<Rightarrow> bool" where
  "IsSpace r \<longleftrightarrow> in_range 9 13 r \<or> r \<in> {32, 133, 160, 5760, 8232, 8233, 8239, 8287, 12288} \<or> in_range 8192 8202 r"

definition IsControl :: "nat \<Rightarrow> bool" where
  "IsControl r \<longleftrightarrow> r < 32 \<or> in_range 127 159 r"

subsection \<open>Names\<close>

text \<open>\<^verbatim>\<open>strings.Split(s, ".")\<close>.\<close>

fun split_dots :: "string \<Rightarrow> string list" where
  "split_dots [] = [[]]"
| "split_dots (c # s) = (if c = CHR ''.'' then [] # split_dots s
     else case split_dots s of [] \<Rightarrow> [[c]] | p # ps \<Rightarrow> (c # p) # ps)"

record acme_env =
  ae_SubjectQualifies :: "string \<Rightarrow> bool"
  ae_ToASCII :: "string \<Rightarrow> error + string"
  ae_IsFqdn :: "string \<Rightarrow> bool"
  ae_sha224 :: "bytes \<Rightarrow> bytes"

definition removeSpace :: "string \<Rightarrow> string" where
  "removeSpace str = concat (map utf8_encode (filter (\<lambda>r. \<not> IsSpace r) (runes str)))"

text \<open>The complement of the class \<^verbatim>\<open>[^a-z0-9-.]\<close>.\<close>

definition dns_char :: "char \<Rightarrow> bool" where
  "dns_char c \<longleftrightarrow> in_range 97 122 (code c) \<or> in_range 48 57 (code c) \<or> c = CHR ''-'' \<or> c = CHR ''.''"

definition Normalize :: "acme_env \<Rightarrow> string \<Rightarrow> error + string" where
  "Normalize ae zone =
     (let trimmed = removeSpace zone
      in if \<not> ae_SubjectQualifies ae trimmed then Inl (Opaque ''acme: invalid zone for acme certificate'')
         else if Contains trimmed ''*'' then Inl (Opaque ''acme: wildcard zone is not supported'')
         else (case ae_ToASCII ae trimmed of
                 Inl e \<Rightarrow> Inl (Wrapped ''acme: error converting zone to ascii: '' e)
               | Inr uni \<Rightarrow>
                   if \<not> list_all dns_char uni then Inl (Opaque ''acme: zone contains invalid dns characters'')
                   else Inr uni))"

definition EncodeClientToken :: "acme_env \<Rightarrow> bytes \<Rightarrow> string" where
  "EncodeClientToken ae token = hex_encode (ae_sha224 ae token)"

definition generateRecord :: "acme_env \<Rightarrow> string \<Rightarrow> string \<Rightarrow> string \<Rightarrow> string \<times> string" where
  "generateRecord ae zone delegation subdomain =
     (''_acme-challenge.'' @ zone @ (if ae_IsFqdn ae zone then [] else ''.''),
      subdomain @ ''.'' @ delegation @ (if ae_IsFqdn ae delegation then [] else ''.''))"

definition GenerateManagedRecord :: "acme_env \<Rightarrow> string \<Rightarrow> string \<Rightarrow> string \<times> string" where
  "GenerateManagedRecord ae zone delegation = generateRecord ae zone delegation ''managed''"

definition GenerateCustomRecord :: "acme_env \<Rightarrow> string \<Rightarrow> string \<Rightarrow> bytes \<Rightarrow> string \<times> string" where
  "GenerateCustomRecord ae zone delegation token = generateRecord ae zone delegation (EncodeClientToken ae token)"

definition HashcashDifficulty :: i64 where
  "HashcashDifficulty = 18"

definition HashcashExpires :: i64 where
  "HashcashExpires = word_of_int (Second * 10)"

end
