(* ===== verification/Waf_Settings.thy ===== *)
theory Waf_Settings
  imports Acme_Spec "HOL-Library.Product_Lexorder" "HOL-Library.List_Lexorder" "HOL-Library.Char_ord"
begin

text \<open>
  The settings of the web application firewall (\<^verbatim>\<open>waf/settings.go\<close>): which settings and per-host
  policies are accepted, their normal form, and what they mean for a request. The JSON encoding of a
  message is a parameter.
\<close>

subsection \<open>Messages\<close>

datatype Mode = UNKNOWN_MODE | INHERIT | BLOCK | MONITOR | OFF | Other_Mode int

datatype Channel = UNKNOWN_CHANNEL | LTS | STABLE | Other_Channel int

record WAFExclusion =
  ex_RuleId :: nat
  ex_Path :: string

record WAFPolicy =
  po_Mode :: Mode
  po_Exclusions :: "WAFExclusion option list"

record WAFSettings =
  ws_Enabled :: bool
  ws_DefaultMode :: Mode
  ws_Channel :: Channel
  ws_PinnedVersion :: string

definition MaxExclusions :: nat where
  "MaxExclusions = 32"

definition MaxPolicyBytes :: nat where
  "MaxPolicyBytes = 48 * 1024"

definition DefaultSettings :: WAFSettings where
  "DefaultSettings = \<lparr>ws_Enabled = False, ws_DefaultMode = BLOCK, ws_Channel = LTS, ws_PinnedVersion = []\<rparr>"

text \<open>The regular expression \<^verbatim>\<open>^4\.[0-9]+\.[0-9]+$\<close> and the bounds of its numbers.\<close>

definition releaseVersion :: "string \<Rightarrow> bool" where
  "releaseVersion s \<longleftrightarrow>
     (case split_dots s of
        [a, b, c] \<Rightarrow> a = ''4'' \<and> b \<noteq> [] \<and> list_all is_digit b \<and> c \<noteq> [] \<and> list_all is_digit c
      | _ \<Rightarrow> False)"

definition validReleaseVersion :: "string \<Rightarrow> bool" where
  "validReleaseVersion version \<longleftrightarrow>
     length version \<le> 32 \<and> releaseVersion version \<and>
     list_all (\<lambda>part. (case ParseUint part of None \<Rightarrow> False | Some n \<Rightarrow> unat n < 2 ^ 32) \<and>
         \<not> (length part > 1 \<and> part ! 0 = CHR ''0'')) (split_dots version)"

definition ValidateSettings :: "WAFSettings option \<Rightarrow> error + WAFSettings" where
  "ValidateSettings s =
     (case s of
        None \<Rightarrow> Inl (Opaque ''settings are required'')
      | Some s \<Rightarrow>
          if ws_DefaultMode s \<noteq> BLOCK \<and> ws_DefaultMode s \<noteq> MONITOR then Inl (Opaque ''default_mode must be BLOCK or MONITOR'')
          else if ws_Channel s \<noteq> LTS \<and> ws_Channel s \<noteq> STABLE then Inl (Opaque ''channel must be LTS or STABLE'')
          else if ws_PinnedVersion s \<noteq> [] \<and> \<not> validReleaseVersion (ws_PinnedVersion s)
          then Inl (Opaque ''pinned_version must be a CRS 4 release, such as 4.25.2'')
          else Inr s)"

definition DefaultPolicy :: WAFPolicy where
  "DefaultPolicy = \<lparr>po_Mode = INHERIT, po_Exclusions = []\<rparr>"

definition bad_path :: "string \<Rightarrow> bool" where
  "bad_path path \<longleftrightarrow> length path > 1024 \<or> (path \<noteq> [] \<and> \<not> HasPrefix path ''/'') \<or>
     list_ex (\<lambda>c. c = CHR ''?'' \<or> c = CHR ''#'') path \<or> list_ex IsControl (runes path)"

text \<open>The loop over the exceptions, up to the first that is refused.\<close>

fun check_exclusions :: "WAFExclusion option list \<Rightarrow> error option" where
  "check_exclusions [] = None"
| "check_exclusions (e # es) =
     (case e of
        None \<Rightarrow> Some (Opaque ''rule_id must be a six-digit rule ID'')
      | Some e \<Rightarrow>
          if ex_RuleId e < 100000 \<or> ex_RuleId e > 999999 then Some (Opaque ''rule_id must be a six-digit rule ID'')
          else if bad_path (ex_Path e)
          then Some (Opaque ''path must be an exact URL path without a query or fragment, up to 1024 bytes'')
          else check_exclusions es)"

definition exclusion_key :: "WAFExclusion option \<Rightarrow> nat \<times> string" where
  "exclusion_key e = (case e of None \<Rightarrow> (0, []) | Some e \<Rightarrow> (ex_RuleId e, ex_Path e))"

text \<open>\<open>json\<close> is the JSON encoding of a policy. An exception is its rule and its path (fields
  unknown to the message type are not modelled), so that sorting and compacting with the comparison functions of the code is sorting by the
  key and dropping adjacent duplicates.\<close>

definition ValidatePolicy :: "(WAFPolicy \<Rightarrow> error + bytes) \<Rightarrow> WAFPolicy option \<Rightarrow> error + WAFPolicy" where
  "ValidatePolicy json p =
     (case p of
        None \<Rightarrow> Inl (Opaque ''policy is required'')
      | Some p \<Rightarrow>
          if po_Mode p \<notin> {INHERIT, BLOCK, MONITOR, OFF} then Inl (Opaque ''mode must be INHERIT, BLOCK, MONITOR, or OFF'')
          else if length (po_Exclusions p) > MaxExclusions then Inl (Opaque ''at most 32 rule exceptions are allowed'')
          else (case check_exclusions (po_Exclusions p) of
                  Some e \<Rightarrow> Inl e
                | None \<Rightarrow>
                    let p' = p\<lparr>po_Exclusions := remdups_adj (sort_key exclusion_key (po_Exclusions p))\<rparr>
                    in (case json p' of
                          Inl _ \<Rightarrow> Inl (Opaque ''rule exceptions exceed the 49152-byte policy limit'')
                        | Inr encoded \<Rightarrow>
                            if length encoded > MaxPolicyBytes then Inl (Opaque ''rule exceptions exceed the 49152-byte policy limit'')
                            else Inr p')))"

definition EffectiveMode :: "WAFPolicy \<Rightarrow> Mode \<Rightarrow> Mode" where
  "EffectiveMode p defaultMode = (if po_Mode p = INHERIT then defaultMode else po_Mode p)"

definition DisabledRules :: "WAFPolicy \<Rightarrow> string \<Rightarrow> nat list" where
  "DisabledRules p path =
     remdups_adj (sort (map (\<lambda>e. ex_RuleId (the e))
       (filter (\<lambda>e. ex_Path (the e) = [] \<or> ex_Path (the e) = path) (po_Exclusions p))))"

subsection \<open>Accepted policies\<close>

definition policy_ok :: "WAFPolicy \<Rightarrow> bool" where
  "policy_ok p \<longleftrightarrow> po_Mode p \<in> {INHERIT, BLOCK, MONITOR, OFF} \<and> length (po_Exclusions p) \<le> MaxExclusions \<and>
     (\<forall>e \<in> set (po_Exclusions p). \<exists>x. e = Some x \<and> 100000 \<le> ex_RuleId x \<and> ex_RuleId x \<le> 999999 \<and> \<not> bad_path (ex_Path x)) \<and>
     sorted_wrt (<) (map exclusion_key (po_Exclusions p))"

lemma check_exclusions_None:
  "check_exclusions es = None \<longleftrightarrow>
     (\<forall>e \<in> set es. \<exists>x. e = Some x \<and> 100000 \<le> ex_RuleId x \<and> ex_RuleId x \<le> 999999 \<and> \<not> bad_path (ex_Path x))"
proof (induction es)
  case (Cons e es)
  then show ?case by (cases e) auto
qed simp

lemma exclusion_key_inj:
  assumes "check_exclusions es = None"
  shows "inj_on exclusion_key (set es)"
proof (rule inj_onI)
  fix a b assume "a \<in> set es" "b \<in> set es" "exclusion_key a = exclusion_key b"
  moreover obtain x where "a = Some x" using assms \<open>a \<in> set es\<close> unfolding check_exclusions_None by blast
  moreover obtain y where "b = Some y" using assms \<open>b \<in> set es\<close> unfolding check_exclusions_None by blast
  ultimately show "a = b" by (simp add: exclusion_key_def)
qed

lemma remdups_adj_map_inj_on:
  "inj_on f (set xs) \<Longrightarrow> remdups_adj (map f xs) = map f (remdups_adj xs)"
proof (induction xs rule: remdups_adj.induct)
  case (3 x y xs)
  then have "f x = f y \<longleftrightarrow> x = y" by (intro inj_on_eq_iff[of f "set (x # y # xs)"]) auto
  then show ?case using 3 by (auto simp: inj_on_def)
qed simp_all

lemma sorted_remdups_adj_strict:
  fixes xs :: "'a :: linorder list"
  shows "sorted xs \<Longrightarrow> sorted_wrt (<) (remdups_adj xs)"
proof (induction xs rule: remdups_adj.induct)
  case (3 x y xs)
  then show ?case by (cases "x = y") (auto simp: order_less_le)
qed simp_all

lemma remdups_adj_sort_key:
  fixes f :: "'b \<Rightarrow> 'a :: linorder"
  assumes "inj_on f (set xs)"
  shows "sorted_wrt (<) (map f (remdups_adj (sort_key f xs)))"
  using assms sorted_remdups_adj_strict[of "map f (sort_key f xs)"] remdups_adj_map_inj_on[of f "sort_key f xs"]
  by simp

lemma length_remdups_adj_le: "length (remdups_adj xs) \<le> length xs"
  by (rule remdups_adj_length)

lemma ValidatePolicy_Inr:
  "ValidatePolicy json p = Inr q \<longleftrightarrow>
     (\<exists>p0 enc. p = Some p0 \<and> po_Mode p0 \<in> {INHERIT, BLOCK, MONITOR, OFF} \<and> length (po_Exclusions p0) \<le> MaxExclusions \<and>
        check_exclusions (po_Exclusions p0) = None \<and>
        q = p0\<lparr>po_Exclusions := remdups_adj (sort_key exclusion_key (po_Exclusions p0))\<rparr> \<and>
        json q = Inr enc \<and> length enc \<le> MaxPolicyBytes)"
  unfolding ValidatePolicy_def Let_def
  by (auto split: option.splits sum.splits if_splits)

lemma policy_ok_sorted:
  assumes "policy_ok q"
  shows "remdups_adj (sort_key exclusion_key (po_Exclusions q)) = po_Exclusions q"
proof -
  have s: "sorted_wrt (<) (map exclusion_key (po_Exclusions q))" using assms by (simp add: policy_ok_def)
  then have d: "distinct (map exclusion_key (po_Exclusions q))" "sorted (map exclusion_key (po_Exclusions q))"
    by (simp_all add: strict_sorted_iff)
  then have "sort_key exclusion_key (po_Exclusions q) = po_Exclusions q"
    by (intro sort_key_id_if_sorted) 
  moreover have "remdups_adj (po_Exclusions q) = po_Exclusions q"
    using d(1) by (simp add: distinct_map remdups_adj_distinct)
  ultimately show ?thesis by simp
qed

lemma ValidatePolicy_ok:
  assumes "ValidatePolicy json p = Inr q"
  shows "policy_ok q" "set (po_Exclusions q) = set (po_Exclusions (the p))" "po_Mode q = po_Mode (the p)"
proof -
  from assms obtain p0 where p0: "p = Some p0" "po_Mode p0 \<in> {INHERIT, BLOCK, MONITOR, OFF}"
      "length (po_Exclusions p0) \<le> MaxExclusions" "check_exclusions (po_Exclusions p0) = None"
      "q = p0\<lparr>po_Exclusions := remdups_adj (sort_key exclusion_key (po_Exclusions p0))\<rparr>"
    unfolding ValidatePolicy_Inr by blast
  show "set (po_Exclusions q) = set (po_Exclusions (the p))" "po_Mode q = po_Mode (the p)"
    using p0 by simp_all
  have "length (po_Exclusions q) \<le> MaxExclusions"
    using length_remdups_adj_le[of "sort_key exclusion_key (po_Exclusions p0)"] p0(3,5) by simp
  moreover have "sorted_wrt (<) (map exclusion_key (po_Exclusions q))"
    using remdups_adj_sort_key[OF exclusion_key_inj[OF p0(4)]] p0(5) by simp
  ultimately show "policy_ok q"
    using p0(2,5) p0(4)[unfolded check_exclusions_None] by (simp add: policy_ok_def)
qed

lemma remdups_adj_sort:
  fixes xs :: "'a :: linorder list"
  shows "remdups_adj (sort xs) = sorted_list_of_set (set xs)"
proof -
  have "sorted_wrt (<) (remdups_adj (sort xs))" by (rule sorted_remdups_adj_strict) simp
  then have "sorted_list_of_set (set (remdups_adj (sort xs))) = remdups_adj (sort xs)"
    by (intro sorted_list_of_set.idem_if_sorted_distinct) (simp_all only: strict_sorted_iff)
  then show ?thesis by simp
qed

lemma DisabledRules_set:
  "set (po_Exclusions p) = set (po_Exclusions q) \<Longrightarrow> DisabledRules p path = DisabledRules q path"
  unfolding DisabledRules_def remdups_adj_sort by simp

text \<open>C29: An accepted policy is in normal form: a known mode, at most 32 exceptions, every one a six-digit
  rule with an acceptable path, strictly ordered by rule and path and so without duplicates. Normalising
  keeps the mode in force under every default and the rules disabled at every path, and an accepted
  policy is accepted again unchanged.\<close>

theorem waf_policy_normal:
  assumes "ValidatePolicy json p = Inr q"
  shows "policy_ok q \<and> ValidatePolicy json (Some q) = Inr q \<and>
    (\<forall>m. EffectiveMode q m = EffectiveMode (the p) m) \<and>
    (\<forall>path. DisabledRules q path = DisabledRules (the p) path)"
proof -
  note ok = ValidatePolicy_ok[OF assms]
  from assms obtain enc where enc: "json q = Inr enc" "length enc \<le> MaxPolicyBytes"
    unfolding ValidatePolicy_Inr by blast
  have q: "check_exclusions (po_Exclusions q) = None" "po_Mode q \<in> {INHERIT, BLOCK, MONITOR, OFF}"
      "length (po_Exclusions q) \<le> MaxExclusions"
    using ok(1) unfolding policy_ok_def check_exclusions_None by blast+
  have "q = q\<lparr>po_Exclusions := remdups_adj (sort_key exclusion_key (po_Exclusions q))\<rparr>"
    by (simp only: policy_ok_sorted[OF ok(1)]) simp
  then have "ValidatePolicy json (Some q) = Inr q"
    unfolding ValidatePolicy_Inr by (intro exI[of _ q] exI[of _ enc] conjI refl q enc)
  then show ?thesis using ok DisabledRules_set[OF ok(2)] by (simp add: EffectiveMode_def)
qed

definition sample_policy :: WAFPolicy where
  "sample_policy = \<lparr>po_Mode = INHERIT,
     po_Exclusions = [Some \<lparr>ex_RuleId = 942100, ex_Path = ''/b''\<rparr>, Some \<lparr>ex_RuleId = 913100, ex_Path = []\<rparr>,
       Some \<lparr>ex_RuleId = 942100, ex_Path = ''/b''\<rparr>]\<rparr>"

lemma bad_path_sample: "\<not> bad_path ''/b''" "\<not> bad_path []"
  by (simp_all add: bad_path_def HasPrefix_def code_def IsControl_def in_range_def)

lemma sample_policy_accepted:
  "ValidatePolicy (\<lambda>p. Inr (concat (map (\<lambda>e. ex_Path (the e)) (po_Exclusions p)))) (Some sample_policy) =
     Inr \<lparr>po_Mode = INHERIT,
       po_Exclusions = [Some \<lparr>ex_RuleId = 913100, ex_Path = []\<rparr>, Some \<lparr>ex_RuleId = 942100, ex_Path = ''/b''\<rparr>]\<rparr>"
  by (simp add: ValidatePolicy_def sample_policy_def MaxExclusions_def MaxPolicyBytes_def exclusion_key_def
      bad_path_sample insort_key.simps)

theorem waf_policy_normal_witness:
  "policy_ok \<lparr>po_Mode = INHERIT,
     po_Exclusions = [Some \<lparr>ex_RuleId = 913100, ex_Path = []\<rparr>, Some \<lparr>ex_RuleId = 942100, ex_Path = ''/b''\<rparr>]\<rparr>"
  using waf_policy_normal[OF sample_policy_accepted] by (rule conjunct1)

end
