(* ===== verification/Config_Record.thy ===== *)
theory Config_Record
  imports Acme_Spec
begin

text \<open>
  Versioned configuration documents (\<^verbatim>\<open>config/record.go\<close>, \<^verbatim>\<open>config/codec.go\<close>): versions and their
  order, the binary and the textual form of a version, the token an editor presents, and the validation
  of one record and of a snapshot. SHA-256 is a parameter; \<^verbatim>\<open>encoding/json\<close> is modelled where the sources
  measure its output.
\<close>

subsection \<open>Versions\<close>

record Version =
  ve_Schema :: u64
  ve_Revision :: u64
  ve_Digest :: bytes

record Record =
  rc_Name :: string
  rc_Version :: Version
  rc_Value :: bytes

datatype config_error =
    ErrInvalidRecord string
  | ErrInvalidVersion
  | ErrTooLarge string
  | ErrConflict
  | ErrSchemaRegression
  | ErrRevisionExhausted
  | ErrNoInitialDocument
  | ErrExist
  | ErrUnsupportedFormat
  | ErrDatabase string
  | ErrDurabilityUncertain config_error
  | JoinedErrors config_error config_error

definition MaxNameBytes :: nat where
  "MaxNameBytes = 512"

definition MaxValueBytes :: nat where
  "MaxValueBytes = 256 * 1024"

definition MaxDocuments :: nat where
  "MaxDocuments = 4096"

definition MaxSnapshotBytes :: nat where
  "MaxSnapshotBytes = 8 * 1024 * 1024"

definition versionBytes :: nat where
  "versionBytes = 48"

definition version_bytes :: "Version \<Rightarrow> bytes" where
  "version_bytes v = be64 (ve_Schema v) @ be64 (ve_Revision v) @ ve_Digest v"

text \<open>\<^verbatim>\<open>binary.BigEndian.Uint64\<close> reads the first eight bytes.\<close>

definition be64_Uint64 :: "bytes \<Rightarrow> u64" where
  "be64_Uint64 bs = fold (\<lambda>b h. push_bit 8 h OR word_of_nat (code b)) (take 8 bs) 0"

definition decodeVersion :: "bytes \<Rightarrow> config_error + Version" where
  "decodeVersion bs =
     (if length bs \<noteq> versionBytes then Inl ErrInvalidVersion
      else let v = \<lparr>ve_Schema = be64_Uint64 bs, ve_Revision = be64_Uint64 (drop 8 bs), ve_Digest = drop 16 bs\<rparr>
           in if ve_Schema v = 0 \<or> ve_Revision v = 0 then Inl ErrInvalidVersion else Inr v)"

definition MarshalText :: "Version \<Rightarrow> string" where
  "MarshalText v = b64_encode (version_bytes v)"

definition UnmarshalText :: "string \<Rightarrow> config_error + Version" where
  "UnmarshalText s =
     (if length s \<noteq> (versionBytes * 8 + 5) div 6 then Inl ErrInvalidVersion
      else case b64_DecodeString s of None \<Rightarrow> Inl ErrInvalidVersion | Some decoded \<Rightarrow> decodeVersion decoded)"

subsection \<open>Records\<close>

text \<open>\<^verbatim>\<open>utf8.ValidString\<close>: every byte sequence is the encoding of a rune.\<close>

fun ValidString :: "bytes \<Rightarrow> bool" where
  "ValidString [] = True"
| "ValidString (b # s) =
     (let (r, n) = utf8_decode (code b) s in \<not> (code b \<ge> 128 \<and> n = 0) \<and> ValidString (drop n s))"

definition validName :: "string \<Rightarrow> bool" where
  "validName name \<longleftrightarrow>
     \<not> (length name = 0 \<or> length name > MaxNameBytes \<or> \<not> ValidString name) \<and>
     list_all (\<lambda>c. \<not> (IsControl c \<or> IsSpace c)) (runes name)"

definition record_Validate :: "(bytes \<Rightarrow> bytes) \<Rightarrow> Record \<Rightarrow> config_error option" where
  "record_Validate sha256 r =
     (if \<not> validName (rc_Name r) then Some (ErrInvalidRecord ''invalid document name'')
      else if ve_Schema (rc_Version r) = 0 \<or> ve_Revision (rc_Version r) = 0
      then Some (ErrInvalidRecord ''schema and revision must be positive'')
      else if length (rc_Value r) > MaxValueBytes then Some (ErrTooLarge (rc_Name r))
      else if ve_Digest (rc_Version r) \<noteq> sha256 (rc_Value r) then Some (ErrInvalidRecord ''digest mismatch'')
      else None)"

definition NewRecord :: "(bytes \<Rightarrow> bytes) \<Rightarrow> string \<Rightarrow> u64 \<Rightarrow> u64 \<Rightarrow> bytes \<Rightarrow> config_error + Record" where
  "NewRecord sha256 name schema revision value =
     (if length value > MaxValueBytes then Inl (ErrTooLarge [])
      else let r = \<lparr>rc_Name = name,
                    rc_Version = \<lparr>ve_Schema = schema, ve_Revision = revision, ve_Digest = sha256 value\<rparr>,
                    rc_Value = value\<rparr>
           in case record_Validate sha256 r of Some e \<Rightarrow> Inl e | None \<Rightarrow> Inr r)"

definition Token :: "Record \<Rightarrow> string" where
  "Token r = (if rc_Name r = [] then []
     else ''v1.'' @ b64_encode (rc_Name r) @ ''.'' @ MarshalText (rc_Version r))"

text \<open>\<^verbatim>\<open>cmp.Compare\<close>, \<^verbatim>\<open>bytes.Compare\<close> and the order of versions.\<close>

definition cmp_Compare :: "'a :: linorder \<Rightarrow> 'a \<Rightarrow> int" where
  "cmp_Compare a b = (if a < b then - 1 else if b < a then 1 else 0)"

definition version_compare :: "Version \<Rightarrow> Version \<Rightarrow> int" where
  "version_compare a b =
     (let c = cmp_Compare (ve_Schema a) (ve_Schema b)
      in if c \<noteq> 0 then c
         else let c = cmp_Compare (ve_Revision a) (ve_Revision b)
              in if c \<noteq> 0 then c else cmp_Compare (ve_Digest a) (ve_Digest b))"

text \<open>The decoder that is not strict ignores trailing bits.\<close>

definition b64_loose :: "nat list \<Rightarrow> nat list" where
  "b64_loose ds =
     (let n = length ds; k = n mod 4
      in if k = 2 then take (n - 1) ds @ [ds ! (n - 1) div 16 * 16]
         else if k = 3 then take (n - 1) ds @ [ds ! (n - 1) div 4 * 4]
         else ds)"

definition b64_DecodeLoose :: "string \<Rightarrow> bytes option" where
  "b64_DecodeLoose s =
     (let digits = map dec6 (filter (\<lambda>c. c \<noteq> CHR 0x0A \<and> c \<noteq> CHR 0x0D) s)
      in if None \<in> set digits then None else b64_decode_strict (b64_loose (map the digits)))"

definition CompareVersion :: "Record \<Rightarrow> string \<Rightarrow> config_error + int" where
  "CompareVersion r token =
     (if length token > 1024 then Inl ErrInvalidVersion
      else case split_dots token of
        [p0, p1, p2] \<Rightarrow>
          if p0 \<noteq> ''v1'' then Inl ErrInvalidVersion
          else (case b64_DecodeLoose p1 of
                  None \<Rightarrow> Inl ErrInvalidVersion
                | Some name \<Rightarrow>
                    if \<not> validName name \<or> name \<noteq> rc_Name r then Inl ErrInvalidVersion
                    else (case UnmarshalText p2 of
                            Inl _ \<Rightarrow> Inl ErrInvalidVersion
                          | Inr v \<Rightarrow>
                              if Token \<lparr>rc_Name = name, rc_Version = v, rc_Value = []\<rparr> \<noteq> token then Inl ErrInvalidVersion
                              else Inr (version_compare (rc_Version r) v)))
      | _ \<Rightarrow> Inl ErrInvalidVersion)"

subsection \<open>Snapshots\<close>

text \<open>\<^verbatim>\<open>json.Marshal\<close> of a string that is valid UTF-8 without control characters or line separators, as
  document names are: quotes, backslashes and the characters HTML gives a meaning are escaped.\<close>

definition json_escape :: "char \<Rightarrow> string" where
  "json_escape c =
     (if c = CHR 0x22 then [CHR 0x5C, CHR 0x22]
      else if c = CHR 0x5C then [CHR 0x5C, CHR 0x5C]
      else if c = CHR ''<'' then CHR 0x5C # ''u003c''
      else if c = CHR ''>'' then CHR 0x5C # ''u003e''
      else if c = CHR ''&'' then CHR 0x5C # ''u0026''
      else [c])"

definition json_string :: "string \<Rightarrow> string" where
  "json_string s = CHR 0x22 # concat (map json_escape s) @ [CHR 0x22]"

text \<open>A byte slice is its padded base64 text in the standard alphabet.\<close>

definition json_bytes :: "bytes \<Rightarrow> string" where
  "json_bytes bs =
     (let s = map (\<lambda>c. if c = CHR ''-'' then CHR ''+'' else if c = CHR ''_'' then CHR ''/'' else c) (b64_encode bs)
      in CHR 0x22 # s @ replicate ((4 - length s mod 4) mod 4) CHR ''='' @ [CHR 0x22])"

definition json_Record :: "Record \<Rightarrow> bytes" where
  "json_Record r =
     CHR 0x7B # json_string ''name'' @ '':'' @ json_string (rc_Name r) @ '','' @
     json_string ''version'' @ '':'' @ json_string (MarshalText (rc_Version r)) @
     (if rc_Value r = [] then [] else '','' @ json_string ''value'' @ '':'' @ json_bytes (rc_Value r)) @ [CHR 0x7D]"

fun json_list :: "bytes list \<Rightarrow> bytes" where
  "json_list [] = []"
| "json_list [r] = r"
| "json_list (r # q # rs) = r @ '','' @ json_list (q # rs)"

definition json_snapshot :: "Record list \<Rightarrow> bytes" where
  "json_snapshot rs =
     CHR 0x7B # json_string ''format'' @ '':1,'' @ json_string ''records'' @ '':['' @ json_list (map json_Record rs) @ '']'' @ [CHR 0x7D]"

text \<open>The loop of \<open>checkRecords\<close>: \<open>first\<close> holds at index 0.\<close>

fun check_loop :: "(bytes \<Rightarrow> bytes) \<Rightarrow> bool \<Rightarrow> nat \<Rightarrow> Record list \<Rightarrow> config_error option" where
  "check_loop sha256 first n [] = None"
| "check_loop sha256 first n (r # rs) =
     (case record_Validate sha256 r of
        Some e \<Rightarrow> Some e
      | None \<Rightarrow>
          let n' = n + length (json_Record r) + (if first then 0 else 1)
          in if n' > MaxSnapshotBytes then Some (ErrTooLarge ''snapshot'')
             else check_loop sha256 False n' rs)"

definition checkRecords :: "(bytes \<Rightarrow> bytes) \<Rightarrow> Record list \<Rightarrow> config_error option" where
  "checkRecords sha256 records =
     (if length records > MaxDocuments then Some (ErrTooLarge []) else check_loop sha256 True 25 records)"

definition EncodeSnapshot :: "(bytes \<Rightarrow> bytes) \<Rightarrow> Record list \<Rightarrow> config_error + bytes" where
  "EncodeSnapshot sha256 records =
     (case checkRecords sha256 records of Some e \<Rightarrow> Inl e | None \<Rightarrow> Inr (json_snapshot records))"

text \<open>\<open>unmarshal\<close> is the JSON decoder of a snapshot: the format and, unless absent, the records.\<close>

definition DecodeSnapshot ::
  "(bytes \<Rightarrow> bytes) \<Rightarrow> (bytes \<Rightarrow> config_error + u64 \<times> Record list option) \<Rightarrow> bytes \<Rightarrow> config_error + Record list" where
  "DecodeSnapshot sha256 unmarshal bs =
     (if length bs > MaxSnapshotBytes then Inl (ErrTooLarge [])
      else case unmarshal bs of
        Inl e \<Rightarrow> Inl e
      | Inr (format, records) \<Rightarrow>
          if format \<noteq> 1 then Inl ErrUnsupportedFormat
          else (case records of
                  None \<Rightarrow> Inl ErrUnsupportedFormat
                | Some rs \<Rightarrow> (case checkRecords sha256 rs of Some e \<Rightarrow> Inl e | None \<Rightarrow> Inr rs)))"

subsection \<open>Big-endian bytes\<close>

definition be_value :: "bytes \<Rightarrow> nat" where
  "be_value bs = foldl (\<lambda>h c. 256 * h + code c) 0 bs"

lemma foldl_be_value: "foldl (\<lambda>h c. 256 * h + code c) n bs = n * 256 ^ length bs + be_value bs"
proof -
  have "foldl (\<lambda>h c. 256 * h + code c) n bs = n * 256 ^ length bs + foldl (\<lambda>h c. 256 * h + code c) 0 bs"
  proof (induction bs arbitrary: n)
    case (Cons c bs)
    show ?case using Cons.IH[of "256 * n + code c"] Cons.IH[of "code c"] by (simp add: algebra_simps)
  qed simp
  then show ?thesis by (simp add: be_value_def)
qed

lemma be_value_Cons: "be_value (c # bs) = code c * 256 ^ length bs + be_value bs"
  using foldl_be_value[of "code c" bs] by (simp add: be_value_def)

lemma be_value_bound: "be_value bs < 256 ^ length bs"
proof (induction bs)
  case (Cons c bs)
  have "code c + 1 \<le> 256" by (simp add: code_def Suc_le_eq)
  then have "(code c + 1) * 256 ^ length bs \<le> 256 * 256 ^ length bs" by (rule mult_le_mono1)
  then have "code c * 256 ^ length bs + 256 ^ length bs \<le> 256 * 256 ^ length bs" by (simp only: add_mult_distrib mult_1)
  then show ?case using Cons by (simp only: be_value_Cons length_Cons power_Suc)
qed (simp add: be_value_def)

lemma char_less_code: "a < b \<longleftrightarrow> code a < code b"
  by (simp add: code_def less_char_def)

lemma be_value_less: "length a = length b \<Longrightarrow> a < b \<longleftrightarrow> be_value a < be_value b"
proof (induction a b rule: list_induct2)
  case (Cons x xs y ys)
  have l: "be_value xs < 256 ^ length xs" "be_value ys < 256 ^ length xs"
    using be_value_bound[of xs] be_value_bound[of ys] Cons.hyps by simp_all
  have "code x * 256 ^ length xs + be_value xs < code y * 256 ^ length xs + be_value ys" if "code x < code y"
    using mult_le_mono1[of "code x + 1" "code y" "256 ^ length xs"] l that by simp
  moreover have "\<not> code x * 256 ^ length xs + be_value xs < code y * 256 ^ length xs + be_value ys" if "code y < code x"
    using mult_le_mono1[of "code y + 1" "code x" "256 ^ length xs"] l that by simp
  ultimately show ?case
    using Cons by (cases "code x" "code y" rule: linorder_cases) (auto simp: be_value_Cons char_less_code, auto simp: code_def)
qed (simp add: be_value_def)

lemma digit_bound: "h < n \<Longrightarrow> c < 256 \<Longrightarrow> h * 256 + c < n * (256 :: nat)"
  by simp

lemma be_value_inj: "length a = length b \<Longrightarrow> be_value a = be_value b \<Longrightarrow> a = b"
  using be_value_less[of a b] be_value_less[of b a] by (metis linorder_neq_iff)

lemma be_value_be64: "be_value (be64 w) = unat w"
proof -
  have c: "code (byte_of (drop_bit m w)) = unat w div 2 ^ m mod 256" for m by (rule byte_code)
  have n: "unat w < 2 ^ 64" using unsigned_less[of w] by simp
  have d: "unat w div 2 ^ m mod 256 + 256 * (unat w div 2 ^ (m + 8)) = unat w div 2 ^ m" for m
  proof -
    have "unat w div 2 ^ (m + 8) = unat w div 2 ^ m div 256" by (simp add: power_add div_mult2_eq)
    then show ?thesis by simp
  qed
  have z: "unat w div 2 ^ 64 = 0" using n by simp
  have b: "code (byte_of w) = unat w mod 256" using c[of 0] by simp
  have e: "be_value (be64 w) = 256 * (256 * (256 * (256 * (256 * (256 * (256 *
      (unat w div 2 ^ 56 mod 256) + unat w div 2 ^ 48 mod 256) + unat w div 2 ^ 40 mod 256) +
      unat w div 2 ^ 32 mod 256) + unat w div 2 ^ 24 mod 256) + unat w div 2 ^ 16 mod 256) +
      unat w div 2 ^ 8 mod 256) + unat w div 2 ^ 0 mod 256"
    by (simp add: be_value_def be64_def c b)
  have d': "256 * (unat w div 2 ^ (m + 8)) + unat w div 2 ^ m mod 256 = unat w div 2 ^ m" for m
    using d[of m] by simp
  have t: "unat w div 2 ^ 56 mod 256 = unat w div 2 ^ 56" using d'[of 56] z by simp
  show ?thesis
    using d'[of 0] d'[of 8] d'[of 16] d'[of 24] d'[of 32] d'[of 40] d'[of 48]
    unfolding e t add_0 numeral_plus_numeral add_num_simps by (simp only: power_0 div_by_1)
qed

lemma be64_less [simp]: "be64 a < be64 b \<longleftrightarrow> a < b"
  by (simp add: be_value_less be_value_be64 word_less_nat_alt)

lemma be64_eq [simp]: "be64 a = be64 b \<longleftrightarrow> a = b"
  by (metis be_value_be64 word_unat_eq_iff)

lemma fold_be_value:
  "length bs + k \<le> 8 \<Longrightarrow> unat h < 256 ^ k \<Longrightarrow>
     unat (fold (\<lambda>b h. push_bit 8 h OR word_of_nat (code b)) bs h :: u64) = unat h * 256 ^ length bs + be_value bs"
proof (induction bs arbitrary: h k)
  case (Cons b bs)
  have k: "k \<le> 7" using Cons.prems(1) by simp
  then have "(256 :: nat) ^ k \<le> 256 ^ 7" by (intro power_increasing) simp_all
  then have "unat h < 2 ^ 56" using Cons.prems(2) by simp
  then have s: "unat (push_bit 8 h OR word_of_nat (code b) :: u64) = unat h * 256 + code b"
    by (intro or_byte_step) simp_all
  moreover have "unat h * 256 + code b < 256 ^ (k + 1)"
    using code_less[of b] Cons.prems(2) unfolding power_add power_one_right by (rule digit_bound[rotated])
  ultimately have "unat (fold (\<lambda>b h. push_bit 8 h OR word_of_nat (code b)) bs (push_bit 8 h OR word_of_nat (code b)) :: u64) =
      (unat h * 256 + code b) * 256 ^ length bs + be_value bs"
    using Cons.IH[of "k + 1" "push_bit 8 h OR word_of_nat (code b)"] Cons.prems(1) by simp
  then show ?case by (simp add: be_value_Cons algebra_simps)
qed (simp add: be_value_def)

lemma unat_be64_Uint64: "length bs = 8 \<Longrightarrow> unat (be64_Uint64 (bs @ r)) = be_value bs"
  using fold_be_value[of bs 0 0] by (simp add: be64_Uint64_def)

lemma be64_Uint64_be64 [simp]: "be64_Uint64 (be64 w @ r) = w"
  using unat_be64_Uint64[of "be64 w" r] by (simp add: be_value_be64 word_unat_eq_iff)

lemma be64_be64_Uint64: "length bs = 8 \<Longrightarrow> be64 (be64_Uint64 (bs @ r)) = bs"
  by (rule be_value_inj) (simp_all add: be_value_be64 unat_be64_Uint64)

subsection \<open>The order and the encodings of versions\<close>

definition version_ok :: "Version \<Rightarrow> bool" where
  "version_ok v \<longleftrightarrow> ve_Schema v \<noteq> 0 \<and> ve_Revision v \<noteq> 0 \<and> length (ve_Digest v) = 32"

lemma append_less:
  fixes a b :: "'a :: linorder list"
  shows "length a = length b \<Longrightarrow> a @ c < b @ d \<longleftrightarrow> a < b \<or> a = b \<and> c < d"
  by (induction a b rule: list_induct2) auto

lemma version_bytes_less:
  "version_bytes v < version_bytes w \<longleftrightarrow>
     ve_Schema v < ve_Schema w \<or> ve_Schema v = ve_Schema w \<and>
       (ve_Revision v < ve_Revision w \<or> ve_Revision v = ve_Revision w \<and> ve_Digest v < ve_Digest w)"
  by (simp add: version_bytes_def append_less)

lemma compare_lexicographic:
  fixes a a' b b' :: "'a :: linorder" and c c' :: "'b :: linorder"
  shows "(if cmp_Compare a a' \<noteq> 0 then cmp_Compare a a'
      else if cmp_Compare b b' \<noteq> 0 then cmp_Compare b b' else cmp_Compare c c') =
    (if a < a' \<or> a = a' \<and> (b < b' \<or> b = b' \<and> c < c') then - 1
     else if a' < a \<or> a' = a \<and> (b' < b \<or> b' = b \<and> c' < c) then 1 else 0)"
proof (cases a a' rule: linorder_cases)
  case equal
  then show ?thesis
    by (cases b b' rule: linorder_cases) (simp_all add: cmp_Compare_def)
next
  case greater
  then have "\<not> a < a'" "a \<noteq> a'" by auto
  then show ?thesis using greater by (simp add: cmp_Compare_def)
qed (simp add: cmp_Compare_def)

lemma version_compare_bytes:
  "version_compare v w = cmp_Compare (version_bytes v) (version_bytes w)"
  unfolding version_compare_def Let_def compare_lexicographic
  by (simp only: cmp_Compare_def[of "version_bytes v"] version_bytes_less)

lemma version_bytes_inj: "version_bytes v = version_bytes w \<longleftrightarrow> v = w"
proof
  assume "version_bytes v = version_bytes w"
  then show "v = w" by (intro Version.equality) (simp_all add: version_bytes_def)
qed simp

lemma decode_version_bytes: "version_ok v \<Longrightarrow> decodeVersion (version_bytes v) = Inr v"
  by (simp add: decodeVersion_def version_bytes_def version_ok_def versionBytes_def)

lemma version_bytes_decode:
  assumes "decodeVersion bs = Inr v"
  shows "version_bytes v = bs" "version_ok v"
proof -
  from assms have l: "length bs = 48"
    and v: "v = \<lparr>ve_Schema = be64_Uint64 bs, ve_Revision = be64_Uint64 (drop 8 bs), ve_Digest = drop 16 bs\<rparr>"
    and z: "be64_Uint64 bs \<noteq> 0" "be64_Uint64 (drop 8 bs) \<noteq> 0"
    by (auto simp: decodeVersion_def versionBytes_def Let_def split: if_splits)
  have "be64 (be64_Uint64 bs) = take 8 bs" using be64_be64_Uint64[of "take 8 bs" "drop 8 bs"] l by simp
  moreover have "be64 (be64_Uint64 (drop 8 bs)) = take 8 (drop 8 bs)"
    using be64_be64_Uint64[of "take 8 (drop 8 bs)" "drop 16 bs"] l append_take_drop_id[of 8 "drop 8 bs"] by simp
  ultimately show "version_bytes v = bs"
    using append_take_drop_id[of 8 bs] append_take_drop_id[of 8 "drop 8 bs"] by (simp add: version_bytes_def v)
  show "version_ok v" using l z by (simp add: version_ok_def v)
qed

lemma unmarshal_marshal: "version_ok v \<Longrightarrow> UnmarshalText (MarshalText v) = Inr v"
proof -
  assume v: "version_ok v"
  then have "length (version_bytes v) = 48" by (simp add: version_bytes_def version_ok_def)
  then show ?thesis
    by (simp add: UnmarshalText_def MarshalText_def length_b64 versionBytes_def b64_roundtrip decode_version_bytes[OF v])
qed

lemma filter_same_length: "length (filter P xs) = length xs \<Longrightarrow> filter P xs = xs"
  by (metis filter_id_conv length_filter_less less_irrefl)

lemma marshal_unmarshal:
  assumes "UnmarshalText s = Inr v"
  shows "MarshalText v = s" "version_ok v"
proof -
  from assms obtain bs where l: "length s = 64" and d: "b64_DecodeString s = Some bs" and v: "decodeVersion bs = Inr v"
    by (auto simp: UnmarshalText_def versionBytes_def split: if_splits option.splits)
  note b = version_bytes_decode[OF v]
  have "length bs = 48" using v by (auto simp: decodeVersion_def versionBytes_def split: if_splits)
  then have "length (b64_encode bs) = length s" using l by (simp add: length_b64)
  then show "MarshalText v = s"
    unfolding MarshalText_def b(1) b64_canonical[OF d] by (rule filter_same_length)
  show "version_ok v" by (rule b(2))
qed

end
