(* ===== verification/Config_Store.thy ===== *)
theory Config_Store
  imports Config_Record
begin

text \<open>
  The replicated configuration store (\<^verbatim>\<open>config/store.go\<close>, \<^verbatim>\<open>config/sqlite.go\<close>, the exchange of
  \<^verbatim>\<open>config/sync.go\<close> and the reads of \<^verbatim>\<open>config/rpc.go\<close>). The database is its one table, in the order of the
  primary key; every way a database call can fail is an argument.
\<close>

subsection \<open>The documents table\<close>

text \<open>A row is the value and the encoded version; the types and the length of the version are enforced
  by the table's declaration.\<close>

type_synonym documents = "(string, bytes \<times> bytes) omap"

definition scanRecord :: "(bytes \<Rightarrow> bytes) \<Rightarrow> string \<times> bytes \<times> bytes \<Rightarrow> config_error + Record" where
  "scanRecord sha256 row =
     (case row of (name, value, encodedVersion) \<Rightarrow>
        case decodeVersion encodedVersion of
          Inl e \<Rightarrow> Inl e
        | Inr version \<Rightarrow>
            let r = \<lparr>rc_Name = name, rc_Version = version, rc_Value = value\<rparr>
            in case record_Validate sha256 r of Some e \<Rightarrow> Inl e | None \<Rightarrow> Inr r)"

definition readRecord :: "(bytes \<Rightarrow> bytes) \<Rightarrow> documents \<Rightarrow> string \<Rightarrow> config_error + Record option" where
  "readRecord sha256 docs name =
     (case map_of docs name of
        None \<Rightarrow> Inr None
      | Some row \<Rightarrow> (case scanRecord sha256 (name, row) of Inl e \<Rightarrow> Inl e | Inr r \<Rightarrow> Inr (Some r)))"

fun read_loop :: "(bytes \<Rightarrow> bytes) \<Rightarrow> Record list \<Rightarrow> nat \<Rightarrow> documents \<Rightarrow> config_error + Record list" where
  "read_loop sha256 records n [] = Inr records"
| "read_loop sha256 records n (row # rows) =
     (if length records = MaxDocuments then Inl (ErrTooLarge [])
      else case scanRecord sha256 row of
        Inl e \<Rightarrow> Inl e
      | Inr r \<Rightarrow>
          let n' = n + length (json_Record r) + (if length records \<noteq> 0 then 1 else 0)
          in if n' > MaxSnapshotBytes then Inl (ErrTooLarge [])
             else read_loop sha256 (records @ [r]) n' rows)"

definition readRecords :: "(bytes \<Rightarrow> bytes) \<Rightarrow> documents \<Rightarrow> config_error + Record list" where
  "readRecords sha256 docs = read_loop sha256 [] 25 docs"

text \<open>The insertion with its conflict clause, and whether a row was affected.\<close>

definition upsert :: "Record \<Rightarrow> documents \<Rightarrow> documents \<times> bool" where
  "upsert r docs =
     (let row = (rc_Value r, version_bytes (rc_Version r))
      in case map_of docs (rc_Name r) of
           None \<Rightarrow> (om_store (rc_Name r) row docs, True)
         | Some (_, version) \<Rightarrow>
             if snd row > version then (om_store (rc_Name r) row docs, True) else (docs, False))"

text \<open>\<open>fault\<close> tells whether the statement fails, and at which record.\<close>

fun writeRecords :: "(nat \<times> config_error) option \<Rightarrow> Record list \<Rightarrow> documents \<Rightarrow> documents \<times> (config_error + bool)" where
  "writeRecords (Some (0, e)) records docs = (docs, Inl e)"
| "writeRecords fault [] docs = (docs, Inr False)"
| "writeRecords fault (r # rs) docs =
     (let (docs', count) = upsert r docs;
          fault' = (case fault of None \<Rightarrow> None | Some (i, e) \<Rightarrow> Some (i - 1, e));
          (docs'', rest) = writeRecords fault' rs docs'
      in (docs'', case rest of Inl e \<Rightarrow> Inl e | Inr changed \<Rightarrow> Inr (count \<or> changed)))"

subsection \<open>The store\<close>

text \<open>The failures of the calls an operation makes: taking a connection, beginning the transaction, reading
  the replica, the query of the change itself, a statement, reading the replica again, rolling back, and
  committing.\<close>

record db_faults =
  df_Conn :: "config_error option"
  df_Begin :: "config_error option"
  df_Query :: "config_error option"
  df_Lookup :: "config_error option"
  df_Exec :: "(nat \<times> config_error) option"
  df_Requery :: "config_error option"
  df_Rollback :: "config_error option"
  df_Commit :: "(config_error \<times> bool) option"

definition no_faults :: db_faults where
  "no_faults = \<lparr>df_Conn = None, df_Begin = None, df_Query = None, df_Lookup = None, df_Exec = None, df_Requery = None,
     df_Rollback = None, df_Commit = None\<rparr>"

definition queried :: "config_error option \<Rightarrow> config_error + 'a \<Rightarrow> config_error + 'a" where
  "queried fault r = (case fault of Some e \<Rightarrow> Inl e | None \<Rightarrow> r)"

lemma queried_no_faults [simp]:
  "queried (df_Query no_faults) r = r" "queried (df_Lookup no_faults) r = r" "queried (df_Requery no_faults) r = r"
  by (simp_all add: queried_def no_faults_def)

text \<open>A transaction. When the commit reports an error it may have taken effect or not.\<close>

definition Store_write :: "(bytes \<Rightarrow> bytes) \<Rightarrow> db_faults \<Rightarrow> (documents \<Rightarrow> documents \<times> (config_error + bool)) \<Rightarrow>
    documents \<Rightarrow> documents \<times> config_error option" where
  "Store_write sha256 f change docs =
     (case df_Conn f of Some e \<Rightarrow> (docs, Some e) | None \<Rightarrow>
      case df_Begin f of Some e \<Rightarrow> (docs, Some (ErrDurabilityUncertain e)) | None \<Rightarrow>
        let (docs', changed) =
              (case queried (df_Query f) (readRecords sha256 docs) of
                 Inl e \<Rightarrow> (docs, Inl e)
               | Inr _ \<Rightarrow> change docs);
            result = (if changed = Inr True
                      then (case queried (df_Requery f) (readRecords sha256 docs') of Inl e \<Rightarrow> Inl e | Inr _ \<Rightarrow> Inr True)
                      else changed)
        in case result of
             Inl e \<Rightarrow>
               (case df_Rollback f of
                  Some e' \<Rightarrow> (docs, Some (ErrDurabilityUncertain (JoinedErrors e e')))
                | None \<Rightarrow> (docs, Some e))
           | Inr False \<Rightarrow>
               (case df_Rollback f of
                  Some e' \<Rightarrow> (docs, Some (ErrDurabilityUncertain e'))
                | None \<Rightarrow> (docs, None))
           | Inr True \<Rightarrow>
               (case df_Commit f of
                  Some (e, landed) \<Rightarrow> (if landed then docs' else docs, Some (ErrDurabilityUncertain e))
                | None \<Rightarrow> (docs', None)))"

definition Store_Get :: "(bytes \<Rightarrow> bytes) \<Rightarrow> db_faults \<Rightarrow> documents \<Rightarrow> string \<Rightarrow> config_error + Record option" where
  "Store_Get sha256 f docs name =
     (case df_Conn f of Some e \<Rightarrow> Inl e | None \<Rightarrow>
      case queried (df_Query f) (readRecord sha256 docs name) of
        Inl e \<Rightarrow> Inl (ErrDurabilityUncertain e)
      | Inr r \<Rightarrow> Inr r)"

definition Snapshot :: "(bytes \<Rightarrow> bytes) \<Rightarrow> db_faults \<Rightarrow> documents \<Rightarrow> config_error + Record list" where
  "Snapshot sha256 f docs =
     (case df_Conn f of Some e \<Rightarrow> Inl e | None \<Rightarrow>
      case queried (df_Query f) (readRecords sha256 docs) of
        Inl e \<Rightarrow> Inl (ErrDurabilityUncertain e)
      | Inr rs \<Rightarrow> Inr rs)"

text \<open>The record a \<^verbatim>\<open>Put\<close> writes, from what the transaction reads.\<close>

definition record_Token :: "Record option \<Rightarrow> string" where
  "record_Token r = (case r of None \<Rightarrow> [] | Some r \<Rightarrow> Token r)"

definition put_record ::
  "(bytes \<Rightarrow> bytes) \<Rightarrow> documents \<Rightarrow> string \<Rightarrow> u64 \<Rightarrow> bytes \<Rightarrow> string \<Rightarrow> config_error + Record" where
  "put_record sha256 docs name schema value expectedToken =
     (case readRecord sha256 docs name of
        Inl e \<Rightarrow> Inl e
      | Inr current \<Rightarrow>
          if record_Token current \<noteq> expectedToken then Inl ErrConflict
          else (case current of
                  None \<Rightarrow> NewRecord sha256 name schema 1 value
                | Some c \<Rightarrow>
                    if schema < ve_Schema (rc_Version c) then Inl ErrSchemaRegression
                    else if ve_Revision (rc_Version c) = - 1 then Inl ErrRevisionExhausted
                    else NewRecord sha256 name schema (ve_Revision (rc_Version c) + 1) value))"

definition Store_Put :: "(bytes \<Rightarrow> bytes) \<Rightarrow> db_faults \<Rightarrow> documents \<Rightarrow> string \<Rightarrow> u64 \<Rightarrow> bytes \<Rightarrow> string \<Rightarrow>
    documents \<times> (config_error + Record)" where
  "Store_Put sha256 f docs name schema value expectedToken =
     (let change = (\<lambda>docs. case queried (df_Lookup f) (put_record sha256 docs name schema value expectedToken) of
                              Inl e \<Rightarrow> (docs, Inl e)
                            | Inr r \<Rightarrow> writeRecords (df_Exec f) [r] docs)
      in case Store_write sha256 f change docs of
           (docs', Some e) \<Rightarrow> (docs', Inl e)
         | (docs', None) \<Rightarrow> (docs', put_record sha256 docs name schema value expectedToken))"

definition Merge :: "(bytes \<Rightarrow> bytes) \<Rightarrow> db_faults \<Rightarrow> documents \<Rightarrow> Record list \<Rightarrow> documents \<times> config_error option" where
  "Merge sha256 f docs records =
     (case checkRecords sha256 records of
        Some e \<Rightarrow> (docs, Some e)
      | None \<Rightarrow> Store_write sha256 f (writeRecords (df_Exec f) records) docs)"

text \<open>Opening reads the whole replica once.\<close>

definition Store_Open :: "(bytes \<Rightarrow> bytes) \<Rightarrow> db_faults \<Rightarrow> documents \<Rightarrow> config_error option" where
  "Store_Open sha256 f docs = (case Snapshot sha256 f docs of Inl e \<Rightarrow> Some e | Inr _ \<Rightarrow> None)"

definition Store_Init :: "(bytes \<Rightarrow> bytes) \<Rightarrow> db_faults \<Rightarrow> documents \<Rightarrow> Record list \<Rightarrow> documents \<times> config_error option" where
  "Store_Init sha256 f docs records =
     (if records = [] then (docs, Some ErrNoInitialDocument)
      else case checkRecords sha256 records of
        Some e \<Rightarrow> (docs, Some e)
      | None \<Rightarrow>
          (case Store_Open sha256 f docs of
             Some e \<Rightarrow> (docs, Some e)
           | None \<Rightarrow>
               Store_write sha256 f
                 (\<lambda>docs. case queried (df_Lookup f) (Inr (docs \<noteq> [])) of
                            Inl e \<Rightarrow> (docs, Inl e)
                          | Inr exists \<Rightarrow> if exists then (docs, Inl ErrExist) else writeRecords (df_Exec f) records docs) docs))"

subsection \<open>The exchange of snapshots\<close>

type_synonym snapshot_decoder = "bytes \<Rightarrow> config_error + u64 \<times> Record list option"

definition Syncer_snapshot :: "(bytes \<Rightarrow> bytes) \<Rightarrow> db_faults \<Rightarrow> documents \<Rightarrow> config_error + bytes" where
  "Syncer_snapshot sha256 f docs =
     (case Snapshot sha256 f docs of Inl e \<Rightarrow> Inl e | Inr rs \<Rightarrow> EncodeSnapshot sha256 rs)"

text \<open>The handler at the peer, with the code of the error it answers with. \<open>f\<close> holds for its merge and
  \<open>g\<close> for its read.\<close>

definition Syncer_Exchange :: "(bytes \<Rightarrow> bytes) \<Rightarrow> snapshot_decoder \<Rightarrow> db_faults \<Rightarrow> db_faults \<Rightarrow> documents \<Rightarrow> bytes \<Rightarrow>
    documents \<times> (twirp_code \<times> config_error + bytes)" where
  "Syncer_Exchange sha256 unmarshal f g docs bs =
     (case DecodeSnapshot sha256 unmarshal bs of
        Inl e \<Rightarrow> (docs, Inl (InvalidArgument, e))
      | Inr records \<Rightarrow>
          (case Merge sha256 f docs records of
             (docs', Some e) \<Rightarrow> (docs', Inl (Internal, e))
           | (docs', None) \<Rightarrow>
               (case Syncer_snapshot sha256 g docs' of
                  Inl e \<Rightarrow> (docs', Inl (Internal, e))
                | Inr response \<Rightarrow> (docs', Inr response))))"

text \<open>The caller: \<open>response\<close> is what the RPC returned.\<close>

definition Syncer_exchange :: "(bytes \<Rightarrow> bytes) \<Rightarrow> snapshot_decoder \<Rightarrow> db_faults \<Rightarrow> documents \<Rightarrow> config_error + bytes \<Rightarrow>
    documents \<times> config_error option" where
  "Syncer_exchange sha256 unmarshal f docs response =
     (case response of
        Inl e \<Rightarrow> (docs, Some e)
      | Inr bs \<Rightarrow>
          (case DecodeSnapshot sha256 unmarshal bs of
             Inl e \<Rightarrow> (docs, Some e)
           | Inr records \<Rightarrow> Merge sha256 f docs records))"

text \<open>One round between two replicas without anything in between: the caller sends its snapshot, the peer
  merges it and answers with its own, the caller merges the answer. A reply can be lost.\<close>

record exchange_faults =
  xf_Read :: db_faults
  xf_PeerMerge :: db_faults
  xf_PeerRead :: db_faults
  xf_Lost :: "config_error option"
  xf_Merge :: db_faults

definition exchange_round :: "(bytes \<Rightarrow> bytes) \<Rightarrow> snapshot_decoder \<Rightarrow> exchange_faults \<Rightarrow> documents \<Rightarrow> documents \<Rightarrow>
    documents \<times> documents \<times> config_error option" where
  "exchange_round sha256 unmarshal x caller peer =
     (case Syncer_snapshot sha256 (xf_Read x) caller of
        Inl e \<Rightarrow> (caller, peer, Some e)
      | Inr request \<Rightarrow>
          let (peer', reply) = Syncer_Exchange sha256 unmarshal (xf_PeerMerge x) (xf_PeerRead x) peer request;
              response = (case xf_Lost x of Some e \<Rightarrow> Inl e
                          | None \<Rightarrow> (case reply of Inl (_, e) \<Rightarrow> Inl e | Inr bs \<Rightarrow> Inr bs));
              (caller', err) = Syncer_exchange sha256 unmarshal (xf_Merge x) caller response
          in (caller', peer', err))"

subsection \<open>Reads over RPC\<close>

definition Syncer_Get :: "(bytes \<Rightarrow> bytes) \<Rightarrow> db_faults \<Rightarrow> documents \<Rightarrow> string \<Rightarrow>
    twirp_code \<times> config_error option + string \<times> bytes \<times> bytes" where
  "Syncer_Get sha256 f docs name =
     (if \<not> validName name then Inl (InvalidArgument, None)
      else case Store_Get sha256 f docs name of
        Inl e \<Rightarrow> Inl (Unavailable, Some e)
      | Inr None \<Rightarrow> Inl (NotFound, None)
      | Inr (Some r) \<Rightarrow> Inr (rc_Name r, version_bytes (rc_Version r), rc_Value r))"

definition Client_Get :: "(bytes \<Rightarrow> bytes) \<Rightarrow> string \<Rightarrow> config_error + string \<times> bytes \<times> bytes \<Rightarrow> config_error + Record" where
  "Client_Get sha256 name response =
     (case response of
        Inl e \<Rightarrow> Inl e
      | Inr (rname, rversion, rvalue) \<Rightarrow>
          (case decodeVersion rversion of
             Inl e \<Rightarrow> Inl e
           | Inr version \<Rightarrow>
               let r = \<lparr>rc_Name = rname, rc_Version = version, rc_Value = rvalue\<rparr>
               in case record_Validate sha256 r of
                    Some e \<Rightarrow> Inl e
                  | None \<Rightarrow> if rc_Name r \<noteq> name then Inl (ErrInvalidRecord ''requested another document'') else Inr r))"

subsection \<open>Valid replicas\<close>

definition sha256_law :: "(bytes \<Rightarrow> bytes) \<Rightarrow> bool" where
  "sha256_law sha256 \<longleftrightarrow> (\<forall>v. length (sha256 v) = 32)"

definition row_of :: "Record \<Rightarrow> string \<times> bytes \<times> bytes" where
  "row_of r = (rc_Name r, rc_Value r, version_bytes (rc_Version r))"

definition docs_ok :: "(bytes \<Rightarrow> bytes) \<Rightarrow> documents \<Rightarrow> bool" where
  "docs_ok sha256 docs \<longleftrightarrow> om_wf docs \<and> is_ok (readRecords sha256 docs)"

lemma valid_version_ok:
  "sha256_law sha256 \<Longrightarrow> record_Validate sha256 r = None \<Longrightarrow> version_ok (rc_Version r)"
  by (auto simp: record_Validate_def version_ok_def sha256_law_def split: if_splits)

lemma scan_row_of:
  assumes "sha256_law sha256" "record_Validate sha256 r = None"
  shows "scanRecord sha256 (row_of r) = Inr r"
  using decode_version_bytes[OF valid_version_ok[OF assms]] assms(2)
  by (cases r) (simp add: scanRecord_def row_of_def Let_def)

lemma scanRecord_Inr:
  assumes "scanRecord sha256 row = Inr r"
  shows "row = row_of r" "record_Validate sha256 r = None"
proof -
  obtain n v e where row: "row = (n, v, e)" by (metis prod_cases3)
  from assms obtain ver where ver: "decodeVersion e = Inr ver"
    and r: "r = \<lparr>rc_Name = n, rc_Version = ver, rc_Value = v\<rparr>" and ok: "record_Validate sha256 r = None"
    by (auto simp: scanRecord_def row Let_def split: sum.splits option.splits)
  show "record_Validate sha256 r = None" by (rule ok)
  show "row = row_of r" using version_bytes_decode(1)[OF ver] by (simp add: row_of_def row r)
qed

lemma read_loop_Inr:
  assumes "sha256_law sha256"
  shows "length acc \<le> MaxDocuments \<Longrightarrow>
    read_loop sha256 acc n rows = Inr rs \<longleftrightarrow>
    (\<exists>ss. rs = acc @ ss \<and> rows = map row_of ss \<and> check_loop sha256 (acc = []) n ss = None \<and> length rs \<le> MaxDocuments)"
proof (induction rows arbitrary: acc n)
  case (Cons row rows)
  show ?case (is "?l \<longleftrightarrow> ?r")
  proof
    assume l: ?l
    then obtain r where len: "length acc \<noteq> MaxDocuments" and r: "scanRecord sha256 row = Inr r"
      and size: "\<not> n + length (json_Record r) + (if length acc \<noteq> 0 then 1 else 0) > MaxSnapshotBytes"
      and rest: "read_loop sha256 (acc @ [r]) (n + length (json_Record r) + (if length acc \<noteq> 0 then 1 else 0)) rows = Inr rs"
      by (simp add: Let_def split: if_splits sum.splits)
    from rest len Cons.prems obtain ss where "rs = (acc @ [r]) @ ss" "rows = map row_of ss" "length rs \<le> MaxDocuments"
        "check_loop sha256 False (n + length (json_Record r) + (if length acc \<noteq> 0 then 1 else 0)) ss = None"
      using Cons.IH[of "acc @ [r]"] by auto
    then show ?r using scanRecord_Inr[OF r] size
      by (intro exI[of _ "r # ss"]) (cases acc; simp add: Let_def)
  next
    assume ?r
    then obtain r ss where rs: "rs = acc @ r # ss" "row = row_of r" "rows = map row_of ss" "length rs \<le> MaxDocuments"
      and c: "check_loop sha256 (acc = []) n (r # ss) = None"
      by auto
    from c have v: "record_Validate sha256 r = None"
      and size: "n + length (json_Record r) + (if acc = [] then 0 else 1) \<le> MaxSnapshotBytes"
      and rest: "check_loop sha256 False (n + length (json_Record r) + (if acc = [] then 0 else 1)) ss = None"
      by (simp_all add: Let_def split: option.splits if_splits)
    have "length acc \<noteq> MaxDocuments" "length (acc @ [r]) \<le> MaxDocuments" using rs(1,4) by simp_all
    moreover have "read_loop sha256 (acc @ [r]) (n + length (json_Record r) + (if acc = [] then 0 else 1)) rows = Inr rs"
      using Cons.IH[of "acc @ [r]"] rest rs \<open>length (acc @ [r]) \<le> MaxDocuments\<close> by simp
    ultimately show ?l using scan_row_of[OF assms v] size by (cases acc) (simp_all add: rs(2) Let_def)
  qed
qed auto

lemma readRecords_Inr:
  assumes "sha256_law sha256"
  shows "readRecords sha256 docs = Inr rs \<longleftrightarrow> docs = map row_of rs \<and> checkRecords sha256 rs = None"
  using read_loop_Inr[OF assms, of "[]" 25 docs rs] by (auto simp: readRecords_def checkRecords_def)

lemma docs_okE:
  assumes "sha256_law sha256" "docs_ok sha256 docs"
  obtains rs where "docs = map row_of rs" "checkRecords sha256 rs = None" "om_wf docs" "readRecords sha256 docs = Inr rs"
  using assms by (auto simp: docs_ok_def is_ok_iff readRecords_Inr)

lemma check_loop_valid: "check_loop sha256 first n rs = None \<Longrightarrow> r \<in> set rs \<Longrightarrow> record_Validate sha256 r = None"
  by (induction sha256 first n rs rule: check_loop.induct) (auto simp: Let_def split: option.splits if_splits)

lemma checkRecords_valid: "checkRecords sha256 rs = None \<Longrightarrow> r \<in> set rs \<Longrightarrow> record_Validate sha256 r = None"
  by (auto simp: checkRecords_def check_loop_valid split: if_splits)

lemma check_loop_size:
  "check_loop sha256 first n rs = None \<Longrightarrow> n \<le> MaxSnapshotBytes \<Longrightarrow>
     n + length (json_list (map json_Record rs)) + (if first \<or> rs = [] then 0 else 1) \<le> MaxSnapshotBytes"
proof (induction sha256 first n rs rule: check_loop.induct)
  case (2 sha256 first n r rs)
  from "2.prems"(1) have v: "record_Validate sha256 r = None"
    and size: "n + length (json_Record r) + (if first then 0 else 1) \<le> MaxSnapshotBytes"
    and rest: "check_loop sha256 False (n + length (json_Record r) + (if first then 0 else 1)) rs = None"
    by (simp_all add: Let_def split: option.splits if_splits)
  from "2.IH"[OF v refl _ rest size] size show ?case by (cases rs) (simp_all split: if_splits)
qed simp

lemma length_json_snapshot:
  "length (json_snapshot rs) = 25 + length (json_list (map json_Record rs))"
  by (simp add: json_snapshot_def json_string_def json_escape_def)

lemma checked_snapshot_size: "checkRecords sha256 rs = None \<Longrightarrow> length (json_snapshot rs) \<le> MaxSnapshotBytes"
  using check_loop_size[of sha256 True 25 rs]
  by (simp add: checkRecords_def length_json_snapshot MaxSnapshotBytes_def split: if_splits)

definition decoder_law :: "(bytes \<Rightarrow> bytes) \<Rightarrow> snapshot_decoder \<Rightarrow> bool" where
  "decoder_law sha256 unmarshal \<longleftrightarrow>
     (\<forall>rs. checkRecords sha256 rs = None \<longrightarrow> unmarshal (json_snapshot rs) = Inr (1, Some rs))"

lemma DecodeSnapshot_encoded:
  assumes "decoder_law sha256 unmarshal" "EncodeSnapshot sha256 rs = Inr bs"
  shows "DecodeSnapshot sha256 unmarshal bs = Inr rs"
  using assms checked_snapshot_size[of sha256 rs]
  by (auto simp: DecodeSnapshot_def EncodeSnapshot_def decoder_law_def split: option.splits)

subsection \<open>Writes\<close>

text \<open>The newer of two rows; the older one stays when the versions are equal.\<close>

definition newer :: "('a \<times> 'v :: linorder) option \<Rightarrow> ('a \<times> 'v) option \<Rightarrow> ('a \<times> 'v) option" where
  "newer a b = (case a of None \<Rightarrow> b | Some x \<Rightarrow> (case b of None \<Rightarrow> a | Some y \<Rightarrow> if snd x < snd y then b else a))"

lemma newer_None [simp]: "newer None b = b" "newer a None = a"
  by (simp_all add: newer_def split: option.splits)

lemma upsert_map: "map_of (fst (upsert r docs)) = (map_of docs)(rc_Name r := newer (map_of docs (rc_Name r)) (Some (snd (row_of r))))"
  by (auto simp: upsert_def newer_def row_of_def Let_def split: option.splits)

lemma upsert_wf: "om_wf docs \<Longrightarrow> om_wf (fst (upsert r docs))"
  by (auto simp: upsert_def Let_def om_wf_store split: option.splits)

lemma upsert_unchanged: "\<not> snd (upsert r docs) \<Longrightarrow> fst (upsert r docs) = docs"
  by (auto simp: upsert_def Let_def split: option.splits if_splits)

lemma upsert_changed: "snd (upsert r docs) \<Longrightarrow> fst (upsert r docs) = om_store (rc_Name r) (snd (row_of r)) docs"
  by (auto simp: upsert_def Let_def row_of_def split: option.splits if_splits)

definition merged :: "Record list \<Rightarrow> documents \<Rightarrow> documents" where
  "merged rs docs = fold (\<lambda>r docs. fst (upsert r docs)) rs docs"

lemma merged_simps [simp]: "merged [] docs = docs" "merged (r # rs) docs = merged rs (fst (upsert r docs))"
  by (simp_all add: merged_def)

lemma merged_wf: "om_wf docs \<Longrightarrow> om_wf (merged rs docs)"
  by (induction rs arbitrary: docs) (simp_all add: upsert_wf)

lemma writeRecords_Inr:
  "writeRecords fault rs docs = (docs', Inr c) \<Longrightarrow> docs' = merged rs docs \<and> (\<not> c \<longrightarrow> docs' = docs)"
proof (induction rs arbitrary: fault docs docs' c)
  case Nil
  then show ?case by (cases "(fault, [] :: Record list, docs)" rule: writeRecords.cases) auto
next
  case (Cons r rs)
  obtain d count where u: "upsert r docs = (d, count)" by fastforce
  obtain fault' c' where "writeRecords fault' rs d = (docs', Inr c')" "c = (count \<or> c')"
    using Cons.prems u by (cases "(fault, r # rs, docs)" rule: writeRecords.cases)
      (auto simp: Let_def split: prod.splits sum.splits)
  then show ?case using Cons.IH[of fault' d docs' c'] upsert_unchanged[of r docs] u by auto
qed

lemma writeRecords_None: "\<exists>c. writeRecords None rs docs = (merged rs docs, Inr c)"
proof (induction rs arbitrary: docs)
  case (Cons r rs)
  obtain d count where u: "upsert r docs = (d, count)" by fastforce
  obtain c where "writeRecords None rs d = (merged rs d, Inr c)" using Cons by blast
  then show ?case using u by (intro exI[of _ "count \<or> c"]) simp
qed (auto intro: exI[of _ False])

lemma merged_map:
  assumes "distinct (map rc_Name rs)"
  shows "map_of (merged rs docs) = (\<lambda>n. newer (map_of docs n) (map_of (map row_of rs) n))"
  using assms
proof (induction rs arbitrary: docs)
  case (Cons r rs)
  have "map_of (map row_of rs) (rc_Name r) = None"
    using Cons.prems by (auto simp: map_of_eq_None_iff row_of_def)
  moreover have "map_of (merged rs (fst (upsert r docs))) = (\<lambda>n. newer (map_of (fst (upsert r docs)) n) (map_of (map row_of rs) n))"
    using Cons by simp
  moreover have "fst (row_of r) = rc_Name r" by (simp add: row_of_def)
  ultimately show ?case by (cases "row_of r") (auto simp: upsert_map fun_eq_iff)
qed simp

text \<open>What a transaction can leave behind.\<close>

lemma Store_write_cases:
  assumes "Store_write sha256 f change docs = (docs', err)"
  obtains (written) "err = None" "change docs = (docs', Inr True)" "is_ok (readRecords sha256 docs')" "is_ok (readRecords sha256 docs)"
  | (kept) d where "err = None" "change docs = (d, Inr False)" "docs' = docs" "is_ok (readRecords sha256 docs)"
  | (failed) e where "err = Some e" "docs' = docs"
  | (landed) e where "err = Some (ErrDurabilityUncertain e)" "change docs = (docs', Inr True)" "is_ok (readRecords sha256 docs')"
      "is_ok (readRecords sha256 docs)"
proof (cases "df_Conn f = None \<and> df_Begin f = None")
  case True
  show ?thesis
  proof (cases "queried (df_Query f) (readRecords sha256 docs)")
    case (Inl e)
    then show ?thesis using assms True failed
      by (auto simp: Store_write_def split: option.splits)
  next
    case (Inr rs)
    then have ok: "is_ok (readRecords sha256 docs)" by (auto simp: queried_def split: option.splits)
    obtain d c where ch: "change docs = (d, c)" by fastforce
    consider (err) e where "c = Inl e" | (no) "c = Inr False" | (yes) "c = Inr True"
      by (metis (full_types) sum.exhaust)
    then show ?thesis
    proof cases
      case err
      then show ?thesis using assms True Inr ch failed by (auto simp: Store_write_def split: option.splits)
    next
      case no
      then show ?thesis using assms True Inr ch ok kept failed by (auto simp: Store_write_def split: option.splits)
    next
      case yes
      show ?thesis
      proof (cases "queried (df_Requery f) (readRecords sha256 d)")
        case (Inl e)
        then show ?thesis using assms True Inr ch yes failed by (auto simp: Store_write_def split: option.splits)
      next
        case again: (Inr rs')
        then have ok': "is_ok (readRecords sha256 d)" by (auto simp: queried_def split: option.splits)
        show ?thesis
          using assms True Inr ch yes again ok ok' written landed failed
          by (auto simp: Store_write_def split: option.splits if_splits)
      qed
    qed
  qed
next
  case False
  then consider e where "df_Conn f = Some e" | e where "df_Conn f = None" "df_Begin f = Some e" by auto
  then show ?thesis
  proof cases
    case 1
    then show ?thesis using assms failed[of e] by (simp add: Store_write_def)
  next
    case 2
    then show ?thesis using assms failed[of "ErrDurabilityUncertain e"] by (simp add: Store_write_def)
  qed
qed

lemma Store_write_no_faults:
  assumes "is_ok (readRecords sha256 docs)"
  shows "Store_write sha256 no_faults change docs =
    (case change docs of
       (d, Inl e) \<Rightarrow> (docs, Some e)
     | (d, Inr False) \<Rightarrow> (docs, None)
     | (d, Inr True) \<Rightarrow> (case readRecords sha256 d of Inl e \<Rightarrow> (docs, Some e) | Inr _ \<Rightarrow> (d, None)))"
proof -
  from assms obtain rs where rs: "readRecords sha256 docs = Inr rs" by (auto simp: is_ok_iff)
  obtain d c where ch: "change docs = (d, c)" by fastforce
  show ?thesis
    by (cases c) (auto simp: Store_write_def no_faults_def queried_def rs ch split: sum.splits bool.splits)
qed

lemma Merge_cases:
  assumes "docs_ok sha256 docs" "Merge sha256 f docs rs = (docs', err)"
  shows "docs_ok sha256 docs' \<and> (docs' = docs \<or> docs' = merged rs docs) \<and> (err = None \<longrightarrow> docs' = merged rs docs)"
proof (cases "checkRecords sha256 rs")
  case None
  then have w: "Store_write sha256 f (writeRecords (df_Exec f) rs) docs = (docs', err)"
    using assms(2) by (simp add: Merge_def)
  note wf = merged_wf[of docs rs] assms(1)
  from w show ?thesis
    by (cases rule: Store_write_cases) (use wf in \<open>auto simp: docs_ok_def dest!: writeRecords_Inr\<close>)
qed (use assms in \<open>auto simp: Merge_def\<close>)

lemma Merge_no_faults:
  assumes "docs_ok sha256 docs" "checkRecords sha256 rs = None" "is_ok (readRecords sha256 (merged rs docs))"
  shows "Merge sha256 no_faults docs rs = (merged rs docs, None)"
proof -
  obtain c where c: "writeRecords None rs docs = (merged rs docs, Inr c)" using writeRecords_None by blast
  moreover have "\<not> c \<Longrightarrow> merged rs docs = docs" using writeRecords_Inr[OF c] by simp
  moreover have "df_Exec no_faults = None" by (simp add: no_faults_def)
  ultimately show ?thesis
    using assms Store_write_no_faults[of sha256 docs "writeRecords None rs"]
    by (cases c) (auto simp: Merge_def docs_ok_def is_ok_iff)
qed

subsection \<open>Editing one replica\<close>

lemma word_less_succ: "(w :: u64) \<noteq> - 1 \<Longrightarrow> w < w + 1"
proof -
  assume w: "w \<noteq> - 1"
  have "w + 1 \<noteq> 0" using w by (simp add: eq_neg_iff_add_eq_0)
  then have "(unat w + 1) mod 2 ^ 64 \<noteq> 0" by (simp add: word_unat_eq_iff unat_word_ariths)
  then have "unat w + 1 \<noteq> 2 ^ 64" by (metis mod_self)
  moreover have "unat w < 2 ^ 64" using unsigned_less[of w] by simp
  ultimately have "unat w + 1 < 2 ^ 64" by simp
  then have "unat (w + 1) = unat w + 1" by (simp add: unat_word_ariths)
  then show ?thesis by (simp add: word_less_nat_alt)
qed

lemma put_record_Inr:
  assumes law: "sha256_law sha256" and "put_record sha256 docs name schema value tok = Inr r"
  shows "rc_Name r = name" "rc_Value r = value" "ve_Schema (rc_Version r) = schema" "record_Validate sha256 r = None"
    and "\<And>row. map_of docs name = Some row \<Longrightarrow> snd row < version_bytes (rc_Version r)"
proof -
  obtain cur rev where cur: "readRecord sha256 docs name = Inr cur" "NewRecord sha256 name schema rev value = Inr r"
    "\<And>c. cur = Some c \<Longrightarrow> ve_Schema (rc_Version c) \<le> schema \<and> ve_Revision (rc_Version c) \<noteq> - 1 \<and> rev = ve_Revision (rc_Version c) + 1"
    using assms(2) by (auto simp: put_record_def not_less split: sum.splits if_splits option.splits)
  then have r: "r = \<lparr>rc_Name = name, rc_Version = \<lparr>ve_Schema = schema, ve_Revision = rev, ve_Digest = sha256 value\<rparr>, rc_Value = value\<rparr>"
    and v: "record_Validate sha256 r = None"
    by (auto simp: NewRecord_def Let_def split: if_splits option.splits)
  show "rc_Name r = name" "rc_Value r = value" "ve_Schema (rc_Version r) = schema" "record_Validate sha256 r = None"
    using r v by simp_all
  fix row assume row: "map_of docs name = Some row"
  then obtain c where c: "scanRecord sha256 (name, row) = Inr c" "cur = Some c"
    using cur(1) by (auto simp: readRecord_def split: sum.splits)
  then have "snd row = version_bytes (rc_Version c)" using scanRecord_Inr(1)[OF c(1)] by (cases row) (simp add: row_of_def)
  moreover have "ve_Schema (rc_Version c) \<le> schema" "ve_Revision (rc_Version c) < rev"
    using cur(3)[OF c(2)] by (auto simp: word_less_succ)
  ultimately show "snd row < version_bytes (rc_Version r)" by (auto simp: version_bytes_less r)
qed

lemma Store_Put_cases:
  assumes law: "sha256_law sha256" and ok: "docs_ok sha256 docs"
    and put: "Store_Put sha256 f docs name schema value tok = (docs', res)"
  obtains (saved) r where "res = Inr r" "put_record sha256 docs name schema value tok = Inr r"
      "docs' = om_store name (snd (row_of r)) docs" "docs_ok sha256 docs'"
  | (failed) e where "res = Inl e" "docs' = docs"
  | (landed) e r where "res = Inl (ErrDurabilityUncertain e)" "put_record sha256 docs name schema value tok = Inr r"
      "docs' = om_store name (snd (row_of r)) docs" "docs_ok sha256 docs'"
proof -
  define change where "change = (\<lambda>docs. case queried (df_Lookup f) (put_record sha256 docs name schema value tok) of
      Inl e \<Rightarrow> (docs, Inl e) | Inr r \<Rightarrow> writeRecords (df_Exec f) [r] docs)"
  obtain d err where w: "Store_write sha256 f change docs = (d, err)" by fastforce
  have d: "d = docs'" and res: "res = (case err of Some e \<Rightarrow> Inl e | None \<Rightarrow> put_record sha256 docs name schema value tok)"
    using put w by (auto simp: Store_Put_def change_def Let_def split: option.splits prod.splits)
  have up: "\<exists>r. put_record sha256 docs name schema value tok = Inr r \<and> x = om_store name (snd (row_of r)) docs \<and> c"
    if "change docs = (x, Inr c)" for x c
  proof -
    from that obtain r where r: "put_record sha256 docs name schema value tok = Inr r" "writeRecords (df_Exec f) [r] docs = (x, Inr c)"
      by (auto simp: change_def queried_def split: sum.splits option.splits)
    note p = put_record_Inr[OF law r(1)]
    have "snd (upsert r docs)" using p(1,5) by (auto simp: upsert_def Let_def split: option.splits)
    then have u: "fst (upsert r docs) = om_store name (snd (row_of r)) docs" "snd (upsert r docs)"
      using upsert_changed[of r docs] p(1) by simp_all
    have "c" using r(2) u by (cases "(df_Exec f, [r], docs)" rule: writeRecords.cases) (auto simp: Let_def split: prod.splits sum.splits)
    then show ?thesis using writeRecords_Inr[OF r(2)] r(1) u(1) by auto
  qed
  from w show ?thesis
  proof (cases rule: Store_write_cases)
    case written
    then show ?thesis using up[of d True] saved res d ok by (auto simp: docs_ok_def om_wf_store)
  next
    case kept
    then show ?thesis using up by blast
  next
    case failed
    then show ?thesis using that(2) res d by simp
  next
    case landed
    then show ?thesis using up[of d True] that(3) res d ok by (auto simp: docs_ok_def om_wf_store)
  qed
qed

lemma b64_inj: "b64_encode a = b64_encode b \<Longrightarrow> a = b"
  by (metis b64_roundtrip option.inject)

lemma Token_inj:
  assumes "rc_Name r = rc_Name c" "rc_Name r \<noteq> []" "Token r = Token c"
  shows "rc_Version r = rc_Version c"
  using assms b64_inj[of "version_bytes (rc_Version r)" "version_bytes (rc_Version c)"]
  by (simp add: Token_def MarshalText_def version_bytes_inj)

lemma readRecord_stored:
  assumes "sha256_law sha256" "record_Validate sha256 r = None" "map_of docs (rc_Name r) = Some (snd (row_of r))"
  shows "readRecord sha256 docs (rc_Name r) = Inr (Some r)"
  using scan_row_of[OF assms(1,2)] assms(3) by (simp add: readRecord_def row_of_def)

lemma valid_name_nonempty: "record_Validate sha256 r = None \<Longrightarrow> rc_Name r \<noteq> []"
  by (auto simp: record_Validate_def validName_def split: if_splits)

lemma version_compare_less: "version_compare v w < 0 \<longleftrightarrow> version_bytes v < version_bytes w"
  by (simp add: version_compare_bytes cmp_Compare_def)

lemma Store_Get_no_faults: "readRecord sha256 docs name = Inr cur \<Longrightarrow> Store_Get sha256 no_faults docs name = Inr cur"
  by (simp add: Store_Get_def no_faults_def queried_def)

lemma put_record_read:
  assumes "sha256_law sha256" "put_record sha256 docs name schema value tok = Inr r"
  obtains cur where "readRecord sha256 docs name = Inr cur" "record_Token cur = tok"
    "\<And>c. cur = Some c \<Longrightarrow> rc_Name c = name \<and> version_compare (rc_Version c) (rc_Version r) < 0"
proof -
  from assms(2) obtain cur where cur: "readRecord sha256 docs name = Inr cur" "record_Token cur = tok"
    by (auto simp: put_record_def split: sum.splits if_splits)
  have "rc_Name c = name \<and> version_compare (rc_Version c) (rc_Version r) < 0" if "cur = Some c" for c
  proof -
    from cur(1) that obtain row where row: "map_of docs name = Some row" "scanRecord sha256 (name, row) = Inr c"
      by (auto simp: readRecord_def split: option.splits sum.splits)
    from scanRecord_Inr(1)[OF row(2)] have "rc_Name c = name" "snd row = version_bytes (rc_Version c)"
      by (cases row, simp add: row_of_def)+
    then show ?thesis using put_record_Inr(5)[OF assms row(1)] by (simp add: version_compare_less)
  qed
  then show ?thesis using cur that by blast
qed

lemma put_record_stale:
  assumes law: "sha256_law sha256" and r: "put_record sha256 docs name schema value tok = Inr r"
    and stored: "readRecord sha256 docs' name = Inr (Some r)"
  shows "put_record sha256 docs' name schema' value' tok = Inl ErrConflict"
proof -
  note p = put_record_Inr[OF law r]
  from put_record_read[OF law r] obtain cur where cur: "record_Token cur = tok"
    "\<And>c. cur = Some c \<Longrightarrow> rc_Name c = name \<and> version_compare (rc_Version c) (rc_Version r) < 0" by blast
  have "Token r \<noteq> tok"
  proof (cases cur)
    case None
    then show ?thesis using cur(1) valid_name_nonempty[OF p(4)] by (auto simp: record_Token_def Token_def)
  next
    case (Some c)
    then show ?thesis using cur Token_inj[of r c] p(1) valid_name_nonempty[OF p(4)]
      by (auto simp: record_Token_def version_compare_less)
  qed
  then show ?thesis using stored by (simp add: put_record_def record_Token_def)
qed

subsection \<open>Convergence\<close>

text \<open>A contribution is what one replica held at the start or what one save wrote. \<open>newest m H\<close>: the
  contents \<open>m\<close> are, document by document, the newest version among the contributions \<open>H\<close>.\<close>

type_synonym contents = "string \<Rightarrow> (bytes \<times> bytes) option"

definition newest :: "('k \<Rightarrow> ('a \<times> 'v :: linorder) option) \<Rightarrow> ('k \<Rightarrow> ('a \<times> 'v) option) set \<Rightarrow> bool" where
  "newest m H \<longleftrightarrow>
     (\<forall>c \<in> H. \<forall>n row. c n = Some row \<longrightarrow> (\<exists>row'. m n = Some row' \<and> snd row \<le> snd row')) \<and>
     (\<forall>n row. m n = Some row \<longrightarrow> (\<exists>c \<in> H. c n = Some row))"

text \<open>Messages are snapshots in flight. A replica asks by sending its snapshot; a peer answers a message with
  its own snapshot after merging it; the asking replica adopts an answer. Saves and other exchanges may
  come in between, and messages may be lost, delayed or handled again.\<close>

datatype config_event =
    Edit nat db_faults string u64 bytes string
  | Ask nat db_faults
  | Answer nat nat db_faults db_faults
  | Adopt nat nat db_faults

type_synonym gossip_state = "(nat \<Rightarrow> documents) \<times> (nat \<Rightarrow> contents set) \<times> (bytes \<times> contents set) list"

text \<open>What an event does to the replicas and the messages, and which contributions each replica has heard of
  since: those of its own saves, and those the sender of a message it merged had heard of.\<close>

fun gossip :: "(bytes \<Rightarrow> bytes) \<Rightarrow> snapshot_decoder \<Rightarrow> config_event \<Rightarrow> gossip_state \<Rightarrow> gossip_state" where
  "gossip sha256 unmarshal (Edit a f name schema value tok) (reps, heard, msgs) =
     (let docs' = fst (Store_Put sha256 f (reps a) name schema value tok)
      in (reps(a := docs'),
          if docs' = reps a then heard else heard(a := insert [name \<mapsto> the (map_of docs' name)] (heard a)), msgs))"
| "gossip sha256 unmarshal (Ask a f) (reps, heard, msgs) =
     (case Syncer_snapshot sha256 f (reps a) of
        Inl _ \<Rightarrow> (reps, heard, msgs)
      | Inr request \<Rightarrow> (reps, heard, msgs @ [(request, heard a)]))"
| "gossip sha256 unmarshal (Answer m b f g) (reps, heard, msgs) =
     (if m < length msgs then
        let (B, reply) = Syncer_Exchange sha256 unmarshal f g (reps b) (fst (msgs ! m));
            hb = (if is_ok reply \<or> B \<noteq> reps b then heard b \<union> snd (msgs ! m) else heard b)
        in (reps(b := B), heard(b := hb), case reply of Inl _ \<Rightarrow> msgs | Inr response \<Rightarrow> msgs @ [(response, hb)])
      else (reps, heard, msgs))"
| "gossip sha256 unmarshal (Adopt m a f) (reps, heard, msgs) =
     (if m < length msgs then
        let (A, err) = Syncer_exchange sha256 unmarshal f (reps a) (Inr (fst (msgs ! m)));
            ha = (if err = None \<or> A \<noteq> reps a then heard a \<union> snd (msgs ! m) else heard a)
        in (reps(a := A), heard(a := ha), msgs)
      else (reps, heard, msgs))"

lemma newer_left: "\<exists>row. newer (Some x) b = Some row \<and> snd x \<le> snd row"
  by (cases x) (auto simp: newer_def split: option.split)

lemma newer_right: "\<exists>row. newer a (Some y) = Some row \<and> snd y \<le> snd row"
  by (cases y) (auto simp: newer_def split: option.split)

lemma newer_SomeD: "newer a b = Some row \<Longrightarrow> a = Some row \<or> b = Some row"
  by (cases a; cases b) (simp_all add: newer_def split: if_splits)

lemma newestD:
  "newest m H \<Longrightarrow> c \<in> H \<Longrightarrow> c n = Some row \<Longrightarrow> \<exists>row'. m n = Some row' \<and> snd row \<le> snd row'"
  "newest m H \<Longrightarrow> m n = Some row \<Longrightarrow> \<exists>c \<in> H. c n = Some row"
  unfolding newest_def by blast+

lemma newest_merge:
  assumes m: "newest m H" and k: "newest k K"
  shows "newest (\<lambda>n. newer (m n) (k n)) (H \<union> K)"
  unfolding newest_def
proof (intro conjI ballI allI impI)
  fix c n row assume c: "c \<in> H \<union> K" "c n = Some row"
  show "\<exists>row'. newer (m n) (k n) = Some row' \<and> snd row \<le> snd row'"
  proof (cases "c \<in> H")
    case True
    obtain r where r: "m n = Some r" "snd row \<le> snd r" using newestD(1)[OF m True c(2)] by blast
    obtain s where "newer (m n) (k n) = Some s" "snd r \<le> snd s" using newer_left[of r "k n"] r(1) by auto
    then show ?thesis using r(2) order.trans[of "snd row" "snd r" "snd s"] by simp
  next
    case False
    obtain r where r: "k n = Some r" "snd row \<le> snd r" using newestD(1)[OF k, of c n row] c False by blast
    obtain s where "newer (m n) (k n) = Some s" "snd r \<le> snd s" using newer_right[of "m n" r] r(1) by auto
    then show ?thesis using r(2) order.trans[of "snd row" "snd r" "snd s"] by simp
  qed
next
  fix n row assume "newer (m n) (k n) = Some row"
  then show "\<exists>c \<in> H \<union> K. c n = Some row"
    using newer_SomeD newestD(2)[OF m, of n row] newestD(2)[OF k, of n row] by blast
qed

lemma newest_single: "newest m {m}"
  unfolding newest_def by blast

lemma newest_insert:
  assumes "newest m H" "\<And>old. m name = Some old \<Longrightarrow> snd old < snd row"
  shows "newest (m(name \<mapsto> row)) (insert [name \<mapsto> row] H)"
proof -
  have "(\<lambda>n. newer (m n) ([name \<mapsto> row] n)) = m(name \<mapsto> row)"
    using assms(2) by (auto simp: newer_def fun_eq_iff split: option.splits)
  then show ?thesis using newest_merge[OF assms(1) newest_single[of "[name \<mapsto> row]"]] by simp
qed

lemma om_wf_row_names: "om_wf (map row_of rs) \<Longrightarrow> distinct (map rc_Name rs)"
  using om_wf_distinct[of "map row_of rs"] by (simp add: comp_def row_of_def)

lemma merged_snapshot:
  assumes "om_wf docs" "om_wf (map row_of rs)"
  shows "om_wf (merged rs docs)" "map_of (merged rs docs) = (\<lambda>n. newer (map_of docs n) (map_of (map row_of rs) n))"
  using merged_wf[OF assms(1)] merged_map[OF om_wf_row_names[OF assms(2)]] by auto

lemma Syncer_snapshot_Inr:
  assumes "sha256_law sha256" "Syncer_snapshot sha256 f docs = Inr bs"
  obtains rs where "docs = map row_of rs" "checkRecords sha256 rs = None" "EncodeSnapshot sha256 rs = Inr bs"
  using assms by (auto simp: Syncer_snapshot_def Snapshot_def queried_def readRecords_Inr EncodeSnapshot_def split: sum.splits option.splits)

text \<open>Merging the snapshot of another replica.\<close>

lemma Merge_snapshot:
  assumes "sha256_law sha256" "docs_ok sha256 docs" "docs_ok sha256 (map row_of rs)" "Merge sha256 f docs rs = (docs', err)"
  shows "docs_ok sha256 docs'"
    and "docs' = docs \<or> map_of docs' = (\<lambda>n. newer (map_of docs n) (map_of (map row_of rs) n))"
    and "err = None \<Longrightarrow> map_of docs' = (\<lambda>n. newer (map_of docs n) (map_of (map row_of rs) n))"
  using Merge_cases[OF assms(2,4)] merged_snapshot(2)[of docs rs] assms(2,3) by (auto simp: docs_ok_def)

definition heard_ok :: "bytes set \<Rightarrow> contents \<Rightarrow> contents set \<Rightarrow> bool" where
  "heard_ok V m H \<longleftrightarrow> newest m H \<and> (\<forall>c \<in> H. \<forall>n row. c n = Some row \<longrightarrow> fst row \<in> V)"

lemma heard_ok_merge: "heard_ok V m H \<Longrightarrow> heard_ok V k K \<Longrightarrow> heard_ok V (\<lambda>n. newer (m n) (k n)) (H \<union> K)"
  using newest_merge[of m H k K] unfolding heard_ok_def by blast

text \<open>A message is the encoding of what some replica held, with what it had heard of.\<close>

definition message_ok :: "(bytes \<Rightarrow> bytes) \<Rightarrow> bytes set \<Rightarrow> bytes \<times> contents set \<Rightarrow> bool" where
  "message_ok sha256 V msg \<longleftrightarrow> (\<exists>rs. EncodeSnapshot sha256 rs = Inr (fst msg) \<and> docs_ok sha256 (map row_of rs) \<and>
     heard_ok V (map_of (map row_of rs)) (snd msg))"

lemma message_ok_snapshot:
  assumes "sha256_law sha256" "Syncer_snapshot sha256 f docs = Inr bs" "docs_ok sha256 docs" "heard_ok V (map_of docs) H"
  shows "message_ok sha256 V (bs, H)"
  using Syncer_snapshot_Inr[OF assms(1,2)] assms(3,4) unfolding message_ok_def by (metis fst_conv snd_conv)

lemma message_merge:
  assumes law: "sha256_law sha256" "decoder_law sha256 unmarshal" and msg: "message_ok sha256 V (bs, K)"
    and ok: "docs_ok sha256 docs" "heard_ok V (map_of docs) H"
  obtains rs where "DecodeSnapshot sha256 unmarshal bs = Inr rs"
    "\<And>f docs' err. Merge sha256 f docs rs = (docs', err) \<Longrightarrow> docs_ok sha256 docs' \<and>
       (docs' = docs \<or> heard_ok V (map_of docs') (H \<union> K)) \<and> (err = None \<longrightarrow> heard_ok V (map_of docs') (H \<union> K))"
proof -
  obtain rs where rs: "EncodeSnapshot sha256 rs = Inr bs" "docs_ok sha256 (map row_of rs)" "heard_ok V (map_of (map row_of rs)) K"
    using msg by (auto simp: message_ok_def)
  have "docs_ok sha256 docs' \<and> (docs' = docs \<or> heard_ok V (map_of docs') (H \<union> K)) \<and> (err = None \<longrightarrow> heard_ok V (map_of docs') (H \<union> K))"
    if "Merge sha256 f docs rs = (docs', err)" for f docs' err
    using Merge_snapshot[OF law(1) ok(1) rs(2) that] heard_ok_merge[OF ok(2) rs(3)] by auto
  then show thesis using that DecodeSnapshot_encoded[OF law(2) rs(1)] by blast
qed

definition gossip_inv :: "(bytes \<Rightarrow> bytes) \<Rightarrow> bytes set \<Rightarrow> gossip_state \<Rightarrow> bool" where
  "gossip_inv sha256 V s \<longleftrightarrow> (case s of (reps, heard, msgs) \<Rightarrow>
     (\<forall>i. docs_ok sha256 (reps i) \<and> heard_ok V (map_of (reps i)) (heard i)) \<and> (\<forall>msg \<in> set msgs. message_ok sha256 V msg))"

fun edited :: "config_event \<Rightarrow> bytes set" where
  "edited (Edit a f name schema value tok) = {value}"
| "edited _ = {}"

lemma gossip_inv_Edit:
  assumes law: "sha256_law sha256" and inv: "gossip_inv sha256 V (reps, heard, msgs)" and V: "value \<in> V"
  shows "gossip_inv sha256 V (gossip sha256 unmarshal (Edit a f name schema value tok) (reps, heard, msgs))"
proof -
  have ok: "docs_ok sha256 (reps i)" "heard_ok V (map_of (reps i)) (heard i)" for i using inv by (simp_all add: gossip_inv_def)
  obtain docs' res where put: "Store_Put sha256 f (reps a) name schema value tok = (docs', res)" by fastforce
  define H where "H = insert [name \<mapsto> the (map_of docs' name)] (heard a)"
  have new: "heard_ok V (map_of docs') H"
    if "put_record sha256 (reps a) name schema value tok = Inr r" "docs' = om_store name (snd (row_of r)) (reps a)" for r
  proof -
    note p = put_record_Inr[OF law that(1)]
    have "snd old < snd (snd (row_of r))" if "map_of (reps a) name = Some old" for old
      using p(5)[OF that] by (simp add: row_of_def)
    then have "newest (map_of docs') H"
      using newest_insert[of "map_of (reps a)" "heard a" name "snd (row_of r)"] ok(2)[of a] by (simp add: that(2) H_def heard_ok_def)
    moreover have "fst (snd (row_of r)) \<in> V" using p(2) V by (simp add: row_of_def)
    ultimately show ?thesis using ok(2)[of a] by (auto simp: that(2) H_def heard_ok_def)
  qed
  have "docs_ok sha256 docs' \<and> (docs' = reps a \<or> heard_ok V (map_of docs') H)"
    using put by (cases rule: Store_Put_cases[OF law ok(1), consumes 1, case_names saved failed landed])
      (use new ok(1) in blast)+
  then show ?thesis using inv put by (auto simp: gossip_inv_def Let_def H_def)
qed

lemma gossip_inv_Ask:
  assumes law: "sha256_law sha256" and inv: "gossip_inv sha256 V (reps, heard, msgs)"
  shows "gossip_inv sha256 V (gossip sha256 unmarshal (Ask a f) (reps, heard, msgs))"
  using inv message_ok_snapshot[OF law, of f "reps a" _ V "heard a"] by (auto simp: gossip_inv_def split: sum.splits)

lemma gossip_inv_Answer:
  assumes law: "sha256_law sha256" "decoder_law sha256 unmarshal" and inv: "gossip_inv sha256 V (reps, heard, msgs)"
  shows "gossip_inv sha256 V (gossip sha256 unmarshal (Answer m b f g) (reps, heard, msgs))"
proof (cases "m < length msgs")
  case True
  obtain bs K where msg: "msgs ! m = (bs, K)" by fastforce
  have mok: "message_ok sha256 V (bs, K)" using inv nth_mem[OF True] by (auto simp: gossip_inv_def msg)
  have ok: "docs_ok sha256 (reps b)" "heard_ok V (map_of (reps b)) (heard b)" using inv by (simp_all add: gossip_inv_def)
  obtain rs where dec: "DecodeSnapshot sha256 unmarshal bs = Inr rs"
    and merge: "\<And>f docs' err. Merge sha256 f (reps b) rs = (docs', err) \<Longrightarrow> docs_ok sha256 docs' \<and>
      (docs' = reps b \<or> heard_ok V (map_of docs') (heard b \<union> K)) \<and> (err = None \<longrightarrow> heard_ok V (map_of docs') (heard b \<union> K))"
    using message_merge[OF law mok ok] by blast
  obtain B err where M: "Merge sha256 f (reps b) rs = (B, err)" by fastforce
  obtain D reply where "Syncer_Exchange sha256 unmarshal f g (reps b) bs = (D, reply)" by fastforce
  then have se: "Syncer_Exchange sha256 unmarshal f g (reps b) bs = (B, reply)"
    and reply: "\<And>r. reply = Inr r \<Longrightarrow> err = None \<and> Syncer_snapshot sha256 g B = Inr r"
    using dec M by (auto simp: Syncer_Exchange_def split: option.splits sum.splits)
  define hb where "hb = (if is_ok reply \<or> B \<noteq> reps b then heard b \<union> K else heard b)"
  have hb: "docs_ok sha256 B" "heard_ok V (map_of B) hb"
    using merge[OF M] ok(2) reply by (auto simp: hb_def is_ok_iff)
  then have "message_ok sha256 V (r, hb)" if "reply = Inr r" for r
    using message_ok_snapshot[OF law(1), of g B r V hb] reply[OF that] by blast
  moreover have "gossip sha256 unmarshal (Answer m b f g) (reps, heard, msgs) =
      (reps(b := B), heard(b := hb), case reply of Inl _ \<Rightarrow> msgs | Inr response \<Rightarrow> msgs @ [(response, hb)])"
    using True se unfolding hb_def gossip.simps msg fst_conv snd_conv Let_def by simp
  ultimately show ?thesis using inv hb by (auto simp: gossip_inv_def split: sum.splits)
qed (use inv in simp)

lemma gossip_inv_Adopt:
  assumes law: "sha256_law sha256" "decoder_law sha256 unmarshal" and inv: "gossip_inv sha256 V (reps, heard, msgs)"
  shows "gossip_inv sha256 V (gossip sha256 unmarshal (Adopt m a f) (reps, heard, msgs))"
proof (cases "m < length msgs")
  case True
  obtain bs K where msg: "msgs ! m = (bs, K)" by fastforce
  have mok: "message_ok sha256 V (bs, K)" using inv nth_mem[OF True] by (auto simp: gossip_inv_def msg)
  have ok: "docs_ok sha256 (reps a)" "heard_ok V (map_of (reps a)) (heard a)" using inv by (simp_all add: gossip_inv_def)
  obtain rs where dec: "DecodeSnapshot sha256 unmarshal bs = Inr rs"
    and merge: "\<And>f docs' err. Merge sha256 f (reps a) rs = (docs', err) \<Longrightarrow> docs_ok sha256 docs' \<and>
      (docs' = reps a \<or> heard_ok V (map_of docs') (heard a \<union> K)) \<and> (err = None \<longrightarrow> heard_ok V (map_of docs') (heard a \<union> K))"
    using message_merge[OF law mok ok] by blast
  obtain A err where M: "Merge sha256 f (reps a) rs = (A, err)" by fastforce
  have "Syncer_exchange sha256 unmarshal f (reps a) (Inr bs) = (A, err)" using dec M by (simp add: Syncer_exchange_def)
  then show ?thesis using True inv merge[OF M] by (auto simp: gossip_inv_def msg Let_def)
qed (use inv in simp)

lemma gossip_inv_run:
  assumes "sha256_law sha256" "decoder_law sha256 unmarshal" "gossip_inv sha256 V s" "\<forall>ev \<in> set evs. edited ev \<subseteq> V"
  shows "gossip_inv sha256 V (fold (gossip sha256 unmarshal) evs s)"
  using assms(3,4)
proof (induction evs arbitrary: s)
  case (Cons ev evs)
  obtain reps heard msgs where s: "s = (reps, heard, msgs)" by (metis prod_cases3)
  have "gossip_inv sha256 V (gossip sha256 unmarshal ev s)"
    using gossip_inv_Edit[OF assms(1)] gossip_inv_Ask[OF assms(1)] gossip_inv_Answer[OF assms(1,2)]
      gossip_inv_Adopt[OF assms(1,2)] Cons.prems unfolding s by (cases ev) (simp_all del: gossip.simps)
  then show ?case using Cons.IH Cons.prems(2) by simp
qed simp

lemma docs_ok_digest:
  assumes "sha256_law sha256" "docs_ok sha256 docs" "map_of docs n = Some (v, e)"
  shows "drop 16 e = sha256 v"
proof -
  obtain rs where rs: "docs = map row_of rs" "checkRecords sha256 rs = None" using docs_okE[OF assms(1,2)] by blast
  obtain r where r: "r \<in> set rs" "row_of r = (n, v, e)" using map_of_SomeD[OF assms(3)] rs(1) by auto
  then have "record_Validate sha256 r = None" using checkRecords_valid[OF rs(2)] by blast
  then have "ve_Digest (rc_Version r) = sha256 v" using r(2) by (auto simp: record_Validate_def row_of_def split: if_splits)
  then show ?thesis using r(2) by (auto simp: row_of_def version_bytes_def)
qed

lemma om_wf_eq:
  assumes "om_wf a" "om_wf b" "map_of a = map_of b"
  shows "a = b"
proof -
  have "x \<in> set a \<longleftrightarrow> x \<in> set b" for x
    using om_wf_map_of[OF assms(1), of "fst x" "snd x"] om_wf_map_of[OF assms(2), of "fst x" "snd x"] assms(3) by simp
  then have "set a = set b" by blast
  moreover have "sorted (map fst a)" "distinct (map fst a)" "sorted (map fst b)" "distinct (map fst b)"
    using assms by (simp_all add: om_wf_def strict_sorted_iff)
  ultimately show ?thesis using map_sorted_distinct_set_unique[of fst a b] by (simp add: distinct_map)
qed

lemma newest_unique:
  assumes law: "sha256_law sha256" and ok: "docs_ok sha256 a" "docs_ok sha256 b"
    and new: "newest (map_of a) H" "newest (map_of b) H"
    and vals: "\<And>c n row. c \<in> H \<Longrightarrow> c n = Some row \<Longrightarrow> fst row \<in> V" and inj: "inj_on sha256 V"
  shows "a = b"
proof -
  have half: "map_of b n = Some row" if ra: "map_of a n = Some row"
      and new: "newest (map_of a) H" "newest (map_of b) H" and ok: "docs_ok sha256 a" "docs_ok sha256 b" for a b n row
  proof -
    obtain c where c: "c \<in> H" "c n = Some row" using newestD(2)[OF new(1) ra] by blast
    obtain row' where r': "map_of b n = Some row'" "snd row \<le> snd row'" using newestD(1)[OF new(2) c] by blast
    obtain c' where c': "c' \<in> H" "c' n = Some row'" using newestD(2)[OF new(2) r'(1)] by blast
    obtain row'' where "map_of a n = Some row''" "snd row' \<le> snd row''" using newestD(1)[OF new(1) c'] by blast
    then have e: "snd row = snd row'" using ra r'(2) by (intro order.antisym) simp_all
    have "drop 16 (snd row) = sha256 (fst row)" by (rule docs_ok_digest[OF law ok(1), of n]) (simp add: ra)
    moreover have "drop 16 (snd row') = sha256 (fst row')" by (rule docs_ok_digest[OF law ok(2), of n]) (simp add: r'(1))
    ultimately have "sha256 (fst row) = sha256 (fst row')" using e by simp
    then have "fst row = fst row'" using inj vals[OF c] vals[OF c'] by (simp add: inj_on_eq_iff)
    then show ?thesis using r'(1) e by (simp add: prod_eq_iff)
  qed
  have eq: "map_of a n = map_of b n" for n
  proof (cases "map_of a n")
    case None
    then show ?thesis using half[of b n _ a] new ok by (cases "map_of b n") auto
  next
    case (Some row)
    then show ?thesis using half[OF Some new ok] by simp
  qed
  then show ?thesis using ok by (intro om_wf_eq) (auto simp: docs_ok_def)
qed

definition no_exchange_faults :: exchange_faults where
  "no_exchange_faults = \<lparr>xf_Read = no_faults, xf_PeerMerge = no_faults, xf_PeerRead = no_faults, xf_Lost = None, xf_Merge = no_faults\<rparr>"

lemma newer_tie: "(snd x = snd y \<Longrightarrow> x = y) \<Longrightarrow> newer (Some x) (Some y) = newer (Some y) (Some x)"
  by (cases "snd x" "snd y" rule: linorder_cases) (auto simp: newer_def)

lemma newer_idem: "newer a (newer a b) = newer a b"
  by (cases a; cases b) (auto simp: newer_def)

lemma newer_commute:
  assumes "sha256_law sha256" "docs_ok sha256 A" "docs_ok sha256 B" "inj_on sha256 V"
    and "\<forall>n row. map_of A n = Some row \<longrightarrow> fst row \<in> V" "\<forall>n row. map_of B n = Some row \<longrightarrow> fst row \<in> V"
  shows "newer (map_of A n) (map_of B n) = newer (map_of B n) (map_of A n)"
proof (cases "map_of A n"; cases "map_of B n")
  fix x y assume x: "map_of A n = Some x" and y: "map_of B n = Some y"
  have "x = y" if e: "snd x = snd y"
  proof -
    have "drop 16 (snd x) = sha256 (fst x)" by (rule docs_ok_digest[OF assms(1,2), of n]) (simp add: x)
    moreover have "drop 16 (snd y) = sha256 (fst y)" by (rule docs_ok_digest[OF assms(1,3), of n]) (simp add: y)
    moreover have "fst x \<in> V" "fst y \<in> V" using assms(5,6) x y by blast+
    ultimately show ?thesis using e inj_on_eq_iff[OF assms(4), of "fst x" "fst y"] by (simp add: prod_eq_iff)
  qed
  then show ?thesis unfolding x y by (rule newer_tie)
qed simp_all

lemma snapshot_no_faults:
  assumes "sha256_law sha256" "docs_ok sha256 docs"
  obtains rs bs where "docs = map row_of rs" "checkRecords sha256 rs = None" "Syncer_snapshot sha256 no_faults docs = Inr bs"
    "EncodeSnapshot sha256 rs = Inr bs"
proof -
  obtain rs where rs: "docs = map row_of rs" "checkRecords sha256 rs = None" "readRecords sha256 docs = Inr rs"
    using docs_okE[OF assms] by blast
  then show ?thesis
    using that[of rs "json_snapshot rs"]
    by (simp add: Syncer_snapshot_def Snapshot_def no_faults_def queried_def EncodeSnapshot_def)
qed

lemma Merge_into:
  assumes "sha256_law sha256" "docs_ok sha256 docs" "docs_ok sha256 (map row_of rs)" "docs_ok sha256 J"
    and "checkRecords sha256 rs = None" "map_of J = (\<lambda>n. newer (map_of docs n) (map_of (map row_of rs) n))"
  shows "Merge sha256 no_faults docs rs = (J, None)"
proof -
  have "merged rs docs = J"
    using merged_snapshot[of docs rs] assms by (intro om_wf_eq) (simp_all add: docs_ok_def)
  then show ?thesis using Merge_no_faults[OF assms(2,5)] assms(4) by (simp add: docs_ok_def)
qed

lemma exchange_unites:
  assumes "sha256_law sha256" "decoder_law sha256 unmarshal" "inj_on sha256 V"
    and "docs_ok sha256 A" "\<forall>n row. map_of A n = Some row \<longrightarrow> fst row \<in> V"
    and "docs_ok sha256 B" "\<forall>n row. map_of B n = Some row \<longrightarrow> fst row \<in> V"
    and "docs_ok sha256 J" "map_of J = (\<lambda>n. newer (map_of A n) (map_of B n))"
  shows "exchange_round sha256 unmarshal no_exchange_faults A B = (J, J, None)"
proof -
  obtain ra qa where a: "A = map row_of ra" "checkRecords sha256 ra = None" "Syncer_snapshot sha256 no_faults A = Inr qa"
    "EncodeSnapshot sha256 ra = Inr qa" using snapshot_no_faults[OF assms(1,4)] .
  obtain rj qj where j: "J = map row_of rj" "checkRecords sha256 rj = None" "Syncer_snapshot sha256 no_faults J = Inr qj"
    "EncodeSnapshot sha256 rj = Inr qj" using snapshot_no_faults[OF assms(1,8)] .
  have J: "map_of J = (\<lambda>n. newer (map_of B n) (map_of A n))"
    using newer_commute[OF assms(1,4,6,3,5,7)] by (simp add: assms(9))
  then have "Merge sha256 no_faults B ra = (J, None)"
    using Merge_into[OF assms(1,6) _ assms(8) a(2)] assms(4) by (simp add: a(1)[symmetric])
  moreover have "map_of J = (\<lambda>n. newer (map_of A n) (map_of J n))" by (simp add: assms(9) newer_idem)
  then have "Merge sha256 no_faults A rj = (J, None)"
    using Merge_into[OF assms(1,4) _ assms(8) j(2)] assms(8) by (simp add: j(1)[symmetric])
  ultimately show ?thesis
    using a(3) j(3) DecodeSnapshot_encoded[OF assms(2) a(4)] DecodeSnapshot_encoded[OF assms(2) j(4)]
    by (simp add: exchange_round_def no_exchange_faults_def Syncer_Exchange_def Syncer_exchange_def)
qed

end
