(* ===== verification/Config_Theorems.thy ===== *)
theory Config_Theorems
  imports Config_Store
begin

text \<open>
  What the configuration store promises its users: guarded saves, convergence of the replicas, and exchanges
  that unite two of them. The theorems are instantiated with a decoder for the snapshots the store writes.
\<close>

subsection \<open>A decoder\<close>

definition expect :: "string \<Rightarrow> string \<Rightarrow> string option" where
  "expect p s = (if HasPrefix s p then Some (drop (length p) s) else None)"

lemma expect_append [simp]: "expect p (p @ s) = Some s"
  by (simp add: expect_def)

text \<open>The rest of a JSON string, up to its closing quote, and what follows it.\<close>

function unescape :: "string \<Rightarrow> (string \<times> string) option" where
  "unescape [] = None"
| "unescape (c # s) =
     (if c = CHR 0x22 then Some ([], s)
      else if c \<noteq> CHR 0x5C then map_option (\<lambda>(x, t). (c # x, t)) (unescape s)
      else if s = [] then None
      else if hd s = CHR 0x22 \<or> hd s = CHR 0x5C then map_option (\<lambda>(x, t). (hd s # x, t)) (unescape (tl s))
      else if take 5 s = ''u003c'' then map_option (\<lambda>(x, t). (CHR ''<'' # x, t)) (unescape (drop 5 s))
      else if take 5 s = ''u003e'' then map_option (\<lambda>(x, t). (CHR ''>'' # x, t)) (unescape (drop 5 s))
      else if take 5 s = ''u0026'' then map_option (\<lambda>(x, t). (CHR ''&'' # x, t)) (unescape (drop 5 s))
      else None)"
  by pat_completeness auto
termination by (relation "measure length") auto

declare unescape.simps(2) [simp del]

lemma unescape_plain:
  "c \<noteq> CHR 0x22 \<Longrightarrow> c \<noteq> CHR 0x5C \<Longrightarrow> unescape (c # s) = map_option (\<lambda>(x, t). (c # x, t)) (unescape s)"
  by (simp add: unescape.simps(2))

lemma unescape_escape: "unescape (json_escape c @ s) = map_option (\<lambda>(x, t). (c # x, t)) (unescape s)"
  by (simp add: json_escape_def unescape.simps(2))

lemma unescape_string: "unescape (concat (map json_escape x) @ CHR 0x22 # t) = Some (x, t)"
  by (induction x) (simp_all add: unescape_escape unescape.simps(2))

lemma unescape_text:
  "list_all (\<lambda>c. c \<noteq> CHR 0x22 \<and> c \<noteq> CHR 0x5C) x \<Longrightarrow> unescape (x @ CHR 0x22 # t) = Some (x, t)"
  by (induction x) (simp_all add: unescape_plain unescape.simps(2))

definition of_std :: "char \<Rightarrow> char" where
  "of_std c = (if c = CHR ''+'' then CHR ''-'' else if c = CHR ''/'' then CHR ''_'' else c)"

definition std_decode :: "string \<Rightarrow> bytes option" where
  "std_decode s = b64_DecodeString (map of_std (filter (\<lambda>c. c \<noteq> CHR ''='') s))"

definition field :: "string \<Rightarrow> string" where
  "field x = json_string x @ [CHR '':'', CHR 0x22]"

definition parse_value :: "string \<Rightarrow> (bytes \<times> string) option" where
  "parse_value s =
     (case expect [CHR 0x7D] s of
        Some t \<Rightarrow> Some ([], t)
      | None \<Rightarrow>
          (case expect ('','' @ field ''value'') s of
             None \<Rightarrow> None
           | Some t \<Rightarrow>
               (case unescape t of
                  None \<Rightarrow> None
                | Some (x, t') \<Rightarrow>
                    (case (std_decode x, expect [CHR 0x7D] t') of (Some v, Some t'') \<Rightarrow> Some (v, t'') | _ \<Rightarrow> None))))"

definition parse_record :: "string \<Rightarrow> (Record \<times> string) option" where
  "parse_record s =
     (case expect (CHR 0x7B # field ''name'') s of
        None \<Rightarrow> None
      | Some t \<Rightarrow>
          (case unescape t of
             None \<Rightarrow> None
           | Some (name, t1) \<Rightarrow>
               (case expect ('','' @ field ''version'') t1 of
                  None \<Rightarrow> None
                | Some t2 \<Rightarrow>
                    (case unescape t2 of
                       None \<Rightarrow> None
                     | Some (ver, t3) \<Rightarrow>
                         (case (UnmarshalText ver, parse_value t3) of
                            (Inr v, Some (value, t4)) \<Rightarrow> Some (\<lparr>rc_Name = name, rc_Version = v, rc_Value = value\<rparr>, t4)
                          | _ \<Rightarrow> None)))))"

text \<open>The first argument bounds the number of records.\<close>

fun parse_records :: "nat \<Rightarrow> string \<Rightarrow> Record list option" where
  "parse_records 0 s = None"
| "parse_records (Suc n) s =
     (case parse_record s of
        None \<Rightarrow> None
      | Some (r, t) \<Rightarrow>
          if t = '']'' @ [CHR 0x7D] then Some [r]
          else (case expect '','' t of None \<Rightarrow> None | Some t' \<Rightarrow> map_option ((#) r) (parse_records n t')))"

definition sample_decoder :: snapshot_decoder where
  "sample_decoder bs =
     (case expect (CHR 0x7B # json_string ''format'' @ '':1,'' @ json_string ''records'' @ '':['') bs of
        None \<Rightarrow> Inl ErrUnsupportedFormat
      | Some t \<Rightarrow>
          if t = '']'' @ [CHR 0x7D] then Inr (1, Some [])
          else (case parse_records (length t) t of None \<Rightarrow> Inl ErrUnsupportedFormat | Some rs \<Rightarrow> Inr (1, Some rs)))"

lemma set_b64: "set (b64_encode bs) \<subseteq> set base64url"
proof -
  have "enc6 n \<in> set base64url" if "n < 64" for n
    using that nth_mem[of n base64url] by (simp add: enc6_def base64url_def del: nth_mem)
  then show ?thesis using b64_values_less[of bs] by (auto simp: b64_encode_values list_all_iff)
qed

definition to_std :: "char \<Rightarrow> char" where
  "to_std c = (if c = CHR ''-'' then CHR ''+'' else if c = CHR ''_'' then CHR ''/'' else c)"

lemma to_std_facts:
  "\<forall>c \<in> set base64url. of_std (to_std c) = c \<and> to_std c \<noteq> CHR ''='' \<and> to_std c \<noteq> CHR 0x22 \<and> to_std c \<noteq> CHR 0x5C"
  by (simp add: base64url_def of_std_def to_std_def)

lemma to_std_b64:
  "c \<in> set (b64_encode bs) \<Longrightarrow> of_std (to_std c) = c"
  "c \<in> set (b64_encode bs) \<Longrightarrow> to_std c \<noteq> CHR ''='' \<and> to_std c \<noteq> CHR 0x22 \<and> to_std c \<noteq> CHR 0x5C"
  using to_std_facts set_b64[of bs] by blast+

lemma std_decode_text:
  "std_decode (map to_std (b64_encode bs) @ replicate k CHR ''='') = Some bs"
proof -
  have "filter (\<lambda>c. c \<noteq> CHR ''='') (map to_std (b64_encode bs)) = map to_std (b64_encode bs)"
    using to_std_b64(2)[of _ bs] by (auto simp: filter_id_conv)
  moreover have "map of_std (map to_std (b64_encode bs)) = b64_encode bs"
    using to_std_b64(1)[of _ bs] by (simp add: map_idI)
  ultimately show ?thesis by (simp add: std_decode_def b64_roundtrip)
qed

lemma json_bytes_text:
  "\<exists>k. json_bytes bs = CHR 0x22 # (map to_std (b64_encode bs) @ replicate k CHR ''='') @ [CHR 0x22]"
  unfolding json_bytes_def Let_def to_std_def append_assoc by blast

lemma unescape_json_bytes:
  "\<exists>x. json_bytes bs @ t = CHR 0x22 # x @ CHR 0x22 # t \<and> unescape (x @ CHR 0x22 # t) = Some (x, t) \<and> std_decode x = Some bs"
proof -
  obtain k where k: "json_bytes bs = CHR 0x22 # (map to_std (b64_encode bs) @ replicate k CHR ''='') @ [CHR 0x22]"
    using json_bytes_text by blast
  define x where "x = map to_std (b64_encode bs) @ replicate k CHR ''=''"
  have "list_all (\<lambda>c. c \<noteq> CHR 0x22 \<and> c \<noteq> CHR 0x5C) x"
    using to_std_b64(2)[of _ bs] by (auto simp: x_def list_all_iff)
  then have "unescape (x @ CHR 0x22 # t) = Some (x, t)" by (rule unescape_text)
  moreover have "json_bytes bs @ t = CHR 0x22 # x @ CHR 0x22 # t" by (simp add: k x_def)
  moreover have "std_decode x = Some bs" unfolding x_def by (rule std_decode_text)
  ultimately show ?thesis by blast
qed

lemma parse_value_encoded:
  "parse_value ((if v = [] then [] else '','' @ json_string ''value'' @ '':'' @ json_bytes v) @ CHR 0x7D # t) = Some (v, t)"
proof (cases "v = []")
  case True
  then show ?thesis using expect_append[of "[CHR 0x7D]" t] by (simp add: parse_value_def)
next
  case False
  obtain x where x: "json_bytes v @ CHR 0x7D # t = CHR 0x22 # x @ CHR 0x22 # CHR 0x7D # t"
    "unescape (x @ CHR 0x22 # CHR 0x7D # t) = Some (x, CHR 0x7D # t)" "std_decode x = Some v"
    using unescape_json_bytes by blast
  have s: "('','' @ json_string ''value'' @ '':'' @ json_bytes v) @ CHR 0x7D # t =
      ('','' @ field ''value'') @ x @ CHR 0x22 # CHR 0x7D # t"
    using x(1) by (simp add: field_def)
  have "expect [CHR 0x7D] (('','' @ field ''value'') @ x @ CHR 0x22 # CHR 0x7D # t) = None"
    by (simp add: expect_def HasPrefix_def)
  then show ?thesis
    using False x(2,3) expect_append[of "[CHR 0x7D]" t] unfolding s if_not_P[OF False]
    by (simp add: parse_value_def expect_append[of "'','' @ field ''value''", simplified])
qed

lemma json_Record_fields:
  "json_Record r @ t =
     (CHR 0x7B # field ''name'') @ concat (map json_escape (rc_Name r)) @ CHR 0x22 #
     ('','' @ field ''version'') @ concat (map json_escape (MarshalText (rc_Version r))) @ CHR 0x22 #
     (if rc_Value r = [] then [] else '','' @ json_string ''value'' @ '':'' @ json_bytes (rc_Value r)) @ CHR 0x7D # t"
  by (simp add: json_Record_def field_def json_string_def[of "rc_Name r"] json_string_def[of "MarshalText (rc_Version r)"])

lemma parse_record_encoded:
  assumes "version_ok (rc_Version r)"
  shows "parse_record (json_Record r @ t) = Some (r, t)"
  unfolding json_Record_fields parse_record_def expect_append option.case unescape_string prod.case
    unmarshal_marshal[OF assms] parse_value_encoded sum.case by simp

lemma parse_records_encoded:
  assumes "\<And>r. r \<in> set rs \<Longrightarrow> version_ok (rc_Version r)" "rs \<noteq> []" "length rs \<le> n"
  shows "parse_records n (json_list (map json_Record rs) @ '']'' @ [CHR 0x7D]) = Some rs"
  using assms
proof (induction rs arbitrary: n rule: induct_list012)
  case (2 r)
  then obtain m where "n = Suc m" by (cases n) auto
  then show ?case using 2(1)[of r] by (simp add: parse_record_encoded)
next
  case (3 r q rs)
  then obtain m where m: "n = Suc m" "length (q # rs) \<le> m" by (cases n) auto
  let ?t = "'','' @ json_list (map json_Record (q # rs)) @ '']'' @ [CHR 0x7D]"
  have "parse_record (json_Record r @ ?t) = Some (r, ?t)" using 3(3)[of r] by (intro parse_record_encoded) simp
  moreover have "parse_records m (json_list (map json_Record (q # rs)) @ '']'' @ [CHR 0x7D]) = Some (q # rs)"
    using 3(2)[of m] 3(3) m(2) by simp
  moreover have "expect '','' ?t = Some (json_list (map json_Record (q # rs)) @ '']'' @ [CHR 0x7D])" by (rule expect_append)
  ultimately show ?case by (simp add: m(1))
qed simp

lemma json_Record_not_end: "json_list (map json_Record (r # rs)) @ t \<noteq> CHR '']'' # u"
  by (cases rs) (simp_all add: json_Record_def)

lemma length_json_list: "length rs \<le> length (json_list (map json_Record rs))"
  by (induction rs rule: induct_list012) (simp_all add: json_Record_def)

lemma sample_decoder_law:
  assumes "sha256_law sha256"
  shows "decoder_law sha256 sample_decoder"
  unfolding decoder_law_def
proof (intro allI impI)
  fix rs assume c: "checkRecords sha256 rs = None"
  let ?t = "json_list (map json_Record rs) @ '']'' @ [CHR 0x7D]"
  have s: "json_snapshot rs = (CHR 0x7B # json_string ''format'' @ '':1,'' @ json_string ''records'' @ '':['') @ ?t"
    by (simp add: json_snapshot_def)
  show "sample_decoder (json_snapshot rs) = Inr (1, Some rs)"
  proof (cases rs)
    case Nil
    then show ?thesis unfolding s sample_decoder_def expect_append by simp
  next
    case (Cons r rs')
    have "parse_records (length ?t) ?t = Some rs"
      using checkRecords_valid[OF c] valid_version_ok[OF assms] Cons length_json_list[of rs]
      by (intro parse_records_encoded) (auto simp del: json_list.simps)
    moreover have "?t \<noteq> '']'' @ [CHR 0x7D]"
      using json_Record_not_end[of r rs' "'']'' @ [CHR 0x7D]" "[CHR 0x7D]"] unfolding Cons by (simp only: append_Cons append_Nil simp_thms)
    ultimately show ?thesis unfolding s sample_decoder_def expect_append option.case by simp
  qed
qed

subsection \<open>Sample documents\<close>

definition sample_sha :: "bytes \<Rightarrow> bytes" where
  "sample_sha v = take 32 (v @ replicate 32 CHR 0x00)"

lemma sample_sha_law: "sha256_law sample_sha"
  by (simp add: sha256_law_def sample_sha_def min_def)

lemma length_json_escape: "length (concat (map json_escape s)) \<le> 6 * length s"
  by (induction s) (auto simp: json_escape_def)

lemma length_json_Record:
  "version_ok (rc_Version r) \<Longrightarrow> length (json_Record r) \<le> 512 + 6 * length (rc_Name r) + 2 * length (rc_Value r)"
proof -
  assume "version_ok (rc_Version r)"
  then have "length (MarshalText (rc_Version r)) = 64" by (simp add: MarshalText_def length_b64 version_bytes_def version_ok_def)
  then have "length (concat (map json_escape (MarshalText (rc_Version r)))) \<le> 384"
    using length_json_escape[of "MarshalText (rc_Version r)"] by simp
  moreover have "length (json_bytes (rc_Value r)) \<le> 10 + 2 * length (rc_Value r)"
    by (simp add: json_bytes_def Let_def length_b64)
  ultimately show ?thesis
    using length_json_escape[of "rc_Name r"] by (simp add: json_Record_def json_string_def json_escape_def)
qed

definition sample_record :: "string \<Rightarrow> bytes \<Rightarrow> Record" where
  "sample_record name value =
     \<lparr>rc_Name = name, rc_Version = \<lparr>ve_Schema = 1, ve_Revision = 1, ve_Digest = sample_sha value\<rparr>, rc_Value = value\<rparr>"

lemma sample_names: "validName ''waf''" "validName ''dns''"
  by (simp_all add: validName_def MaxNameBytes_def code_def IsControl_def IsSpace_def in_range_def)

lemma sample_valid:
  "name \<in> {''waf'', ''dns''} \<Longrightarrow> length value \<le> 32 \<Longrightarrow> record_Validate sample_sha (sample_record name value) = None"
  using sample_names by (auto simp: record_Validate_def sample_record_def MaxValueBytes_def)

lemma sample_size:
  assumes "name \<in> {''waf'', ''dns''}" "length value \<le> 32"
  shows "length (json_Record (sample_record name value)) \<le> 1000"
  using length_json_Record[OF valid_version_ok[OF sample_sha_law sample_valid[OF assms]]] assms
  by (auto simp: sample_record_def)

lemma sample_docs_ok:
  assumes "length v \<le> 32" "length w \<le> 32"
  shows "docs_ok sample_sha []" "docs_ok sample_sha [row_of (sample_record ''waf'' v)]"
    "docs_ok sample_sha [row_of (sample_record ''dns'' w)]"
    "docs_ok sample_sha [row_of (sample_record ''dns'' w), row_of (sample_record ''waf'' v)]"
proof -
  have *: "docs_ok sample_sha (map row_of rs)" if "checkRecords sample_sha rs = None" "om_wf (map row_of rs)" for rs
    using that readRecords_Inr[OF sample_sha_law, of "map row_of rs" rs] by (simp add: docs_ok_def)
  have v: "record_Validate sample_sha (sample_record ''waf'' v) = None" "record_Validate sample_sha (sample_record ''dns'' w) = None"
    using sample_valid assms by simp_all
  have s: "length (json_Record (sample_record ''waf'' v)) \<le> 1000" "length (json_Record (sample_record ''dns'' w)) \<le> 1000"
    using sample_size assms by simp_all
  have c: "checkRecords sample_sha [] = None" "checkRecords sample_sha [sample_record ''waf'' v] = None"
    "checkRecords sample_sha [sample_record ''dns'' w] = None"
    "checkRecords sample_sha [sample_record ''dns'' w, sample_record ''waf'' v] = None"
    using v s by (simp_all add: checkRecords_def MaxDocuments_def MaxSnapshotBytes_def Let_def)
  have o: "om_wf (map row_of [sample_record ''waf'' v])" "om_wf (map row_of [sample_record ''dns'' w])"
    "om_wf (map row_of [sample_record ''dns'' w, sample_record ''waf'' v])"
    by (simp_all add: om_wf_def row_of_def sample_record_def less_char_def)
  show "docs_ok sample_sha []" "docs_ok sample_sha [row_of (sample_record ''waf'' v)]"
    "docs_ok sample_sha [row_of (sample_record ''dns'' w)]"
    "docs_ok sample_sha [row_of (sample_record ''dns'' w), row_of (sample_record ''waf'' v)]"
    using *[OF c(1)] *[OF c(2) o(1)] *[OF c(3) o(2)] *[OF c(4) o(3)] by simp_all
qed

lemma sample_put:
  "Store_Put sample_sha no_faults [] ''waf'' 1 ''a'' [] =
     ([row_of (sample_record ''waf'' ''a'')], Inr (sample_record ''waf'' ''a''))"
proof -
  let ?r = "sample_record ''waf'' ''a''"
  have n: "NewRecord sample_sha ''waf'' 1 1 ''a'' = Inr ?r"
    using sample_valid[of "''waf''" "''a''"] by (simp add: NewRecord_def MaxValueBytes_def sample_record_def Let_def)
  then have p: "put_record sample_sha [] ''waf'' 1 ''a'' [] = Inr ?r"
    by (simp add: put_record_def readRecord_def record_Token_def)
  have "writeRecords None [?r] [] = ([row_of ?r], Inr True)"
    by (simp add: upsert_def row_of_def)
  moreover have "is_ok (readRecords sample_sha [])" "is_ok (readRecords sample_sha [row_of ?r])"
    using sample_docs_ok[of "''a''" "''a''"] by (simp_all add: docs_ok_def)
  moreover have "df_Exec no_faults = None" by (simp add: no_faults_def)
  ultimately show ?thesis by (auto simp: Store_Put_def Store_write_no_faults p is_ok_iff)
qed

lemma sample_values: "inj_on sample_sha {''a'', ''b''}"
  by (simp add: sample_sha_def)

lemma sample_unites:
  "exchange_round sample_sha sample_decoder no_exchange_faults [] [row_of (sample_record ''waf'' ''a'')] =
     ([row_of (sample_record ''waf'' ''a'')], [row_of (sample_record ''waf'' ''a'')], None)"
  by (rule exchange_unites[OF sample_sha_law sample_decoder_law[OF sample_sha_law] sample_values
        sample_docs_ok(1)[of "[]" "[]"] _ sample_docs_ok(2)[of "''a''" "[]"] _ sample_docs_ok(2)[of "''a''" "[]"]])
    (auto simp: row_of_def sample_record_def split: if_splits)

text \<open>Replica 1 asks replica 0, which saves a document before it answers.\<close>

lemma exchange_round_None:
  assumes "exchange_round sha256 unmarshal no_exchange_faults A B = (A', B', None)"
  obtains request response where "Syncer_snapshot sha256 no_faults A = Inr request"
    "Syncer_Exchange sha256 unmarshal no_faults no_faults B request = (B', Inr response)"
    "Syncer_exchange sha256 unmarshal no_faults A (Inr response) = (A', None)"
  using assms by (auto simp: exchange_round_def no_exchange_faults_def Syncer_exchange_def split: sum.splits prod.splits)

abbreviation "sample_events \<equiv> [Ask 1 no_faults, Edit 0 no_faults ''waf'' 1 ''a'' [], Answer 0 0 no_faults no_faults, Adopt 1 1 no_faults]"

lemma sample_run:
  "\<exists>heard msgs. fold (gossip sample_sha sample_decoder) sample_events (\<lambda>i. [], \<lambda>i. {map_of []}, []) =
     ((\<lambda>i. [])(0 := [row_of (sample_record ''waf'' ''a'')], 1 := [row_of (sample_record ''waf'' ''a'')]), heard, msgs) \<and>
     heard 0 = heard 1"
proof -
  obtain request response where "Syncer_snapshot sample_sha no_faults [] = Inr request"
    "Syncer_Exchange sample_sha sample_decoder no_faults no_faults [row_of (sample_record ''waf'' ''a'')] request =
      ([row_of (sample_record ''waf'' ''a'')], Inr response)"
    "Syncer_exchange sample_sha sample_decoder no_faults [] (Inr response) = ([row_of (sample_record ''waf'' ''a'')], None)"
    by (rule exchange_round_None[OF sample_unites])
  then show ?thesis by (simp add: sample_put Let_def)
qed

subsection \<open>Tokens\<close>

lemma split_dots_plain: "CHR ''.'' \<notin> set s \<Longrightarrow> split_dots s = [s]"
  by (induction s) auto

lemma split_dots_append: "CHR ''.'' \<notin> set s \<Longrightarrow> split_dots (s @ ''.'' @ t) = s # split_dots t"
  by (induction s) auto

lemma b64_no_dot: "CHR ''.'' \<notin> set (b64_encode bs)"
  using set_b64[of bs] by (auto simp: base64url_def)

lemma b64_loose_Cons4: "b64_loose (w # x # y # z # s) = w # x # y # z # b64_loose s"
proof (cases s)
  case (Cons a as)
  have "(5 + length as) mod 4 = Suc (length as) mod 4" using mod_add_self1[of 4 "Suc (length as)"] by simp
  then show ?thesis using Cons by (simp add: b64_loose_def Let_def)
qed (simp add: b64_loose_def)

lemma b64_loose_values: "b64_loose (b64_values bs) = b64_values bs"
proof (induction bs rule: b64_values.induct)
  case (4 a b c s)
  then show ?case by (simp add: b64_loose_Cons4)
qed (simp_all add: b64_loose_def Let_def)

lemma b64_DecodeLoose_encode: "b64_DecodeLoose (b64_encode bs) = Some bs"
proof -
  let ?ds = "map dec6 (filter (\<lambda>c. c \<noteq> CHR 0x0A \<and> c \<noteq> CHR 0x0D) (b64_encode bs))"
  have v: "list_all (\<lambda>n. n < 64) (b64_values bs)" by (rule b64_values_less)
  have "filter (\<lambda>c. c \<noteq> CHR 0x0A \<and> c \<noteq> CHR 0x0D) (b64_encode bs) = b64_encode bs"
    using set_b64[of bs] by (auto simp: filter_id_conv base64url_def)
  then have "?ds = map Some (b64_values bs)"
    using v by (simp add: b64_encode_values dec6_enc6 list_all_iff)
  then show ?thesis
    by (simp add: b64_DecodeLoose_def Let_def image_iff comp_def b64_loose_values b64_decode_values del: map_eq_conv)
qed

lemma CompareVersion_Token:
  assumes "validName (rc_Name r)" "version_ok v"
  shows "CompareVersion r (Token (r\<lparr>rc_Version := v\<rparr>)) = Inr (version_compare (rc_Version r) v)"
proof -
  let ?tok = "Token (r\<lparr>rc_Version := v\<rparr>)"
  have n: "rc_Name r \<noteq> []" "length (rc_Name r) \<le> 512" using assms(1) by (auto simp: validName_def MaxNameBytes_def)
  then have t: "?tok = ''v1'' @ ''.'' @ b64_encode (rc_Name r) @ ''.'' @ MarshalText v" by (simp add: Token_def)
  have m: "length (MarshalText v) = 64" using assms(2) by (simp add: MarshalText_def length_b64 version_bytes_def version_ok_def)
  have "length ?tok \<le> 1024" using n m by (simp add: t length_b64)
  moreover have "split_dots ?tok = [''v1'', b64_encode (rc_Name r), MarshalText v]"
    using split_dots_append[of "''v1''" "b64_encode (rc_Name r) @ ''.'' @ MarshalText v"]
      split_dots_append[OF b64_no_dot, of "rc_Name r" "MarshalText v"] split_dots_plain[OF b64_no_dot, of "version_bytes v"]
    unfolding t by (simp add: MarshalText_def)
  moreover have "Token \<lparr>rc_Name = rc_Name r, rc_Version = v, rc_Value = []\<rparr> = ?tok" by (simp add: Token_def)
  ultimately show ?thesis
    using assms(1) b64_DecodeLoose_encode[of "rc_Name r"] unmarshal_marshal[OF assms(2)] by (simp add: CompareVersion_def)
qed

subsection \<open>The properties\<close>

text \<open>C13: Saving a document is guarded by its token. A save that succeeds was made with the token of the
  current document, leaves the other documents alone, stores exactly the submitted value under a version
  that is strictly newer, and makes the token stale: every further save with the same token is refused and
  changes nothing. A save that fails changes nothing, unless its error says that the outcome is uncertain.\<close>

theorem config_put_guarded:
  assumes "sha256_law sha256" "docs_ok sha256 docs"
    and "Store_Put sha256 f docs name schema value tok = (docs', res)"
  shows "docs_ok sha256 docs' \<and> (\<forall>n. n \<noteq> name \<longrightarrow> map_of docs' n = map_of docs n) \<and>
    (case res of
       Inl e \<Rightarrow> docs' = docs \<or> (\<exists>e'. e = ErrDurabilityUncertain e')
     | Inr r \<Rightarrow>
         rc_Value r = value \<and> ve_Schema (rc_Version r) = schema \<and>
         Store_Get sha256 no_faults docs' name = Inr (Some r) \<and>
         (\<exists>cur. Store_Get sha256 no_faults docs name = Inr cur \<and> record_Token cur = tok \<and>
           (\<forall>c. cur = Some c \<longrightarrow> version_compare (rc_Version c) (rc_Version r) < 0)) \<and>
         (\<forall>f' schema' value'. \<exists>e. Store_Put sha256 f' docs' name schema' value' tok = (docs', Inl e)) \<and>
         (\<forall>schema' value'. Store_Put sha256 no_faults docs' name schema' value' tok = (docs', Inl ErrConflict)))"
  using assms(3)
proof (cases rule: Store_Put_cases[OF assms(1,2), consumes 1, case_names saved failed landed])
  case (saved r)
  note p = put_record_Inr[OF assms(1) saved(2)]
  have m: "map_of docs' = (map_of docs)(name \<mapsto> snd (row_of r))" by (simp add: saved(3))
  have read: "readRecord sha256 docs' name = Inr (Some r)"
    using readRecord_stored[OF assms(1) p(4), of docs'] m p(1) by simp
  have stale: "put_record sha256 docs' name schema' value' tok = Inl ErrConflict" for schema' value'
    by (rule put_record_stale[OF assms(1) saved(2) read])
  have again: "\<exists>e. Store_Put sha256 f' docs' name schema' value' tok = (docs', Inl e)" for f' schema' value'
  proof -
    obtain d res' where put: "Store_Put sha256 f' docs' name schema' value' tok = (d, res')" by fastforce
    then show ?thesis
      by (cases rule: Store_Put_cases[OF assms(1) saved(4), consumes 1, case_names saved failed landed])
        (simp_all add: stale put)
  qed
  have "Store_Put sha256 no_faults docs' name schema' value' tok = (docs', Inl ErrConflict)" for schema' value'
    using saved(4) by (simp add: Store_Put_def stale Store_write_no_faults docs_ok_def)
  moreover obtain cur where "Store_Get sha256 no_faults docs name = Inr cur" "record_Token cur = tok"
    "\<And>c. cur = Some c \<Longrightarrow> version_compare (rc_Version c) (rc_Version r) < 0"
    using put_record_read[OF assms(1) saved(2)] Store_Get_no_faults by metis
  ultimately show ?thesis
    using saved(1,4) p m again Store_Get_no_faults[OF read] by auto
next
  case (failed e)
  then show ?thesis using assms(2) by simp
next
  case (landed e r)
  then show ?thesis by simp
qed

theorem config_put_guarded_witness:
  "\<exists>docs' r. Store_Put sample_sha no_faults [] ''waf'' 1 ''a'' [] = (docs', Inr r) \<and>
     Store_Put sample_sha no_faults docs' ''waf'' 1 ''b'' [] = (docs', Inl ErrConflict)"
  using config_put_guarded[OF sample_sha_law sample_docs_ok(1)[of "[]" "[]"] sample_put] sample_put by auto

text \<open>C12: Replicas converge. Start any number of replicas with valid contents and let saves at single
  replicas, requests, answers and the merging of answers happen in any order, with any database fault and
  with snapshots lost, delayed or handled twice. Then every replica holds, document by document, the newest
  version among the contributions it has heard of, and two replicas that have heard of the same
  contributions hold the same documents - however the contributions reached them. The digest has no
  collisions on the values used.\<close>

theorem config_converges:
  assumes "sha256_law sha256" "decoder_law sha256 unmarshal" "inj_on sha256 V"
    and "\<forall>i. docs_ok sha256 (reps i) \<and> (\<forall>n row. map_of (reps i) n = Some row \<longrightarrow> fst row \<in> V)"
    and "\<forall>ev \<in> set evs. edited ev \<subseteq> V"
    and "fold (gossip sha256 unmarshal) evs (reps, \<lambda>i. {map_of (reps i)}, []) = (reps', heard, msgs)"
  shows "(\<forall>i. newest (map_of (reps' i)) (heard i)) \<and> (\<forall>i j. heard i = heard j \<longrightarrow> reps' i = reps' j)"
proof -
  have "gossip_inv sha256 V (reps, \<lambda>i. {map_of (reps i)}, [])"
    using assms(4) by (simp add: gossip_inv_def heard_ok_def newest_single)
  from gossip_inv_run[OF assms(1,2) this assms(5)]
  have ok: "docs_ok sha256 (reps' i)" "heard_ok V (map_of (reps' i)) (heard i)" for i
    unfolding assms(6) gossip_inv_def by simp_all
  have inv: "newest (map_of (reps' i)) (heard i)" "\<And>c n row. c \<in> heard i \<Longrightarrow> c n = Some row \<Longrightarrow> fst row \<in> V" for i
    using ok(2)[of i] unfolding heard_ok_def by blast+
  have "reps' i = reps' j" if "heard i = heard j" for i j
    using newest_unique[OF assms(1) ok(1)[of i] ok(1)[of j] inv(1)[of i] _ inv(2)[of _ i] assms(3)] inv(1)[of j] that
    by simp
  then show ?thesis using inv(1) by blast
qed

theorem config_converges_witness:
  "\<exists>reps' heard msgs. fold (gossip sample_sha sample_decoder) sample_events (\<lambda>i. [], \<lambda>i. {map_of []}, []) = (reps', heard, msgs) \<and>
     newest (map_of (reps' 1)) (heard 1) \<and> reps' 0 = reps' 1 \<and> map_of (reps' 1) ''waf'' \<noteq> None"
proof -
  obtain heard msgs where run: "fold (gossip sample_sha sample_decoder) sample_events (\<lambda>i. [], \<lambda>i. {map_of []}, []) =
     ((\<lambda>i. [])(0 := [row_of (sample_record ''waf'' ''a'')], 1 := [row_of (sample_record ''waf'' ''a'')]), heard, msgs)"
    and h: "heard 0 = heard 1"
    using sample_run by blast
  let ?reps = "(\<lambda>i. [])(0 := [row_of (sample_record ''waf'' ''a'')], 1 := [row_of (sample_record ''waf'' ''a'')])"
  have "(\<forall>i. newest (map_of (?reps i)) (heard i)) \<and> (\<forall>i j. heard i = heard j \<longrightarrow> ?reps i = ?reps j)"
    by (rule config_converges[OF sample_sha_law sample_decoder_law[OF sample_sha_law] sample_values _ _ run])
      (use sample_docs_ok(1)[of "[]" "[]"] in auto)
  moreover have "map_of (?reps 1) ''waf'' \<noteq> None" by (simp add: row_of_def sample_record_def)
  ultimately show ?thesis using run h by (intro exI[of _ ?reps] exI[of _ heard] exI[of _ msgs]) blast
qed

text \<open>C14: One exchange is enough for two replicas. When nothing fails and the newest versions of all documents
  of both replicas together respect the limits of a replica, an exchange succeeds and leaves exactly those
  documents in both.\<close>

theorem config_exchange_unites:
  assumes "sha256_law sha256" "decoder_law sha256 unmarshal" "inj_on sha256 V"
    and "docs_ok sha256 A" "\<forall>n row. map_of A n = Some row \<longrightarrow> fst row \<in> V"
    and "docs_ok sha256 B" "\<forall>n row. map_of B n = Some row \<longrightarrow> fst row \<in> V"
    and "docs_ok sha256 J" "map_of J = (\<lambda>n. newer (map_of A n) (map_of B n))"
  shows "exchange_round sha256 unmarshal no_exchange_faults A B = (J, J, None)"
  using assms by (rule exchange_unites)


theorem config_exchange_unites_witness:
  "exchange_round sample_sha sample_decoder no_exchange_faults
      [row_of (sample_record ''waf'' ''a'')] [row_of (sample_record ''dns'' ''b'')] =
    ([row_of (sample_record ''dns'' ''b''), row_of (sample_record ''waf'' ''a'')],
     [row_of (sample_record ''dns'' ''b''), row_of (sample_record ''waf'' ''a'')], None)"
  by (rule config_exchange_unites[OF sample_sha_law sample_decoder_law[OF sample_sha_law] sample_values
        sample_docs_ok(2)[of "''a''" "''b''"] _ sample_docs_ok(3)[of "''a''" "''b''"] _ sample_docs_ok(4)[of "''a''" "''b''"]])
    (auto simp: row_of_def sample_record_def fun_eq_iff split: if_splits)

text \<open>C28: A token stands for one version of one document. A document accepts exactly the tokens of the well-formed
  versions of documents of its name, and answers with the order of the versions, which is also the order the
  database compares the encoded versions by.\<close>

theorem config_token_versions:
  assumes "validName (rc_Name r)"
  shows "CompareVersion r token = Inr c \<longleftrightarrow>
    (\<exists>v. version_ok v \<and> token = Token (r\<lparr>rc_Version := v\<rparr>) \<and> c = cmp_Compare (version_bytes (rc_Version r)) (version_bytes v))"
proof
  assume "CompareVersion r token = Inr c"
  then obtain p2 v where v: "UnmarshalText p2 = Inr v" "c = version_compare (rc_Version r) v"
    "Token \<lparr>rc_Name = rc_Name r, rc_Version = v, rc_Value = []\<rparr> = token"
    by (auto simp: CompareVersion_def split: if_splits list.splits option.splits sum.splits)
  then have "token = Token (r\<lparr>rc_Version := v\<rparr>)" by (simp add: Token_def split: if_splits)
  then show "\<exists>v. version_ok v \<and> token = Token (r\<lparr>rc_Version := v\<rparr>) \<and> c = cmp_Compare (version_bytes (rc_Version r)) (version_bytes v)"
    using marshal_unmarshal(2)[OF v(1)] v(2) by (auto simp: version_compare_bytes)
qed (auto simp: CompareVersion_Token[OF assms] version_compare_bytes)

theorem config_token_versions_witness:
  "\<exists>token. CompareVersion (sample_record ''waf'' ''a'') token = Inr 0"
  using config_token_versions[of "sample_record ''waf'' ''a''" "Token (sample_record ''waf'' ''a'')" 0] sample_names(1)
    valid_version_ok[OF sample_sha_law sample_valid[of "''waf''" "''a''"]]
  by (auto simp: sample_record_def cmp_Compare_def)

end
