(* ===== verification/Spec2Isabelle.thy ===== *)
theory Spec2Isabelle
  imports Chord_Theorems KV_Lease KV_Aof_Durable Waf_Settings Config_Theorems
begin

text \<open>
  Specter is an overlay network that publishes services behind a firewall. Its servers form a Chord
  ring that doubles as a distributed key-value store; on top of it the tunnel server keeps routes,
  hostnames and leases, clients prove work and identity to register, and the servers replicate their
  shared configuration. This development models those parts as HOL functions and states what they
  guarantee. File names below are relative to \<^verbatim>\<open>src/\<close>.

  \<^bold>\<open>How the code is represented.\<close> A \<^verbatim>\<open>uint64\<close> is a \<open>64 word\<close>, a string or byte slice is a \<open>string\<close>, a
  nil slice is told from an empty one by \<open>bytes option\<close>; a Go error is a value of \<open>error\<close> and a fallible
  operation returns \<open>error + 'a\<close>, or an \<open>outcome\<close> where the code may panic. A node is a record, the network a map from identifiers to node records
  with a clock; a call on a node reference is the local method or, for another node, the RPC with the
  wrapping and mapping of its error. Third-party code is an argument: the hash \<^verbatim>\<open>xxh3\<close>, SHA-2, Ed25519, the
  RPC library, the retry library, the write-ahead log, message codecs, IDNA and certificate checks. What
  is relied on is a hypothesis of the theorems, and each such theorem is also applied to a concrete
  instance. The theorems on joins and leaves assume that the hash of successor lists has no collisions on
  the identifiers in use; a collision would make a node miss a change of its list.

  \<^bold>\<open>The ring.\<close>
  \<^item> \<^verbatim>\<open>Prelude\<close>: machine types, results, ordered maps (skip lists as sorted bindings).
  \<^item> \<^verbatim>\<open>Chord_Ring\<close> (\<^verbatim>\<open>spec/chord/chord.go\<close>): \<open>Between\<close>, \<open>ModuloSum\<close>, successor lists. \<open>Between\<close> is the
    clockwise arc; a successor list starts with the immediate successor, is duplicate free and bounded.
  \<^item> \<^verbatim>\<open>Chord_Errors\<close> (\<^verbatim>\<open>spec/chord/errors.go\<close>, \<^verbatim>\<open>spec/rpc/error.go\<close>): sentinel errors, their passage over
    the wire and the retry decision.
  \<^item> \<^verbatim>\<open>Chord_Node_State\<close> (\<^verbatim>\<open>chord/node_state.go\<close>): the packed state word and \<open>Transition\<close>, as a step relation
    over interleaved callers: no lost or repeated transition, and the history is the log of them, except
    for entries that are still to be stored.
  \<^item> \<^verbatim>\<open>Chord_Node\<close> (\<^verbatim>\<open>chord/local.go\<close>, \<^verbatim>\<open>chord/local_chord.go\<close>, \<^verbatim>\<open>chord/remote.go\<close>, \<^verbatim>\<open>chord/server_rpc.go\<close>),
    \<^verbatim>\<open>Chord_KV\<close> (\<^verbatim>\<open>chord/local_kv.go\<close> and the key transfers), \<^verbatim>\<open>Chord_Tasks\<close> (\<^verbatim>\<open>chord/local_tasks.go\<close>),
    \<^verbatim>\<open>Chord_Membership\<close> (\<^verbatim>\<open>chord/local_membership.go\<close>): the node and all its operations.
  \<^item> \<^verbatim>\<open>Chord_Lookup\<close>: lookups return the owner, in at most one hop per member, and in at most one hop per
    identifier bit when the fingers are exact; what they return is right also when nodes have left unnoticed.
  \<^item> \<^verbatim>\<open>Chord_Geometry\<close>, \<^verbatim>\<open>Chord_Invariant\<close>, \<^verbatim>\<open>Chord_Storage\<close>, \<^verbatim>\<open>Chord_Transfer\<close>, \<^verbatim>\<open>Chord_Join\<close>,
    \<^verbatim>\<open>Chord_Leave\<close>, \<^verbatim>\<open>Chord_Gap\<close>, \<^verbatim>\<open>Chord_Repair\<close>, \<^verbatim>\<open>Chord_Run\<close>: the invariant of a ring at rest, the state
    between a departure and the moment the predecessor notices it, what every task, join, leave and request
    keeps of them, and that the members together hold one store. In runs membership changes one at a time
    and every operation is one step. The wire does not tell an empty value from nil, and the stores differ
    on a put of nil and a release with token zero: \<open>ring_allows\<close> is what a ring may answer, and for requests
    that use none of these it is what the store answers.
  \<^item> \<^verbatim>\<open>Chord_Example\<close>, \<^verbatim>\<open>Chord_Theorems\<close>: a ring of two members and the theorems on whole rings: a ring
    refines one sequential store, joins and leaves keep the store, requests are answered, fingers converge.

  \<^bold>\<open>Storage.\<close>
  \<^item> \<^verbatim>\<open>KV_Spec\<close> (\<^verbatim>\<open>spec/chord/kv.go\<close>, \<^verbatim>\<open>kv/internal/lease\<close>): the interface as a record of operations, the
    abstract store and the contract of a provider as a locale.
  \<^item> \<^verbatim>\<open>KV_Memory\<close> (\<^verbatim>\<open>kv/memory\<close>), \<^verbatim>\<open>KV_Sqlite\<close> (\<^verbatim>\<open>kv/sqlite3\<close>): both providers interpret the locale, and so agree
    on every sequence of calls the contract covers; where they differ is stated too. The key tracker mirrors
    the tables after every sequence of calls.
  \<^item> \<^verbatim>\<open>KV_Lease\<close> (\<^verbatim>\<open>kv/memory/lease.go\<close>): the lease cell under interleaved callers excludes mutually.
  \<^item> \<^verbatim>\<open>KV_Aof\<close>, \<^verbatim>\<open>KV_Aof_Durable\<close> (\<^verbatim>\<open>kv/aof\<close>): the append-only log; reopening gives the data back, also when
    writes to the log fail and after a crash between the append and its outcome. Empty values are lost.
  \<^item> \<^verbatim>\<open>KV_Client\<close> (\<^verbatim>\<open>util/promise\<close>): programs that call the interface, with a weakest precondition under
    which any call may fail.

  \<^bold>\<open>Tunnels and configuration.\<close>
  \<^item> \<^verbatim>\<open>Tun_Spec\<close>, \<^verbatim>\<open>Tun_Names\<close> (\<^verbatim>\<open>spec/tun\<close>, \<^verbatim>\<open>spec/pki/token.go\<close>): storage keys and their disjointness, session
    aliases, ephemeral labels, delegation tokens and certificate subjects with their round trips.
  \<^item> \<^verbatim>\<open>Hashcash\<close> (\<^verbatim>\<open>util/hashcash\<close>, \<^verbatim>\<open>spec/pow\<close>): stamps and signed proofs of work.
  \<^item> \<^verbatim>\<open>Acme_Spec\<close> (\<^verbatim>\<open>spec/acme\<close>): normal forms of custom hostnames and their DNS records.
  \<^item> \<^verbatim>\<open>Waf_Settings\<close> (\<^verbatim>\<open>waf/settings.go\<close>): accepted firewall settings and policies.
  \<^item> \<^verbatim>\<open>Config_Record\<close> (\<^verbatim>\<open>config/record.go\<close>, \<^verbatim>\<open>config/codec.go\<close>), \<^verbatim>\<open>Config_Store\<close> (\<^verbatim>\<open>config/store.go\<close>,
    \<^verbatim>\<open>config/sqlite.go\<close>, the exchange of \<^verbatim>\<open>config/sync.go\<close>, \<^verbatim>\<open>config/rpc.go\<close>), \<^verbatim>\<open>Config_Theorems\<close>: versioned
    documents and their replicas. Saves are guarded by tokens, replicas converge whatever fails and however
    saves and the messages of exchanges interleave, and one exchange without faults unites two of them.

  \<^bold>\<open>Bounds and fuel.\<close> A lookup follows at most \<open>env_hops\<close> nodes before its deadline; the theorems that promise
  a result assume one hop per member, or one per identifier bit plus the first. \<open>kvMiddleware\<close> forwards at
  most its fuel's number of times; two suffice with exact neighbours, and running out is the deadline error
  of the code. Finger repair is stated for 48 rounds, the number of fingers: round \<open>k\<close> makes the \<open>k\<close>-th
  finger exact. The search of \<open>Solve\<close> is a partial function over the 32-bit counter, whose result is
  characterised in both directions. All other loops are structural recursions.

  \<^bold>\<open>Not modelled.\<close> Sockets, QUIC and HTTP (\<^verbatim>\<open>overlay\<close>, \<^verbatim>\<open>gateway\<close>, \<^verbatim>\<open>tun/client\<close>, \<^verbatim>\<open>spec/transport\<close>,
  \<^verbatim>\<open>spec/rpc\<close> beyond its errors), where the behaviour is that of the network libraries; the issuance of
  certificates (\<^verbatim>\<open>pki\<close>, \<^verbatim>\<open>acme\<close>); request inspection (\<^verbatim>\<open>waf/engine.go\<close>), which a third-party engine does;
  schema migrations and files; process wiring, command lines and status pages. Timeouts and cancellation
  appear only as calls that may fail. Concurrency is modelled where a single cell is shared (the node
  state and the lease) and by the order of events elsewhere. The handlers and sessions of the tunnel
  server are not modelled beyond the names they use.
\<close>

end
